(* ===== verification/Avocado_Prelude.thy ===== *)
theory Avocado_Prelude
  imports Main "HOL-Library.Word" "HOL-Library.Monad_Syntax"
begin

text \<open>
  Shared vocabulary of the development: the machine integers of the C++ code, byte buffers with
  bounds-checked access, and the little-endian layout that the code's \<open>reinterpret_cast\<close>s rely on
  (the code targets x86-64 only: it uses \<open>cmpxchg16b\<close>, \<open>adc\<close> and \<open>rdtsc\<close>).

  A memory access outside its allocation, a null dereference and a failed \<open>assert\<close> are the value
  \<open>None\<close> of the option type; a defined run is \<open>Some\<close>.  Proper error results of the code (a
  \<open>bool\<close> or a null pointer that the caller can test) are ordinary values inside \<open>Some\<close>.
\<close>

unbundle bit_operations_syntax

named_theorems mem_simps \<open>reads and writes of byte buffers\<close>
named_theorems layout_simps \<open>sizes and little-endian layout\<close>

section \<open>Machine integers and buffers\<close>

lemma unat_lt2p: "unat (w :: 'a::len word) < 2 ^ LENGTH('a)"
  by (fact unsigned_less)

lemma unat_of_nat_eq: "n < 2 ^ LENGTH('a) \<Longrightarrow> unat (of_nat n :: 'a::len word) = n"
  by (simp add: unat_of_nat)

type_synonym u8 = "8 word"
type_synonym u16 = "16 word"
type_synonym u32 = "32 word"
type_synonym u64 = "64 word"
type_synonym bytes = "u8 list"

abbreviation (input) size_of :: "'a list \<Rightarrow> u64" where
  "size_of xs \<equiv> of_nat (length xs)"

text \<open>The \<open>assert\<close> of the C library in a build without \<open>NDEBUG\<close>.\<close>

definition assert_that :: "bool \<Rightarrow> unit option" where
  "assert_that b = (if b then Some () else None)"

lemma assert_that_simps [simp]:
  "assert_that True = Some ()" "assert_that False = None"
  by (simp_all add: assert_that_def)

lemma assert_that_eq_Some [simp]: "assert_that b = Some u \<longleftrightarrow> b"
  by (simp add: assert_that_def)

text \<open>
  \<open>memcpy\<close> is a read of the source followed by a write of the target.  Reading \<open>n\<close> bytes at
  offset \<open>off\<close> needs \<open>off + n\<close> allocated bytes, and so does writing.
\<close>

definition mem_read :: "bytes \<Rightarrow> nat \<Rightarrow> nat \<Rightarrow> bytes option" where
  "mem_read m off n = (if off + n \<le> length m then Some (take n (drop off m)) else None)"

definition mem_write :: "bytes \<Rightarrow> nat \<Rightarrow> bytes \<Rightarrow> bytes option" where
  "mem_write m off bs =
     (if off + length bs \<le> length m
      then Some (take off m @ bs @ drop (off + length bs) m) else None)"

lemma mem_read_append [mem_simps]:
  "length xs = off \<Longrightarrow> length ys = n \<Longrightarrow> mem_read (xs @ ys @ zs) off n = Some ys"
  by (simp add: mem_read_def)

lemma mem_read_prefix [mem_simps]:
  "length ys = n \<Longrightarrow> mem_read (ys @ zs) 0 n = Some ys"
  by (simp add: mem_read_def)

lemma mem_read_all [mem_simps]: "length ys = n \<Longrightarrow> mem_read ys 0 n = Some ys"
  by (simp add: mem_read_def)

lemma mem_write_append [mem_simps]:
  "length xs = off \<Longrightarrow> length ys = length bs \<Longrightarrow> mem_write (xs @ ys @ zs) off bs = Some (xs @ bs @ zs)"
  by (simp add: mem_write_def)

lemma mem_write_prefix [mem_simps]:
  "length ys = length bs \<Longrightarrow> mem_write (ys @ zs) 0 bs = Some (bs @ zs)"
  by (simp add: mem_write_def)

lemma mem_read_length: "mem_read m off n = Some bs \<Longrightarrow> length bs = n"
  by (auto simp: mem_read_def split: if_splits)

lemma mem_write_length: "mem_write m off bs = Some m' \<Longrightarrow> length m' = length m"
  by (auto simp: mem_write_def split: if_splits)

lemma mem_write_defined_iff: "mem_write m off bs \<noteq> None \<longleftrightarrow> off + length bs \<le> length m"
  by (simp add: mem_write_def)

lemma mem_read_defined_iff: "mem_read m off n \<noteq> None \<longleftrightarrow> off + n \<le> length m"
  by (simp add: mem_read_def)

lemma mem_read_write_same:
  "mem_write m off bs = Some m' \<Longrightarrow> mem_read m' off (length bs) = Some bs"
  by (auto simp: mem_write_def mem_read_def split: if_splits)

lemma mem_read_zero [mem_simps]: "mem_read m 0 0 = Some []"
  by (simp add: mem_read_def)

section \<open>Little-endian integers\<close>

primrec le_val :: "bytes \<Rightarrow> nat" where
  "le_val [] = 0"
| "le_val (b # bs) = unat b + 256 * le_val bs"

primrec le_enc :: "nat \<Rightarrow> nat \<Rightarrow> bytes" where
  "le_enc 0 v = []"
| "le_enc (Suc n) v = of_nat (v mod 256) # le_enc n (v div 256)"

lemma length_le_enc [simp]: "length (le_enc n v) = n"
  by (induction n arbitrary: v) auto

lemma unat_byte_of_mod [simp]: "unat (of_nat (v mod 256) :: u8) = v mod 256"
  by (simp add: unat_of_nat)

lemma le_val_le_enc [layout_simps]: "v < 256 ^ n \<Longrightarrow> le_val (le_enc n v) = v"
proof (induction n arbitrary: v)
  case 0
  then show ?case by simp
next
  case (Suc n)
  from Suc.prems have "v div 256 < 256 ^ n"
    by (simp add: less_mult_imp_div_less mult.commute)
  then have "le_val (le_enc n (v div 256)) = v div 256" by (rule Suc.IH)
  then show ?case by simp
qed

lemma le_val_bound: "le_val bs < 256 ^ length bs"
proof (induction bs)
  case Nil
  then show ?case by simp
next
  case (Cons b bs)
  have "unat b < 256" using unat_lt2p [of b] by simp
  moreover from Cons have "256 * le_val bs + 256 \<le> 256 * 256 ^ length bs" by linarith
  ultimately show ?case by simp
qed

lemma le_enc_le_val [layout_simps]: "length bs = n \<Longrightarrow> le_enc n (le_val bs) = bs"
proof (induction bs arbitrary: n)
  case Nil
  then show ?case by simp
next
  case (Cons b bs)
  have b: "unat b < 256" using unat_lt2p [of b] by simp
  then have "(unat b + 256 * le_val bs) mod 256 = unat b"
    and "(unat b + 256 * le_val bs) div 256 = le_val bs" by simp_all
  with Cons show ?case by (cases n) auto
qed

lemma le_enc_inject:
  assumes "v < 256 ^ n" "w < 256 ^ n" "le_enc n v = le_enc n w"
  shows "v = w"
  using assms le_val_le_enc by metis

section \<open>Words and sizes\<close>

lemma unat_size_of [layout_simps]:
  "length xs < 2 ^ 64 \<Longrightarrow> unat (size_of xs) = length xs"
  by (simp add: unat_of_nat_eq)

lemma unat_u32_bound: "unat (w :: u32) < 256 ^ 4"
  using unat_lt2p [of w] by simp

lemma unat_u64_bound: "unat (w :: u64) < 256 ^ 8"
  using unat_lt2p [of w] by simp

lemma unat_add_u64:
  "unat (a :: u64) + unat b < 2 ^ 64 \<Longrightarrow> unat (a + b) = unat a + unat b"
  by (simp add: unat_word_ariths)

lemma unat_sub_u64: "b \<le> (a :: u64) \<Longrightarrow> unat (a - b) = unat a - unat b"
  by (simp add: unat_sub)

lemma of_nat_u64_less_iff:
  "m < 2 ^ 64 \<Longrightarrow> n < 2 ^ 64 \<Longrightarrow> ((of_nat m :: u64) < of_nat n) = (m < n)"
  by (simp add: word_less_nat_alt unat_of_nat_eq)

lemma foldl_max_ge:
  fixes a :: "'a :: linorder"
  shows "x \<in> insert a (set xs) \<Longrightarrow> x \<le> foldl max a xs"
proof (induction xs arbitrary: a x)
  case (Cons y ys)
  have "max a y \<le> foldl max (max a y) ys" by (rule Cons.IH) simp
  with Cons show ?case by auto
qed simp

end
