(* ===== verification/Lamport.thy ===== *)
theory Lamport
  imports Avocado_Prelude
begin

text \<open>
  The Lamport clocks of \<open>src/include/protocol/abd/lamport.h\<close>: a 32-bit counter and a 32-bit
  machine id, compared through one 64-bit integer that has the counter in its upper half.  The
  theory shows that this integer comparison is the lexicographic order on (counter, machine id),
  that the conversion to the integer and the constructor from it are inverse to each other, and
  instantiates \<open>linorder\<close> so that the order lemmas of the library apply to clocks.  It also has
  the memory layout of a clock inside a message and what the key helpers of
  \<open>src/include/protocol/abd/key_access.h\<close> read from it.
\<close>

section \<open>Definitions\<close>

datatype lamport = Lamport (get_count: u32) (get_machine_id: u32)

definition to_int :: "lamport \<Rightarrow> u64" where
  "to_int l = push_bit 32 (ucast (get_count l)) OR ucast (get_machine_id l)"

definition lamport_of_int :: "u64 \<Rightarrow> lamport" where
  "lamport_of_int i = Lamport (ucast (drop_bit 32 i)) (ucast (0xFFFFFFFF AND i))"

definition set_count :: "u32 \<Rightarrow> lamport \<Rightarrow> lamport" where
  "set_count c l = Lamport c (get_machine_id l)"

definition lamport_min :: lamport where
  "lamport_min = Lamport 0 0"

definition lamport_max :: lamport where
  "lamport_max = Lamport (- 1) (- 1)"

text \<open>The six comparison operators that the macro \<open>LAMPORT_OPERATOR\<close> generates.\<close>

definition lamport_lt :: "lamport \<Rightarrow> lamport \<Rightarrow> bool" where
  "lamport_lt a b \<longleftrightarrow> to_int a < to_int b"

definition lamport_gt :: "lamport \<Rightarrow> lamport \<Rightarrow> bool" where
  "lamport_gt a b \<longleftrightarrow> to_int a > to_int b"

definition lamport_le :: "lamport \<Rightarrow> lamport \<Rightarrow> bool" where
  "lamport_le a b \<longleftrightarrow> to_int a \<le> to_int b"

definition lamport_ge :: "lamport \<Rightarrow> lamport \<Rightarrow> bool" where
  "lamport_ge a b \<longleftrightarrow> to_int a \<ge> to_int b"

definition lamport_eq :: "lamport \<Rightarrow> lamport \<Rightarrow> bool" where
  "lamport_eq a b \<longleftrightarrow> to_int a = to_int b"

definition lamport_ne :: "lamport \<Rightarrow> lamport \<Rightarrow> bool" where
  "lamport_ne a b \<longleftrightarrow> to_int a \<noteq> to_int b"

section \<open>The integer representation\<close>

lemma low_mask_eq: "(0xFFFFFFFF :: u64) = mask 32"
  by (simp add: mask_eq_exp_minus_1)

lemma bit_u32_beyond [simp]: "\<not> bit (w :: u32) (32 + n)"
  by (auto dest: bit_imp_le_length)

lemma unat_ucast_u32_u64 [simp]: "unat (ucast (w :: u32) :: u64) = unat w"
  by (simp add: unsigned_ucast_eq take_bit_nat_eq_self_iff order_less_trans [OF unat_lt2p])

lemma unat_to_int: "unat (to_int l) = unat (get_count l) * 2 ^ 32 + unat (get_machine_id l)"
proof -
  let ?c = "ucast (get_count l) :: u64" and ?m = "ucast (get_machine_id l) :: u64"
  have c: "unat ?c = unat (get_count l)" and m: "unat ?m = unat (get_machine_id l)"
    by simp_all
  have cb: "unat (get_count l) < 2 ^ 32" and mb: "unat (get_machine_id l) < 2 ^ 32"
    using unat_lt2p [of "get_count l"] unat_lt2p [of "get_machine_id l"] by simp_all
  have disj: "push_bit 32 ?c AND ?m = 0"
    by (rule bit_word_eqI) (auto simp: bit_simps dest: bit_imp_le_length)
  have "push_bit 32 ?c OR ?m = push_bit 32 ?c + ?m"
    using disj by (simp add: disjunctive_add_eq_or)
  moreover have "unat (push_bit 32 ?c) = unat (get_count l) * 2 ^ 32"
    using cb c by (simp add: push_bit_eq_mult unat_word_ariths)
  ultimately show ?thesis
    using m cb mb by (simp add: to_int_def unat_word_ariths)
qed

lemma to_int_of_int [simp]: "to_int (lamport_of_int i) = i"
  unfolding to_int_def lamport_of_int_def low_mask_eq
  by (rule bit_word_eqI) (auto simp: bit_simps)

lemma of_int_to_int [simp]: "lamport_of_int (to_int l) = l"
proof (cases l)
  case (Lamport c m)
  have "ucast (drop_bit 32 (push_bit 32 (ucast c :: u64) OR ucast m)) = c"
    by (rule bit_word_eqI) (auto simp: bit_simps)
  moreover have "ucast (0xFFFFFFFF AND (push_bit 32 (ucast c :: u64) OR ucast m)) = m"
    unfolding low_mask_eq by (rule bit_word_eqI) (auto simp: bit_simps)
  ultimately show ?thesis by (simp add: Lamport to_int_def lamport_of_int_def)
qed

lemma to_int_inject [simp]: "to_int a = to_int b \<longleftrightarrow> a = b"
  by (metis of_int_to_int)

section \<open>The order on clocks\<close>

text \<open>
  The memberwise comparison that the C++20 branch of the header asks for
  (\<open>operator<=> = default\<close>): the members in the order of their declaration.
\<close>

definition lamport_memberwise_lt :: "lamport \<Rightarrow> lamport \<Rightarrow> bool" where
  "lamport_memberwise_lt a b \<longleftrightarrow>
     get_count a < get_count b \<or>
     get_count a = get_count b \<and> get_machine_id a < get_machine_id b"

lemma lamport_lt_memberwise: "lamport_lt a b = lamport_memberwise_lt a b"
proof -
  have "unat (get_machine_id a) < 2 ^ 32" "unat (get_machine_id b) < 2 ^ 32"
    using unat_lt2p [of "get_machine_id a"] unat_lt2p [of "get_machine_id b"] by simp_all
  then show ?thesis
    unfolding lamport_lt_def lamport_memberwise_lt_def word_less_nat_alt unat_to_int
      word_eq_iff_unsigned [where 'a = nat]
    by (cases "unat (get_count a)" "unat (get_count b)" rule: linorder_cases) auto
qed

instantiation lamport :: linorder
begin

definition less_lamport :: "lamport \<Rightarrow> lamport \<Rightarrow> bool" where
  "less_lamport a b = lamport_lt a b"

definition less_eq_lamport :: "lamport \<Rightarrow> lamport \<Rightarrow> bool" where
  "less_eq_lamport a b = lamport_le a b"

instance
  by standard
    (auto simp: less_lamport_def less_eq_lamport_def lamport_lt_def lamport_le_def
      order.strict_iff_order intro: to_int_inject [THEN iffD1, OF order_antisym])

end

lemmas lamport_order_defs =
  less_lamport_def less_eq_lamport_def lamport_lt_def lamport_gt_def lamport_le_def
  lamport_ge_def lamport_eq_def lamport_ne_def

lemma lamport_ops [simp]:
  "lamport_lt a b \<longleftrightarrow> a < b" "lamport_gt a b \<longleftrightarrow> b < a"
  "lamport_le a b \<longleftrightarrow> a \<le> b" "lamport_ge a b \<longleftrightarrow> b \<le> a"
  "lamport_eq a b \<longleftrightarrow> a = b" "lamport_ne a b \<longleftrightarrow> a \<noteq> b"
  by (simp_all add: lamport_order_defs)

lemma lamport_less_iff:
  "Lamport c m < Lamport c' m' \<longleftrightarrow> c < c' \<or> c = c' \<and> m < m'"
  using lamport_lt_memberwise [of "Lamport c m" "Lamport c' m'"]
  by (simp add: lamport_memberwise_lt_def)

lemma lamport_le_iff:
  "Lamport c m \<le> Lamport c' m' \<longleftrightarrow> c < c' \<or> c = c' \<and> m \<le> m'"
  by (auto simp: order_le_less lamport_less_iff)

lemma lamport_count_mono: "a \<le> b \<Longrightarrow> get_count a \<le> get_count b"
  by (cases a; cases b) (auto simp: lamport_le_iff)

lemma lamport_less_if_count_less: "get_count a < get_count b \<Longrightarrow> a < b"
  by (cases a; cases b) (simp add: lamport_less_iff)

lemma lamport_min_le [simp]: "lamport_min \<le> l"
  by (cases l) (auto simp: lamport_min_def lamport_le_iff word_gt_0)

lemma lamport_le_max [simp]: "l \<le> lamport_max"
proof -
  have "to_int lamport_max = - 1"
    by (rule bit_word_eqI) (auto simp: lamport_max_def to_int_def bit_simps)
  then show ?thesis unfolding less_eq_lamport_def lamport_le_def by simp
qed

lemma lamport_of_int_0 [simp]: "lamport_of_int 0 = lamport_min"
  by (simp add: lamport_of_int_def lamport_min_def)

section \<open>Clocks in memory\<close>

text \<open>The bytes of a clock object: its two 32-bit members, in declaration order.\<close>

definition lamport_bytes :: "lamport \<Rightarrow> bytes" where
  "lamport_bytes l = le_enc 4 (unat (get_count l)) @ le_enc 4 (unat (get_machine_id l))"

definition lamport_of_bytes :: "bytes \<Rightarrow> lamport" where
  "lamport_of_bytes bs = Lamport (of_nat (le_val (take 4 bs))) (of_nat (le_val (take 4 (drop 4 bs))))"

lemma length_lamport_bytes [simp]: "length (lamport_bytes l) = 8"
  by (simp add: lamport_bytes_def)

lemma lamport_of_bytes_bytes [simp]: "lamport_of_bytes (lamport_bytes l @ rest) = l"
  by (cases l)
    (simp add: lamport_bytes_def lamport_of_bytes_def le_val_le_enc unat_u32_bound [simplified])

lemma lamport_bytes_roundtrip [simp]: "lamport_of_bytes (lamport_bytes l) = l"
  using lamport_of_bytes_bytes [of l "[]"] by simp

section \<open>Properties\<close>

text \<open>
  The six operators that the macro generates (comparison of the packed 64-bit integers) are the
  member-wise lexicographic order that the defaulted three-way comparison gives, so both
  preprocessor branches define the same total order.
\<close>

lemma lamport_operators_agree:
  "(lamport_lt a b \<longleftrightarrow> lamport_memberwise_lt a b) \<and>
   (lamport_gt a b \<longleftrightarrow> lamport_memberwise_lt b a) \<and>
   (lamport_le a b \<longleftrightarrow> lamport_memberwise_lt a b \<or> a = b) \<and>
   (lamport_ge a b \<longleftrightarrow> lamport_memberwise_lt b a \<or> a = b) \<and>
   (lamport_eq a b \<longleftrightarrow> a = b) \<and> (lamport_ne a b \<longleftrightarrow> a \<noteq> b)"
  using lamport_lt_memberwise [of a b] lamport_lt_memberwise [of b a] by auto

text \<open>
  Packing a clock into 64 bits and unpacking it loses nothing in either direction, the counter
  sits in the upper half, and the byte image of a clock decodes to it.
\<close>

lemma lamport_int_roundtrip:
  "lamport_of_int (to_int l) = l \<and> to_int (lamport_of_int i) = i \<and>
   unat (to_int l) = unat (get_count l) * 2 ^ 32 + unat (get_machine_id l) \<and>
   lamport_of_bytes (lamport_bytes l) = l"
  by (simp add: unat_to_int)

end
