(* ===== verification/Key_Access.thy ===== *)
theory Key_Access
  imports Lamport
begin

text \<open>
  The key helpers of \<open>src/include/protocol/abd/key_access.h\<close>: a replicated key carries its Lamport
  clock in its last eight bytes.  A pointer argument is the memory readable from it
  (\<open>None\<close> for the null pointer); sizes are 64-bit words, so the subtractions wrap.
\<close>

section \<open>Definitions\<close>

definition meta_size :: u64 where
  "meta_size = 8"

definition ka_equal :: "bytes \<Rightarrow> bytes \<Rightarrow> u64 \<Rightarrow> bool option" where
  "ka_equal lhs rhs sz = do {
     a \<leftarrow> mem_read lhs 0 (unat (sz - meta_size));
     b \<leftarrow> mem_read rhs 0 (unat (sz - meta_size));
     Some (a = b)
   }"

definition ka_adjust_size :: "u64 \<Rightarrow> u64" where
  "ka_adjust_size sz = sz - meta_size"

definition ka_adjust_key_buf :: "bytes \<Rightarrow> bytes" where
  "ka_adjust_key_buf key = key"

definition get_lamport :: "u64 \<Rightarrow> bytes option \<Rightarrow> lamport option" where
  "get_lamport sz key = do {
     _ \<leftarrow> assert_that (sz \<ge> meta_size);
     (case key of
        Some buf \<Rightarrow> map_option lamport_of_bytes (mem_read buf (unat (ka_adjust_size sz)) 8)
      | None \<Rightarrow> Some (Lamport 0 (- 1)))
   }"

definition add_meta_size :: "u64 \<Rightarrow> u64" where
  "add_meta_size sz = sz + meta_size"

definition sub_meta_size :: "u64 \<Rightarrow> u64" where
  "sub_meta_size sz = sz - meta_size"

section \<open>Lemmas\<close>

lemma sub_add_meta_size [simp]: "sub_meta_size (add_meta_size n) = n"
  by (simp add: sub_meta_size_def add_meta_size_def)

lemma adjust_eq_sub [simp]: "ka_adjust_size n = sub_meta_size n"
  by (simp add: ka_adjust_size_def sub_meta_size_def)

lemma add_meta_size_of [layout_simps]:
  "add_meta_size (size_of key) = size_of (key @ lamport_bytes l)"
  by (simp add: add_meta_size_def meta_size_def)

text \<open>A clock appended to a key of any length is read back, whatever follows it in the buffer.\<close>

lemma get_lamport_appended:
  assumes "length key + 8 < 2 ^ 64" and "n = length key + 8"
  shows "get_lamport (of_nat n) (Some (key @ lamport_bytes l @ rest)) = Some l"
proof -
  have n: "unat (of_nat n :: u64) = length key + 8"
    using assms unat_of_nat_eq [of n, where 'a = 64] by (simp del: of_nat_add)
  have "meta_size \<le> (of_nat n :: u64)"
    using n by (simp add: word_le_nat_alt meta_size_def)
  moreover have "unat (of_nat n - meta_size) = length key"
    using assms by (simp add: meta_size_def unat_of_nat_eq)
  ultimately show ?thesis
    by (simp add: get_lamport_def sub_meta_size_def mem_read_append)
qed

lemma get_lamport_bare:
  "get_lamport 8 (Some (lamport_bytes l @ rest)) = Some l"
  using get_lamport_appended [of "[]" 8 l rest] by simp

lemma get_lamport_too_short: "sz < 8 \<Longrightarrow> get_lamport sz key = None"
  by (auto simp: get_lamport_def meta_size_def assert_that_def)

section \<open>Properties\<close>

text \<open>
  A key with its clock appended: the size helpers account for the eight bytes, \<open>get_lamport\<close>
  reads the appended clock whatever follows it in memory, and \<open>equal\<close> compares exactly the bare keys.
\<close>

lemma key_clock_roundtrip:
  assumes "length key + 8 < 2 ^ 64" and "length key' = length key"
  shows "get_lamport (add_meta_size (size_of key)) (Some (key @ lamport_bytes l @ rest)) = Some l \<and>
    sub_meta_size (size_of (key @ lamport_bytes l)) = size_of key \<and>
    ka_equal (key @ lamport_bytes l) (key' @ lamport_bytes l') (add_meta_size (size_of key)) = Some (key = key')"
proof -
  have "unat (size_of key) = length key" using assms(1) by (simp add: unat_of_nat_eq)
  then show ?thesis
    using assms get_lamport_appended [of key "length key + 8" l rest]
    by (simp add: add_meta_size_def sub_meta_size_def meta_size_def ka_equal_def mem_read_def)
qed

lemma key_clock_roundtrip_example:
  "get_lamport (add_meta_size (size_of [1, 2, 3 :: u8]))
     (Some ([1, 2, 3] @ lamport_bytes (Lamport 7 1) @ [9])) = Some (Lamport 7 1)"
  using key_clock_roundtrip [of "[1, 2, 3]" "[1, 2, 4]" "Lamport 7 1" "[9]" "Lamport 8 1"] by simp

end
