(* ===== verification/Message.thy ===== *)
theory Message
  imports Key_Access
begin

text \<open>
  The message format of \<open>src/include/protocol/abd/msg.h\<close> and the spans of
  \<open>src/include/protocol/abd/span.h\<close>.  A message is one heap buffer that is cast to
  \<open>Encoded_msg\<close>: eight bytes \<open>key_size\<close>, eight bytes \<open>size\<close>, then the key bytes and the value bytes.
  A pointer into a buffer is the part of the allocation that follows it, so every access through it
  stays bounds-checked.

  The main facts: the builder keeps the encoded form (interface \<open>message_builder\<close>, interpreted on the
  code's definitions), so what was added as key and as value is what the accessors return, and a
  builder of capacity \<open>n\<close> accepts exactly the additions that fit into \<open>n\<close>.
\<close>

section \<open>Spans and messages\<close>

record span =
  span_size :: u64
  span_buf :: "bytes option"

type_synonym msg = bytes

abbreviation (input) header_size :: nat where
  "header_size \<equiv> 16"

definition msg_new :: "u64 \<Rightarrow> msg" where
  "msg_new sz = replicate (unat sz) 0"

definition read_u64 :: "msg \<Rightarrow> nat \<Rightarrow> u64 option" where
  "read_u64 m off = map_option (\<lambda>bs. of_nat (le_val bs)) (mem_read m off 8)"

definition write_u64 :: "msg \<Rightarrow> nat \<Rightarrow> u64 \<Rightarrow> msg option" where
  "write_u64 m off w = mem_write m off (le_enc 8 (unat w))"

definition get_key_size :: "msg \<Rightarrow> u64 option" where
  "get_key_size m = read_u64 m 0"

definition get_size :: "msg \<Rightarrow> u64 option" where
  "get_size m = read_u64 m 8"

definition get_value_size :: "msg \<Rightarrow> u64 option" where
  "get_value_size m = do {
     sz \<leftarrow> get_size m;
     key_size \<leftarrow> get_key_size m;
     Some (if sz > key_size then sz - key_size else 0)
   }"

definition adjust_size :: "u64 \<Rightarrow> u64" where
  "adjust_size sz = sz + 16"

definition get_key :: "msg \<Rightarrow> span option" where
  "get_key m = do {
     key_size \<leftarrow> get_key_size m;
     Some \<lparr>span_size = key_size, span_buf = Some (drop header_size m)\<rparr>
   }"

definition get_value :: "msg \<Rightarrow> span option" where
  "get_value m = do {
     sz \<leftarrow> get_size m;
     key_size \<leftarrow> get_key_size m;
     Some (if sz > key_size
           then \<lparr>span_size = sz - key_size,
                 span_buf = Some (drop (header_size + unat key_size) m)\<rparr>
           else \<lparr>span_size = 0, span_buf = None\<rparr>)
   }"

definition has_value :: "msg \<Rightarrow> bool option" where
  "has_value m = do {
     sz \<leftarrow> get_size m;
     key_size \<leftarrow> get_key_size m;
     Some (sz > key_size)
   }"

text \<open>The bytes that a \<open>memcpy\<close> of the whole span reads.\<close>

definition span_bytes :: "span \<Rightarrow> bytes option" where
  "span_bytes s =
     (case span_buf s of
        Some buf \<Rightarrow> mem_read buf 0 (unat (span_size s))
      | None \<Rightarrow> if span_size s = 0 then Some [] else None)"

section \<open>The builder\<close>

definition builder_new :: "u64 \<Rightarrow> msg option" where
  "builder_new max_size = do {
     m \<leftarrow> write_u64 (msg_new (adjust_size max_size)) 0 0;
     write_u64 m 8 0
   }"

text \<open>\<open>size_of_T\<close> is the \<open>sizeof(T)\<close> of the template parameter, \<open>src\<close> the memory behind the pointer.\<close>

definition add_key :: "u64 \<Rightarrow> msg \<Rightarrow> bytes \<Rightarrow> u64 \<Rightarrow> msg option" where
  "add_key size_of_T m src n = do {
     let sz = n * size_of_T;
     key_size \<leftarrow> get_key_size m;
     bs \<leftarrow> mem_read src 0 (unat sz);
     m \<leftarrow> mem_write m (header_size + unat key_size) bs;
     m \<leftarrow> write_u64 m 0 (key_size + sz);
     old_size \<leftarrow> get_size m;
     write_u64 m 8 (old_size + sz)
   }"

definition add_value :: "u64 \<Rightarrow> msg \<Rightarrow> bytes \<Rightarrow> u64 \<Rightarrow> msg option" where
  "add_value size_of_T m src n = do {
     let sz = n * size_of_T;
     old_size \<leftarrow> get_size m;
     bs \<leftarrow> mem_read src 0 (unat sz);
     m \<leftarrow> mem_write m (header_size + unat old_size) bs;
     write_u64 m 8 (old_size + sz)
   }"

definition builder_finish :: "msg \<Rightarrow> msg" where
  "builder_finish m = m"

section \<open>The encoded form\<close>

text \<open>
  The abstraction: a buffer that holds key \<open>k\<close> and value \<open>v\<close> and has \<open>rest\<close> unused bytes at its end.
\<close>

definition encoded :: "bytes \<Rightarrow> bytes \<Rightarrow> bytes \<Rightarrow> msg" where
  "encoded k v rest = le_enc 8 (length k) @ le_enc 8 (length k + length v) @ k @ v @ rest"

abbreviation fits :: "bytes \<Rightarrow> bytes \<Rightarrow> bool" where
  "fits k v \<equiv> length k + length v + 16 < 2 ^ 64"

lemma length_encoded [simp]: "length (encoded k v rest) = 16 + length k + length v + length rest"
  by (simp add: encoded_def)

lemma encoded_neq_Nil [simp]: "encoded k v rest \<noteq> []"
  using length_encoded [of k v rest] by (cases "encoded k v rest") auto

lemma read_key_size_encoded [mem_simps]:
  "fits k v \<Longrightarrow> get_key_size (encoded k v rest) = Some (size_of k)"
  by (simp add: get_key_size_def read_u64_def encoded_def mem_simps le_val_le_enc)

lemma read_size_encoded [mem_simps]:
  "fits k v \<Longrightarrow> get_size (encoded k v rest) = Some (of_nat (length k + length v))"
  by (simp add: get_size_def read_u64_def encoded_def mem_simps le_val_le_enc)

lemma drop_header_encoded [mem_simps]: "drop 16 (encoded k v rest) = k @ v @ rest"
  by (simp add: encoded_def)

lemma drop_key_encoded [mem_simps]: "drop (16 + length k) (encoded k v rest) = v @ rest"
  by (simp add: encoded_def)

lemma get_key_encoded [mem_simps]:
  "fits k v \<Longrightarrow>
   get_key (encoded k v rest) = Some \<lparr>span_size = size_of k, span_buf = Some (k @ v @ rest)\<rparr>"
  by (simp add: get_key_def mem_simps)

lemma get_value_encoded [mem_simps]:
  assumes "fits k v"
  shows "get_value (encoded k v rest) =
    Some (if v = [] then \<lparr>span_size = 0, span_buf = None\<rparr>
          else \<lparr>span_size = size_of v, span_buf = Some (v @ rest)\<rparr>)"
  using assms
  by (simp add: get_value_def mem_simps unat_size_of of_nat_u64_less_iff del: of_nat_add)
    (simp add: of_nat_diff)

lemma get_value_size_encoded [mem_simps]:
  "fits k v \<Longrightarrow> get_value_size (encoded k v rest) = Some (size_of v)"
  by (simp add: get_value_size_def mem_simps of_nat_u64_less_iff del: of_nat_add) simp

lemma has_value_encoded [mem_simps]:
  "fits k v \<Longrightarrow> has_value (encoded k v rest) = Some (v \<noteq> [])"
  by (simp add: has_value_def mem_simps of_nat_u64_less_iff del: of_nat_add)

lemma span_bytes_prefix [mem_simps]:
  "length bs < 2 ^ 64 \<Longrightarrow>
   span_bytes \<lparr>span_size = size_of bs, span_buf = Some (bs @ rest)\<rparr> = Some bs"
  by (simp add: span_bytes_def unat_size_of mem_simps)

lemma span_bytes_empty [mem_simps]:
  "span_bytes \<lparr>span_size = 0, span_buf = None\<rparr> = Some []"
  by (simp add: span_bytes_def)

section \<open>The builder refines appending to a key and a value\<close>

lemma write_key_size_encoded:
  "write_u64 (encoded k v rest) 0 w =
     Some (le_enc 8 (unat w) @ le_enc 8 (length k + length v) @ k @ v @ rest)"
  by (simp add: write_u64_def encoded_def mem_write_prefix)

lemma builder_new_encoded:
  assumes "unat n + 16 < 2 ^ 64"
  shows "builder_new n = Some (encoded [] [] (replicate (unat n) 0))"
proof -
  have n: "unat (n + 16) = unat n + 16"
    using assms unat_add_u64 [of n 16] by simp
  have "msg_new (adjust_size n) = replicate 8 0 @ replicate 8 0 @ replicate (unat n) 0"
    by (simp add: msg_new_def adjust_size_def n flip: replicate_add)
  then show ?thesis
    by (simp add: builder_new_def write_u64_def encoded_def mem_write_prefix
        mem_write_append [where xs = "le_enc 8 0"])
qed

lemma add_key_encoded:
  assumes "length x \<le> length rest" and "16 + length k + length rest < 2 ^ 64"
  shows "add_key 1 (encoded k [] rest) x (size_of x) =
    Some (encoded (k @ x) [] (drop (length x) rest))"
proof -
  have fit: "fits k []" and lens: "length x < 2 ^ 64" "length k < 2 ^ 64" "length k + length x < 2 ^ 64"
    using assms by simp_all
  have w: "mem_write (encoded k [] rest) (16 + length k) x =
      Some (le_enc 8 (length k) @ le_enc 8 (length k) @ k @ x @ drop (length x) rest)"
    using assms by (simp add: mem_write_def encoded_def)
  have sum: "unat (of_nat (length k) + of_nat (length x) :: u64) = length k + length x"
    using lens unat_of_nat_eq [of "length k + length x", where 'a = 64] by simp
  have rhs: "encoded (k @ x) [] (drop (length x) rest) =
      le_enc 8 (length k + length x) @ le_enc 8 (length k + length x) @ k @ x @ drop (length x) rest"
    by (simp add: encoded_def)
  show ?thesis
    using assms lens
    by (simp add: add_key_def Let_def read_key_size_encoded [OF fit] unat_size_of mem_simps w
        write_u64_def get_size_def read_u64_def le_val_le_enc sum rhs
        mem_write_append [where xs = "le_enc 8 (length k + length x)"])
qed

lemma add_value_encoded:
  assumes "length x \<le> length rest" and "16 + length k + length v + length rest < 2 ^ 64"
  shows "add_value 1 (encoded k v rest) x (size_of x) =
    Some (encoded k (v @ x) (drop (length x) rest))"
proof -
  have fit: "fits k v" and lens: "length x < 2 ^ 64" "length k + length v < 2 ^ 64"
    "length k + length v + length x < 2 ^ 64"
    using assms by simp_all
  have w: "mem_write (encoded k v rest) (16 + (length k + length v)) x =
      Some (le_enc 8 (length k) @ le_enc 8 (length k + length v) @ k @ v @ x @ drop (length x) rest)"
    using assms by (simp add: mem_write_def encoded_def)
  have kv: "unat (of_nat (length k) + of_nat (length v) :: u64) = length k + length v"
    using lens unat_of_nat_eq [of "length k + length v", where 'a = 64] by simp
  have sum: "unat (of_nat (length k) + of_nat (length v) + of_nat (length x) :: u64) =
      length k + length v + length x"
    using lens unat_of_nat_eq [of "length k + length v + length x", where 'a = 64] by simp
  have rhs: "encoded k (v @ x) (drop (length x) rest) =
      le_enc 8 (length k) @ le_enc 8 (length k + length v + length x) @ k @ v @ x @ drop (length x) rest"
    by (simp add: encoded_def add.assoc)
  show ?thesis
    using assms lens
    by (simp add: add_value_def Let_def read_size_encoded [OF fit] unat_size_of mem_simps w kv
        write_u64_def sum rhs
        mem_write_append [where xs = "le_enc 8 (length k)"])
qed

lemma add_key_overflow:
  assumes "length x > length rest" and "fits k v" and "length x < 2 ^ 64" and "v = []"
  shows "add_key 1 (encoded k v rest) x (size_of x) = None"
  using assms
  by (simp add: add_key_def mem_simps unat_size_of mem_write_def)

lemma add_value_overflow:
  assumes "length x > length rest" and "fits k v" and "length x < 2 ^ 64"
  shows "add_value 1 (encoded k v rest) x (size_of x) = None"
proof -
  have kv: "unat (of_nat (length k) + of_nat (length v) :: u64) = length k + length v"
    using assms unat_of_nat_eq [of "length k + length v", where 'a = 64] by simp
  show ?thesis
    using assms by (simp add: add_value_def mem_simps unat_size_of mem_write_def kv)
qed

lemma add_key_lamport [simp]:
  "add_key 8 m (lamport_bytes l) 1 = add_key 1 m (lamport_bytes l) (size_of (lamport_bytes l))"
  by (simp add: add_key_def)

section \<open>The builder interface\<close>

text \<open>
  What the protocol relies on: \<open>rep b k v free\<close> says that the builder \<open>b\<close> holds key \<open>k\<close> and value
  \<open>v\<close> and has room for \<open>free\<close> more bytes; \<open>full k v\<close> is the finished message without spare room.
\<close>

locale message_builder =
  fixes new :: "u64 \<Rightarrow> 'b option"
    and addk :: "'b \<Rightarrow> bytes \<Rightarrow> 'b option"
    and addv :: "'b \<Rightarrow> bytes \<Rightarrow> 'b option"
    and rep :: "'b \<Rightarrow> bytes \<Rightarrow> bytes \<Rightarrow> nat \<Rightarrow> bool"
    and full :: "bytes \<Rightarrow> bytes \<Rightarrow> 'b"
  assumes rep_new: "unat n + 16 < 2 ^ 64 \<Longrightarrow> \<exists>b. new n = Some b \<and> rep b [] [] (unat n)"
    and rep_addk: "rep b k [] free \<Longrightarrow> length x \<le> free \<Longrightarrow>
      \<exists>b'. addk b x = Some b' \<and> rep b' (k @ x) [] (free - length x)"
    and rep_addv: "rep b k v free \<Longrightarrow> length x \<le> free \<Longrightarrow>
      \<exists>b'. addv b x = Some b' \<and> rep b' k (v @ x) (free - length x)"
    and rep_full: "rep b k v 0 \<Longrightarrow> b = full k v"
begin

lemma build_key:
  assumes "length k + 16 < 2 ^ 64"
  shows "Option.bind (new (size_of k)) (\<lambda>b. addk b k) = Some (full k [])"
proof -
  have n: "unat (size_of k) = length k" using assms by (simp add: unat_of_nat_eq)
  obtain b where b: "new (size_of k) = Some b" "rep b [] [] (length k)"
    using rep_new [of "size_of k"] assms n by auto
  obtain b' where b': "addk b k = Some b'" "rep b' k [] 0"
    using rep_addk [OF b(2), of k] by auto
  show ?thesis using b(1) b'(1) rep_full [OF b'(2)] by simp
qed

lemma build_key2_value:
  assumes "length k + length c + length v + 16 < 2 ^ 64" and "n = of_nat (length k + length c + length v)"
  shows "Option.bind (new n) (\<lambda>b. Option.bind (addk b k) (\<lambda>b. Option.bind (addk b c) (\<lambda>b. addv b v))) =
    Some (full (k @ c) v)"
proof -
  have n: "unat n = length k + length c + length v"
    using assms unat_of_nat_eq [of "length k + length c + length v", where 'a = 64] by simp
  obtain b0 where b0: "new n = Some b0" "rep b0 [] [] (length k + length c + length v)"
    using rep_new [of n] assms n by auto
  obtain b1 where b1: "addk b0 k = Some b1" "rep b1 k [] (length c + length v)"
    using rep_addk [OF b0(2), of k] by auto
  obtain b2 where b2: "addk b1 c = Some b2" "rep b2 (k @ c) [] (length v)"
    using rep_addk [OF b1(2), of c] by auto
  obtain b3 where b3: "addv b2 v = Some b3" "rep b3 (k @ c) v 0"
    using rep_addv [OF b2(2), of v] by auto
  show ?thesis using b0(1) b1(1) b2(1) b3(1) rep_full [OF b3(2)] by simp
qed

lemma build_key2:
  assumes "length k + length c + 16 < 2 ^ 64" and "n = of_nat (length k + length c)"
  shows "Option.bind (new n) (\<lambda>b. Option.bind (addk b k) (\<lambda>b. addk b c)) = Some (full (k @ c) [])"
proof -
  have n: "unat n = length k + length c"
    using assms unat_of_nat_eq [of "length k + length c", where 'a = 64] by simp
  obtain b0 where b0: "new n = Some b0" "rep b0 [] [] (length k + length c)"
    using rep_new [of n] assms n by auto
  obtain b1 where b1: "addk b0 k = Some b1" "rep b1 k [] (length c)"
    using rep_addk [OF b0(2), of k] by auto
  obtain b2 where b2: "addk b1 c = Some b2" "rep b2 (k @ c) [] 0"
    using rep_addk [OF b1(2), of c] by auto
  show ?thesis using b0(1) b1(1) b2(1) rep_full [OF b2(2)] by simp
qed

end

definition builder_rep :: "msg \<Rightarrow> bytes \<Rightarrow> bytes \<Rightarrow> nat \<Rightarrow> bool" where
  "builder_rep m k v free \<longleftrightarrow>
     length m = 16 + length k + length v + free \<and> length m < 2 ^ 64 \<and>
     take (16 + length k + length v) m = encoded k v []"

lemma builder_rep_encoded:
  "builder_rep m k v free \<longleftrightarrow>
     (\<exists>rest. m = encoded k v rest \<and> length rest = free \<and> 16 + length k + length v + free < 2 ^ 64)"
proof
  assume rep: "builder_rep m k v free"
  then have "m = encoded k v [] @ drop (16 + length k + length v) m"
    by (metis append_take_drop_id builder_rep_def)
  then have "m = encoded k v (drop (16 + length k + length v) m)"
    by (simp add: encoded_def)
  with rep show "\<exists>rest. m = encoded k v rest \<and> length rest = free \<and>
      16 + length k + length v + free < 2 ^ 64"
    by (auto simp: builder_rep_def)
next
  assume "\<exists>rest. m = encoded k v rest \<and> length rest = free \<and> 16 + length k + length v + free < 2 ^ 64"
  then show "builder_rep m k v free"
    by (auto simp: builder_rep_def) (simp add: encoded_def)
qed

lemma builder_repE:
  assumes "builder_rep m k v free"
  obtains rest where "m = encoded k v rest" "length rest = free" "16 + length k + length v + free < 2 ^ 64"
  using assms by (auto simp: builder_rep_encoded)

lemma builder_repI:
  "16 + length k + length v + length rest < 2 ^ 64 \<Longrightarrow> n = length rest \<Longrightarrow>
   builder_rep (encoded k v rest) k v n"
  by (auto simp: builder_rep_encoded)

interpretation mb: message_builder builder_new
  "\<lambda>b x. add_key 1 b x (size_of x)" "\<lambda>b x. add_value 1 b x (size_of x)"
  builder_rep "\<lambda>k v. encoded k v []"
proof unfold_locales
  fix n :: u64
  assume "unat n + 16 < 2 ^ 64"
  then show "\<exists>b. builder_new n = Some b \<and> builder_rep b [] [] (unat n)"
    by (auto simp: builder_new_encoded builder_rep_encoded)
next
  fix b k x :: bytes and free
  assume "builder_rep b k [] free" and x: "length x \<le> free"
  then show "\<exists>b'. add_key 1 b x (size_of x) = Some b' \<and> builder_rep b' (k @ x) [] (free - length x)"
    by (elim builder_repE) (simp add: add_key_encoded builder_repI)
next
  fix b k v x :: bytes and free
  assume "builder_rep b k v free" and x: "length x \<le> free"
  then show "\<exists>b'. add_value 1 b x (size_of x) = Some b' \<and> builder_rep b' k (v @ x) (free - length x)"
    by (elim builder_repE) (simp add: add_value_encoded builder_repI)
next
  fix b k v :: bytes
  assume "builder_rep b k v 0"
  then show "b = encoded k v []" by (auto simp: builder_rep_encoded)
qed

section \<open>Properties\<close>

text \<open>
  C22. Round trip of the wire format: a builder of the right capacity that gets the two parts of a key
  and a value yields a message from which the accessors return exactly that key and value, and whose
  encoded size is the header plus the payload.
\<close>

theorem message_roundtrip:
  assumes "length k + length c + length v + 16 < 2 ^ 64"
  shows "\<exists>m. do {
      b \<leftarrow> builder_new (of_nat (length k + length c + length v));
      b \<leftarrow> add_key 1 b k (size_of k);
      b \<leftarrow> add_key 1 b c (size_of c);
      add_value 1 b v (size_of v)
    } = Some m \<and>
    Option.bind (get_key m) span_bytes = Some (k @ c) \<and>
    Option.bind (get_value m) span_bytes = Some v \<and>
    has_value m = Some (v \<noteq> []) \<and>
    get_value_size m = Some (size_of v) \<and>
    map_option adjust_size (get_size m) = Some (size_of m)"
proof -
  let ?m = "encoded (k @ c) v []"
  have fit: "fits (k @ c) v" using assms by simp
  have v: "length v < 2 ^ 64" and kc: "length (k @ c) < 2 ^ 64" using assms by simp_all
  have "do {
      b \<leftarrow> builder_new (of_nat (length k + length c + length v));
      b \<leftarrow> add_key 1 b k (size_of k);
      b \<leftarrow> add_key 1 b c (size_of c);
      add_value 1 b v (size_of v)
    } = Some ?m"
    using assms by (intro mb.build_key2_value) simp_all
  moreover have "Option.bind (get_key ?m) span_bytes = Some (k @ c)"
    using get_key_encoded [OF fit, of "[]"] span_bytes_prefix [OF kc, of v] by (simp del: length_append)
  moreover have "Option.bind (get_value ?m) span_bytes = Some v"
    using get_value_encoded [OF fit, of "[]"] span_bytes_prefix [OF v, of "[]"]
    by (simp add: span_bytes_empty)
  moreover have "map_option adjust_size (get_size ?m) = Some (size_of ?m)"
    using read_size_encoded [OF fit, of "[]"] by (simp add: adjust_size_def add_ac)
  ultimately show ?thesis
    using has_value_encoded [OF fit, of "[]"] get_value_size_encoded [OF fit, of "[]"] by blast
qed

theorem message_roundtrip_witness:
  "\<exists>m. do {
      b \<leftarrow> builder_new (of_nat (length [1 :: u8, 2] + length [3 :: u8] + length [4 :: u8]));
      b \<leftarrow> add_key 1 b [1, 2] (size_of [1 :: u8, 2]);
      b \<leftarrow> add_key 1 b [3] (size_of [3 :: u8]);
      add_value 1 b [4] (size_of [4 :: u8])
    } = Some m \<and> Option.bind (get_key m) span_bytes = Some [1, 2, 3] \<and>
    Option.bind (get_value m) span_bytes = Some [4]"
  using message_roundtrip [of "[1, 2]" "[3]" "[4]"] by auto

text \<open>
  The builder never checks its capacity: an addition beyond the \<open>max_size\<close> of the constructor is an
  access outside the allocation, for keys and for values alike, and every addition within it succeeds.
\<close>

lemma builder_capacity:
  assumes "length k + length x + unat n + 16 < 2 ^ 64" "length k \<le> unat n"
  shows "\<exists>b. Option.bind (builder_new n) (\<lambda>b. add_key 1 b k (size_of k)) = Some b \<and>
    (add_key 1 b x (size_of x) = None \<longleftrightarrow> unat n < length k + length x) \<and>
    (add_value 1 b x (size_of x) = None \<longleftrightarrow> unat n < length k + length x)"
proof -
  let ?rest = "drop (length k) (replicate (unat n) (0 :: u8))"
  let ?b = "encoded k [] ?rest"
  have "builder_new n = Some (encoded [] [] (replicate (unat n) 0))"
    using assms by (intro builder_new_encoded) simp
  moreover have "add_key 1 (encoded [] [] (replicate (unat n) 0)) k (size_of k) = Some (encoded ([] @ k) [] ?rest)"
    using assms by (intro add_key_encoded) simp_all
  ultimately have new: "Option.bind (builder_new n) (\<lambda>b. add_key 1 b k (size_of k)) = Some ?b" by simp
  show ?thesis
  proof (cases "unat n < length k + length x")
    case True
    then have "add_key 1 ?b x (size_of x) = None" "add_value 1 ?b x (size_of x) = None"
      using assms by (auto intro!: add_key_overflow add_value_overflow)
    with True new show ?thesis by (intro exI [of _ ?b]) (simp only: simp_thms)
  next
    case False
    then have "add_key 1 ?b x (size_of x) \<noteq> None" "add_value 1 ?b x (size_of x) \<noteq> None"
      using assms add_key_encoded [of x ?rest k] add_value_encoded [of x ?rest k "[]"] by simp_all
    with False new show ?thesis by (intro exI [of _ ?b]) (simp only: simp_thms)
  qed
qed

lemma builder_capacity_example:
  "\<exists>b. Option.bind (builder_new 1) (\<lambda>b. add_key 1 b [1] (size_of [1 :: u8])) = Some b \<and>
     add_value 1 b [2] (size_of [2 :: u8]) = None"
  using builder_capacity [of "[1]" "[2]" 1] by auto

end
