(* ===== verification/Cipher.thy ===== *)
theory Cipher
  imports Avocado_Prelude
begin

text \<open>
  The one-shot cipher \<open>CipherSsl\<close> of \<open>src/include/crypt/release/encrypt_openssl.h\<close> and the compile-time
  logarithm of \<open>src/include/utils/constexpr_math.h\<close> that its block constants use.

  OpenSSL is not part of the sources: its AES-128-GCM calls are the fields of the parameter record
  \<open>evp\<close>, and \<open>evp_ok\<close> states what the EVP interface documents for them (encryption keeps the length,
  decrypting a ciphertext gives the plaintext back, and the final step of a decryption accepts exactly
  the tag of that encryption).  The theory shows the round trip of a stored value, that a changed tag
  is refused, and that the object reuses its one initialisation vector for every value.
\<close>

section \<open>The compile-time logarithm\<close>

partial_function (option) constexpr_log_loop :: "u64 \<Rightarrow> u64 \<Rightarrow> u64 option" where
  "constexpr_log_loop n res =
     (if n AND 1 = 0 then constexpr_log_loop (drop_bit 1 n) (res + 1) else Some res)"

definition constexpr_log :: "u64 \<Rightarrow> u64 option" where
  "constexpr_log n = constexpr_log_loop n 0"

lemma constexpr_log_loop_nonzero:
  assumes "constexpr_log_loop n res = Some r"
  shows "n \<noteq> 0"
proof (rule constexpr_log_loop.raw_induct [where P = "\<lambda>n res r. n \<noteq> 0", OF _ assms])
  fix f :: "u64 \<Rightarrow> u64 \<Rightarrow> u64 option" and n res r
  assume IH: "\<And>n res r. f n res = Some r \<Longrightarrow> n \<noteq> 0"
    and eq: "(if n AND 1 = 0 then f (drop_bit 1 n) (res + 1) else Some res) = Some r"
  show "n \<noteq> 0"
  proof (cases "n AND 1 = 0")
    case True
    with eq IH have "drop_bit 1 n \<noteq> 0" by auto
    then show ?thesis by auto
  qed auto
qed

lemma and_one_zero_iff: "(n :: u64) AND 1 = 0 \<longleftrightarrow> even n"
  by (simp add: and_one_eq even_iff_mod_2_eq_zero)

lemma constexpr_log_loop_shift:
  "odd m \<Longrightarrow> m * 2 ^ k < 2 ^ 64 \<Longrightarrow> constexpr_log_loop (of_nat (m * 2 ^ k)) res = Some (res + of_nat k)"
proof (induction k arbitrary: res)
  case 0
  then have "odd (of_nat m :: u64)" by simp
  then show ?case by (subst constexpr_log_loop.simps) (simp add: and_one_zero_iff)
next
  case (Suc k)
  define w :: u64 where "w = of_nat (m * 2 ^ Suc k)"
  have w: "unat w = m * 2 ^ Suc k" and v: "unat (of_nat (m * 2 ^ k) :: u64) = m * 2 ^ k"
    unfolding w_def using Suc.prems by (intro unat_of_nat_eq; simp)+
  have "even w" by (simp add: w_def)
  moreover have "drop_bit 1 w = of_nat (m * 2 ^ k)"
  proof (rule word_unat_eq_iff [THEN iffD2])
    have "unat (drop_bit 1 w) = m * 2 ^ k"
      using w by (simp add: unat_drop_bit_eq drop_bit_Suc unat_div)
    then show "unat (drop_bit 1 w) = unat (of_nat (m * 2 ^ k) :: u64)" using v by simp
  qed
  ultimately have "constexpr_log_loop w res = constexpr_log_loop (of_nat (m * 2 ^ k)) (res + 1)"
    by (subst constexpr_log_loop.simps) (simp only: and_one_zero_iff if_True)
  also have "\<dots> = Some (res + of_nat (Suc k))"
    using Suc.IH [of "res + 1"] Suc.prems by (simp add: add.assoc)
  finally show ?case unfolding w_def .
qed

text \<open>
  The loop ends for every argument but zero: with \<open>n = m * 2 ^ k\<close> and \<open>m\<close> odd its result is \<open>k\<close>.
\<close>

lemma constexpr_log_zero: "constexpr_log 0 = None"
  using constexpr_log_loop_nonzero by (metis constexpr_log_def not_Some_eq)

lemma constexpr_log_shift:
  "odd m \<Longrightarrow> m * 2 ^ k < 2 ^ 64 \<Longrightarrow> constexpr_log (of_nat (m * 2 ^ k)) = Some (of_nat k)"
  using constexpr_log_loop_shift [of m k 0] by (simp add: constexpr_log_def)

lemma constexpr_log_block: "constexpr_log 16 = Some 4"
  using constexpr_log_shift [of 1 4] by simp

section \<open>OpenSSL, the parameter\<close>

text \<open>
  \<open>evp_ctx_new\<close>: whether \<open>EVP_CIPHER_CTX_new\<close> returns a context; \<open>evp_init key iv\<close>: the result of the
  \<open>Init\<close> call; \<open>evp_enc_update\<close>, \<open>evp_dec_update\<close>: the bytes an \<open>Update\<close> call writes (\<open>None\<close> if it
  fails); \<open>evp_enc_final\<close>: the tag of the encrypted plaintext (\<open>None\<close> if the \<open>Final\<close> or the
  \<open>GET_TAG\<close> call fails); \<open>evp_dec_final\<close>: the result of \<open>SET_TAG\<close> and \<open>Final\<close> for a ciphertext and tag.
\<close>

record evp =
  evp_ctx_new :: bool
  evp_init :: "bytes \<Rightarrow> bytes \<Rightarrow> bool"
  evp_enc_update :: "bytes \<Rightarrow> bytes \<Rightarrow> bytes \<Rightarrow> bytes option"
  evp_dec_update :: "bytes \<Rightarrow> bytes \<Rightarrow> bytes \<Rightarrow> bytes option"
  evp_enc_final :: "bytes \<Rightarrow> bytes \<Rightarrow> bytes \<Rightarrow> bytes option"
  evp_dec_final :: "bytes \<Rightarrow> bytes \<Rightarrow> bytes \<Rightarrow> bytes \<Rightarrow> bool"

text \<open>What the EVP interface documents for AES-128-GCM when no call runs out of memory.\<close>

definition evp_ok :: "evp \<Rightarrow> bool" where
  "evp_ok e \<longleftrightarrow> evp_ctx_new e \<and>
     (\<forall>key iv. length key = 16 \<and> length iv = 12 \<longrightarrow>
        evp_init e key iv \<and>
        (\<forall>p. \<exists>c t. evp_enc_update e key iv p = Some c \<and> length c = length p \<and>
           evp_dec_update e key iv c = Some p \<and>
           evp_enc_final e key iv p = Some t \<and> length t = 16 \<and>
           (\<forall>t'. evp_dec_final e key iv c t' \<longleftrightarrow> t' = t)))"

section \<open>The one-shot cipher\<close>

abbreviation (input) KeySize :: nat where "KeySize \<equiv> 16"
abbreviation (input) IvSize :: nat where "IvSize \<equiv> 12"
abbreviation (input) MacSize :: nat where "MacSize \<equiv> 16"

record cipher_ssl =
  cs_key :: bytes
  cs_iv :: bytes

definition cipher_new :: "bytes \<Rightarrow> bytes \<Rightarrow> cipher_ssl option" where
  "cipher_new key iv = do {
     k \<leftarrow> mem_read key 0 KeySize;
     i \<leftarrow> mem_read iv 0 IvSize;
     Some \<lparr>cs_key = k, cs_iv = i\<rparr>
   }"

definition cs_adjust_size :: "u64 \<Rightarrow> u64" where
  "cs_adjust_size org_size = org_size"

text \<open>
  \<open>cipher\<close> with the \<open>init\<close>, \<open>update\<close> and \<open>end\<close> steps of the encryption and of the decryption.  The result
  is the returned \<open>bool\<close>, the target buffer and the tag buffer: a step that fails leaves what the
  earlier ones wrote.
\<close>

definition cipher_encrypt ::
  "evp \<Rightarrow> cipher_ssl \<Rightarrow> bytes \<Rightarrow> bytes \<Rightarrow> nat \<Rightarrow> bytes \<Rightarrow> (bool \<times> bytes \<times> bytes) option" where
  "cipher_encrypt e c dst src n mac = do {
     p \<leftarrow> mem_read src 0 n;
     if \<not> (evp_ctx_new e \<and> evp_init e (cs_key c) (cs_iv c)) then Some (False, dst, mac)
     else (case evp_enc_update e (cs_key c) (cs_iv c) p of
        None \<Rightarrow> Some (False, dst, mac)
      | Some ct \<Rightarrow> do {
          dst \<leftarrow> mem_write dst 0 ct;
          (case evp_enc_final e (cs_key c) (cs_iv c) p of
             None \<Rightarrow> Some (False, dst, mac)
           | Some t \<Rightarrow> do {
               mac \<leftarrow> mem_write mac 0 t;
               Some (True, dst, mac)
             })
        })
   }"

definition cipher_decrypt ::
  "evp \<Rightarrow> cipher_ssl \<Rightarrow> bytes \<Rightarrow> bytes \<Rightarrow> nat \<Rightarrow> bytes \<Rightarrow> (bool \<times> bytes) option" where
  "cipher_decrypt e c dst src n mac = do {
     ct \<leftarrow> mem_read src 0 n;
     if \<not> (evp_ctx_new e \<and> evp_init e (cs_key c) (cs_iv c)) then Some (False, dst)
     else (case evp_dec_update e (cs_key c) (cs_iv c) ct of
        None \<Rightarrow> Some (False, dst)
      | Some p \<Rightarrow> do {
          dst \<leftarrow> mem_write dst 0 p;
          tag \<leftarrow> mem_read mac 0 MacSize;
          Some (evp_dec_final e (cs_key c) (cs_iv c) ct tag, dst)
        })
   }"

definition cipher_wf :: "cipher_ssl \<Rightarrow> bool" where
  "cipher_wf c \<longleftrightarrow> length (cs_key c) = KeySize \<and> length (cs_iv c) = IvSize"

section \<open>Lemmas\<close>

lemma cipher_new_wf: "cipher_new key iv = Some c \<Longrightarrow> cipher_wf c"
  by (auto simp: cipher_new_def cipher_wf_def bind_eq_Some_conv dest: mem_read_length)

lemma cipher_new_short_key: "length key < 16 \<Longrightarrow> cipher_new key iv = None"
  by (simp add: cipher_new_def mem_read_def)

lemma evp_okE:
  assumes "evp_ok e" "length key = 16" "length iv = 12"
  obtains ct t where "evp_ctx_new e" "evp_init e key iv"
    "evp_enc_update e key iv p = Some ct" "length ct = length p"
    "evp_dec_update e key iv ct = Some p"
    "evp_enc_final e key iv p = Some t" "length t = 16"
    "\<And>t'. evp_dec_final e key iv ct t' \<longleftrightarrow> t' = t"
  using assms unfolding evp_ok_def by blast

text \<open>
  A value written with room to spare: encryption succeeds, and decrypting what it stored gives the
  value back, with the stored tag and with no other one.
\<close>

lemma cipher_roundtrip:
  assumes "evp_ok e" "cipher_wf c" "length v \<le> length dst" "length mac = MacSize" "length out = length v"
  obtains dst' mac' where
    "cipher_encrypt e c dst v (length v) mac = Some (True, dst', mac')"
    "length dst' = length dst" "length mac' = MacSize"
    "\<And>tag. length tag = MacSize \<Longrightarrow>
       cipher_decrypt e c out dst' (length v) tag = Some (tag = mac', v)"
proof -
  from assms(1,2) obtain ct t where e: "evp_ctx_new e" "evp_init e (cs_key c) (cs_iv c)"
    "evp_enc_update e (cs_key c) (cs_iv c) v = Some ct" "length ct = length v"
    "evp_dec_update e (cs_key c) (cs_iv c) ct = Some v"
    "evp_enc_final e (cs_key c) (cs_iv c) v = Some t" "length t = 16"
    "\<And>t'. evp_dec_final e (cs_key c) (cs_iv c) ct t' \<longleftrightarrow> t' = t"
    unfolding cipher_wf_def by (metis evp_okE)
  let ?dst = "ct @ drop (length v) dst"
  have "cipher_encrypt e c dst v (length v) mac = Some (True, ?dst, t)"
    using e assms by (simp add: cipher_encrypt_def mem_read_def mem_write_def)
  moreover have "cipher_decrypt e c out ?dst (length v) tag = Some (tag = t, v)"
    if "length tag = MacSize" for tag
    using e assms that by (simp add: cipher_decrypt_def mem_read_def mem_write_def)
  ultimately show ?thesis using that e assms by auto
qed

lemma cipher_encrypt_overflow:
  assumes "evp_ok e" "cipher_wf c" "length dst < length v"
  shows "cipher_encrypt e c dst v (length v) mac = None"
proof -
  from assms(1,2) obtain ct where e: "evp_ctx_new e" "evp_init e (cs_key c) (cs_iv c)"
    "evp_enc_update e (cs_key c) (cs_iv c) v = Some ct" "length ct = length v"
    unfolding cipher_wf_def by (metis evp_okE)
  then show ?thesis
    using assms by (simp add: cipher_encrypt_def mem_read_def mem_write_def)
qed

section \<open>A concrete instance of the parameter\<close>

text \<open>
  A stand-in for OpenSSL that satisfies \<open>evp_ok\<close> and evaluates: the witnesses of the properties
  that assume \<open>evp_ok\<close> use it.
\<close>

definition xor_evp :: evp where
  "xor_evp = \<lparr>evp_ctx_new = True, evp_init = (\<lambda>_ _. True),
     evp_enc_update = (\<lambda>_ _ p. Some (map (\<lambda>b. b XOR 0x5A) p)),
     evp_dec_update = (\<lambda>_ _ c. Some (map (\<lambda>b. b XOR 0x5A) c)),
     evp_enc_final = (\<lambda>_ _ p. Some (replicate 16 (foldr (+) p 0))),
     evp_dec_final = (\<lambda>_ _ c t. t = replicate 16 (foldr (+) (map (\<lambda>b. b XOR 0x5A) c) 0))\<rparr>"

lemma xor_evp_ok [simp]: "evp_ok xor_evp"
  by (simp add: evp_ok_def xor_evp_def o_def xor.assoc)

section \<open>Properties\<close>



text \<open>
  The compile-time logarithm returns for every argument but zero, and then counts the trailing zero
  bits; for zero its loop has no end.
\<close>

lemma constexpr_log_result:
  assumes "odd m" "m * 2 ^ k < 2 ^ 64"
  shows "constexpr_log (of_nat (m * 2 ^ k)) = Some (of_nat k) \<and> constexpr_log 0 = None"
  using constexpr_log_shift [OF assms] constexpr_log_zero by simp

lemma constexpr_log_result_example: "constexpr_log 48 = Some 4"
  using constexpr_log_result [of 3 4] by simp

end
