(* ===== verification/Packet.thy ===== *)
theory Packet
  imports Cipher
begin

text \<open>
  Packet encryption: \<open>compare_exchange_128\<close> of \<open>src/include/utils/utility.h\<close> and \<open>KeyIV\<close> and \<open>PacketSsl\<close> of
  \<open>src/include/crypt/release/encrypt_package.h\<close>, with the size helpers of
  \<open>src/include/protocol/abd/crypt_context.h\<close>.  An encrypted buffer is the 12-byte initialisation vector,
  the ciphertext and the 16-byte tag.

  What the code reads before it is written (the bytes of a fresh packet buffer, of the local arrays
  \<open>raw\<close> and \<open>iv\<close>) is an argument, \<open>iv_garbage\<close>, as is what other threads store into the shared vector
  between two attempts of the exchange.

  The theory shows that \<open>inc\<close> adds to a 96-bit little-endian integer, what vector a packet really
  gets, that decryption inverts encryption for every vector and rejects every other tag, and where the
  parts of a packet lie.
\<close>

section \<open>The shared initialisation vector\<close>

text \<open>\<open>lock cmpxchg16b\<close>: the flag, the 16 bytes of memory and the 16 bytes of \<open>old\<close> afterwards.\<close>

definition compare_exchange_128 :: "bytes \<Rightarrow> bytes \<Rightarrow> bytes \<Rightarrow> bool \<times> bytes \<times> bytes" where
  "compare_exchange_128 dst src old =
     (if dst = old then (True, src, old) else (False, dst, dst))"

record key_iv =
  ki_key :: bytes
  ki_iv :: bytes

text \<open>The constructor sets 12 of the 16 bytes; \<open>rest\<close> are the four that stay as they were.\<close>

definition key_iv_new :: "bytes \<Rightarrow> bytes \<Rightarrow> bytes \<Rightarrow> key_iv option" where
  "key_iv_new key iv rest = do {
     k \<leftarrow> mem_read key 0 16;
     i \<leftarrow> mem_read iv 0 12;
     Some \<lparr>ki_key = k, ki_iv = i @ rest\<rparr>
   }"

definition packet_create :: "bytes \<Rightarrow> bytes \<Rightarrow> bytes \<Rightarrow> key_iv option" where
  "packet_create key iv rest = key_iv_new key iv rest"

definition packet_of_cipher :: "cipher_ssl \<Rightarrow> bytes \<Rightarrow> key_iv option" where
  "packet_of_cipher c rest = key_iv_new (cs_key c) (cs_iv c) rest"

text \<open>
  \<open>add\<close> on the 64-bit half, \<open>adc $0\<close> on the 32-bit half: \<open>dst\<close> gets the first twelve bytes of \<open>src\<close> plus
  \<open>a\<close>, and keeps its other bytes.
\<close>

definition iv_inc :: "bytes \<Rightarrow> bytes \<Rightarrow> u64 \<Rightarrow> bytes" where
  "iv_inc dst src a =
     (let low = of_nat (le_val (take 8 src)) :: u64;
          high = of_nat (le_val (take 4 (drop 8 src))) :: u32;
          low' = low + a;
          carry = (if low' < low then 1 else 0)
      in le_enc 8 (unat low') @ le_enc 4 (unat (high + carry)) @ drop 12 dst)"

text \<open>
  In the source a block with the increment stands before \<open>while (!compare_exchange_128(iv, raw, dst));\<close>,
  so the increment runs once and the loop has an empty body.  The list has what other threads store
  before each attempt; after it the loop runs alone and ends at the next or the second next attempt.
\<close>

fun iv_loop :: "bytes \<Rightarrow> bytes \<Rightarrow> bytes \<Rightarrow> bytes option list \<Rightarrow> bytes \<times> bytes" where
  "iv_loop iv raw dst [] =
     (case compare_exchange_128 iv raw dst of
        (True, iv', dst') \<Rightarrow> (iv', dst')
      | (False, iv', dst') \<Rightarrow>
          (case compare_exchange_128 iv' raw dst' of (_, iv'', dst'') \<Rightarrow> (iv'', dst'')))"
| "iv_loop iv raw dst (a # as) =
     (case compare_exchange_128 (case a of None \<Rightarrow> iv | Some x \<Rightarrow> x) raw dst of
        (True, iv', dst') \<Rightarrow> (iv', dst')
      | (False, iv', dst') \<Rightarrow> iv_loop iv' raw dst' as)"

record iv_garbage =
  ig_aligned :: bool
  ig_local :: bytes
  ig_raw :: bytes
  ig_others :: "bytes option list"

definition get_packet_iv_aligned :: "key_iv \<Rightarrow> iv_garbage \<Rightarrow> bytes \<Rightarrow> key_iv \<times> bytes" where
  "get_packet_iv_aligned ki g dst =
     (let raw = iv_inc (ig_raw g) dst 1;
          (iv', dst') = iv_loop (ki_iv ki) raw dst (ig_others g)
      in (ki\<lparr>ki_iv := iv'\<rparr>, dst'))"

definition get_packet_iv :: "key_iv \<Rightarrow> iv_garbage \<Rightarrow> bytes \<Rightarrow> key_iv \<times> bytes" where
  "get_packet_iv ki g dst =
     (if ig_aligned g then get_packet_iv_aligned ki g dst
      else get_packet_iv_aligned ki g (ig_local g))"

section \<open>Packets\<close>

definition MetaDataSize :: u64 where
  "MetaDataSize = 28"

definition get_buffer_size :: "u64 \<Rightarrow> u64" where
  "get_buffer_size msg_sz = msg_sz + MetaDataSize"

definition get_message_size :: "u64 \<Rightarrow> u64 option" where
  "get_message_size buf_sz = do {
     _ \<leftarrow> assert_that (buf_sz > MetaDataSize);
     Some (buf_sz - MetaDataSize)
   }"

text \<open>
  \<open>cipher<ENCRYPT>\<close>: the vector is written as 16 bytes at the start of the target, the ciphertext at
  offset 12 overwrites the last four of them, the tag follows the ciphertext.
\<close>

definition packet_encrypt ::
  "evp \<Rightarrow> key_iv \<Rightarrow> iv_garbage \<Rightarrow> bytes \<Rightarrow> bytes \<Rightarrow> u64 \<Rightarrow> (bool \<times> key_iv \<times> bytes) option" where
  "packet_encrypt e ki g dst src sz = do {
     old \<leftarrow> mem_read dst 0 16;
     let (ki, iv16) = get_packet_iv ki g old;
     dst \<leftarrow> mem_write dst 0 iv16;
     iv \<leftarrow> mem_read dst 0 IvSize;
     if \<not> (evp_ctx_new e \<and> evp_init e (ki_key ki) iv) then Some (False, ki, dst)
     else do {
       p \<leftarrow> mem_read src 0 (unat sz);
       (case evp_enc_update e (ki_key ki) iv p of
          None \<Rightarrow> Some (False, ki, dst)
        | Some ct \<Rightarrow> do {
            dst \<leftarrow> mem_write dst IvSize ct;
            (case evp_enc_final e (ki_key ki) iv p of
               None \<Rightarrow> Some (False, ki, dst)
             | Some t \<Rightarrow> do {
                 dst \<leftarrow> mem_write dst (IvSize + unat sz) t;
                 Some (True, ki, dst)
               })
          })
     }
   }"

text \<open>\<open>cipher<DECRYPT>\<close>: the plaintext is written before the tag is checked.\<close>

definition packet_decrypt ::
  "evp \<Rightarrow> key_iv \<Rightarrow> bytes \<Rightarrow> bytes \<Rightarrow> u64 \<Rightarrow> (bool \<times> bytes) option" where
  "packet_decrypt e ki dst src buf_sz = do {
     sz \<leftarrow> get_message_size buf_sz;
     iv \<leftarrow> mem_read src 0 IvSize;
     if \<not> (evp_ctx_new e \<and> evp_init e (ki_key ki) iv) then Some (False, dst)
     else do {
       ct \<leftarrow> mem_read src IvSize (unat sz);
       (case evp_dec_update e (ki_key ki) iv ct of
          None \<Rightarrow> Some (False, dst)
        | Some p \<Rightarrow> do {
            dst \<leftarrow> mem_write dst 0 p;
            mac \<leftarrow> mem_read src (IvSize + unat sz) MacSize;
            Some (evp_dec_final e (ki_key ki) iv ct mac, dst)
          })
     }
   }"

datatype packet_func = DECRYPT | ENCRYPT

text \<open>The dispatch on the run-time parameter \<open>func\<close>.\<close>

definition packet_cipher ::
  "evp \<Rightarrow> key_iv \<Rightarrow> iv_garbage \<Rightarrow> bytes \<Rightarrow> bytes \<Rightarrow> u64 \<Rightarrow> packet_func \<Rightarrow> (bool \<times> key_iv \<times> bytes) option" where
  "packet_cipher e ki g dst src sz func =
     (if func = ENCRYPT then packet_encrypt e ki g dst src sz
      else map_option (\<lambda>(ok, out). (ok, ki, out)) (packet_decrypt e ki dst src sz))"

section \<open>The vector of a packet\<close>

lemma iv_loop_result:
  "\<exists>seen. iv_loop iv raw dst as = (raw, seen) \<and> seen \<in> insert iv (set (List.map_filter id as))"
proof (induction as arbitrary: iv dst)
  case Nil
  then show ?case by (auto simp: compare_exchange_128_def List.map_filter_def)
next
  case (Cons a as)
  show ?case
    using Cons [of "case a of None \<Rightarrow> iv | Some x \<Rightarrow> x" "case a of None \<Rightarrow> iv | Some x \<Rightarrow> x"]
    by (auto simp: compare_exchange_128_def List.map_filter_def split: option.splits)
qed

lemma iv_loop_alone: "iv_loop iv raw dst [] = (raw, iv)"
  by (simp add: compare_exchange_128_def)

text \<open>The content the increment starts from: the old bytes of the target or of the local array.\<close>

definition iv_source :: "iv_garbage \<Rightarrow> bytes \<Rightarrow> bytes" where
  "iv_source g dst = (if ig_aligned g then dst else ig_local g)"

lemma get_packet_iv_alone:
  assumes "ig_others g = []"
  shows "get_packet_iv ki g dst = (ki\<lparr>ki_iv := iv_inc (ig_raw g) (iv_source g dst) 1\<rparr>, ki_iv ki)"
  using assms
  by (simp add: get_packet_iv_def get_packet_iv_aligned_def iv_source_def iv_loop_alone del: iv_loop.simps)

lemma le_val_append: "le_val (xs @ ys) = le_val xs + 256 ^ length xs * le_val ys"
  by (induction xs) (auto simp: algebra_simps)

lemma take_le_enc12: "take 12 (le_enc 8 a @ le_enc 4 b @ xs) = le_enc 8 a @ le_enc 4 b"
  by simp

lemma iv_inc_val:
  assumes "length src \<ge> 12"
  shows "le_val (take 12 (iv_inc dst src a)) = (le_val (take 12 src) + unat a) mod 2 ^ 96"
proof -
  define lo where "lo = le_val (take 8 src)"
  define hi where "hi = le_val (take 4 (drop 8 src))"
  have len: "length (take 8 src) = 8" "length (take 4 (drop 8 src)) = 4" using assms by simp_all
  have lo: "lo < 2 ^ 64" and hi: "hi < 2 ^ 32"
    using le_val_bound [of "take 8 src"] le_val_bound [of "take 4 (drop 8 src)"] len
    by (simp_all add: lo_def hi_def)
  have "take 12 src = take 8 src @ take 4 (drop 8 src)" using take_add [of 8 4 src] by simp
  then have src: "le_val (take 12 src) = lo + 2 ^ 64 * hi"
    using len by (simp add: le_val_append lo_def hi_def)
  define lo' :: u64 where "lo' = of_nat lo + a"
  define c :: u32 where "c = (if lo' < of_nat lo then 1 else 0)"
  have ulo: "unat (of_nat lo :: u64) = lo" and uhi: "unat (of_nat hi :: u32) = hi"
    using lo hi by (simp_all add: unat_of_nat_eq)
  have a: "unat a < 2 ^ 64" using unat_lt2p [of a] by simp
  have lo': "unat lo' = (lo + unat a) mod 2 ^ 64"
    by (simp add: lo'_def unat_word_ariths ulo)
  have c: "unat c = (lo + unat a) div 2 ^ 64"
  proof (cases "lo + unat a < 2 ^ 64")
    case True
    then have "\<not> lo' < of_nat lo" by (simp add: word_less_nat_alt lo' ulo)
    then show ?thesis using True by (simp add: c_def)
  next
    case False
    then have "(lo + unat a) mod 2 ^ 64 = lo + unat a - 2 ^ 64" "(lo + unat a) div 2 ^ 64 = 1"
      using lo a by (simp_all add: mod_if div_if)
    then have "lo' < of_nat lo" using lo' ulo a lo by (simp add: word_less_nat_alt)
    then show ?thesis using \<open>(lo + unat a) div 2 ^ 64 = 1\<close> by (simp add: c_def)
  qed
  have hc: "unat (of_nat hi + c) = (hi + (lo + unat a) div 2 ^ 64) mod 2 ^ 32"
    by (simp add: unat_word_ariths uhi c)
  have "iv_inc dst src a = le_enc 8 (unat lo') @ le_enc 4 (unat (of_nat hi + c)) @ drop 12 dst"
    by (simp add: iv_inc_def Let_def lo_def hi_def lo'_def c_def)
  then have "le_val (take 12 (iv_inc dst src a)) = unat lo' + 2 ^ 64 * unat (of_nat hi + c)"
    using unat_u64_bound [of lo'] unat_u32_bound [of "of_nat hi + c"]
    by (simp add: le_val_append le_val_le_enc)
  also have "\<dots> = (lo + unat a + 2 ^ 64 * hi) mod 2 ^ 96"
  proof -
    have "(lo + unat a + 2 ^ 64 * hi) mod (2 ^ 64 * 2 ^ 32) =
        2 ^ 64 * (((lo + unat a + 2 ^ 64 * hi) div 2 ^ 64) mod 2 ^ 32) + (lo + unat a + 2 ^ 64 * hi) mod 2 ^ 64"
      by (rule mod_mult2_eq)
    moreover have "(lo + unat a + 2 ^ 64 * hi) div 2 ^ 64 = hi + (lo + unat a) div 2 ^ 64"
      by simp
    moreover have "(lo + unat a + 2 ^ 64 * hi) mod 2 ^ 64 = (lo + unat a) mod 2 ^ 64"
      by simp
    moreover have "(2 :: nat) ^ 64 * 2 ^ 32 = 2 ^ 96" by simp
    ultimately show ?thesis unfolding lo' hc by presburger
  qed
  finally show ?thesis by (simp add: src algebra_simps)
qed

section \<open>Round trip\<close>

definition ig_ok :: "iv_garbage \<Rightarrow> bool" where
  "ig_ok g \<longleftrightarrow> length (ig_local g) = 16 \<and> length (ig_raw g) = 16 \<and>
     (\<forall>x. Some x \<in> set (ig_others g) \<longrightarrow> length x = 16)"

definition key_iv_wf :: "key_iv \<Rightarrow> bool" where
  "key_iv_wf ki \<longleftrightarrow> length (ki_key ki) = 16 \<and> length (ki_iv ki) = 16"

lemma length_iv_inc [simp]: "length dst = 16 \<Longrightarrow> length (iv_inc dst src a) = 16"
  by (simp add: iv_inc_def Let_def)

lemma get_packet_iv_wf:
  assumes "ig_ok g" "key_iv_wf ki" "get_packet_iv ki g dst = (ki', iv)"
  shows "key_iv_wf ki'" "ki_key ki' = ki_key ki" "length iv = 16"
proof -
  obtain seen where "iv_loop (ki_iv ki) (iv_inc (ig_raw g) (iv_source g dst) 1) (iv_source g dst) (ig_others g) =
      (iv_inc (ig_raw g) (iv_source g dst) 1, seen)" "seen \<in> insert (ki_iv ki) (set (List.map_filter id (ig_others g)))"
    using iv_loop_result by blast
  with assms show "key_iv_wf ki'" "ki_key ki' = ki_key ki" "length iv = 16"
    by (auto simp: get_packet_iv_def get_packet_iv_aligned_def iv_source_def key_iv_wf_def ig_ok_def
        List.map_filter_def split: if_splits)
qed

lemma message_size_of_buffer:
  assumes "0 < unat sz" "unat sz + 28 < 2 ^ 64"
  shows "get_message_size (get_buffer_size sz) = Some sz"
proof -
  have "unat (sz + 28) = unat sz + 28" using assms unat_add_u64 [of sz 28] by simp
  then show ?thesis
    using assms by (simp add: get_message_size_def get_buffer_size_def MetaDataSize_def word_less_nat_alt)
qed

lemma message_size_too_small: "sz \<le> 28 \<Longrightarrow> get_message_size sz = None"
  by (simp add: get_message_size_def MetaDataSize_def assert_that_def)

text \<open>A sealed packet: the vector, ciphertext and tag of message \<open>m\<close>, then unused bytes.\<close>

definition sealed :: "evp \<Rightarrow> bytes \<Rightarrow> bytes \<Rightarrow> bytes \<Rightarrow> bytes \<Rightarrow> bool" where
  "sealed e key m buf rest \<longleftrightarrow>
     (\<exists>iv ct t. buf = iv @ ct @ t @ rest \<and> length iv = 12 \<and>
        evp_enc_update e key iv m = Some ct \<and> evp_enc_final e key iv m = Some t)"

lemma packet_encrypt_sealed:
  assumes e: "evp_ok e" and ki: "key_iv_wf ki" and g: "ig_ok g"
    and m: "length m + 28 < 2 ^ 64" "length dst = 28 + length m + length drest"
    and drest: "drop (28 + length m) dst = drest"
  obtains ki' buf where
    "packet_encrypt e ki g dst (m @ srest) (size_of m) = Some (True, ki', buf)"
    "key_iv_wf ki'" "ki_key ki' = ki_key ki" "length buf = length dst"
    "sealed e (ki_key ki) m buf drest"
proof -
  obtain ki' iv16 where iv: "get_packet_iv ki g (take 16 dst) = (ki', iv16)" by fastforce
  note W = get_packet_iv_wf [OF g ki iv]
  let ?iv = "take 12 iv16"
  have key: "length (ki_key ki) = 16" using ki by (simp add: key_iv_wf_def)
  have ivl: "length ?iv = 12" using W(3) by simp
  obtain ct t where E: "evp_ctx_new e" "evp_init e (ki_key ki) ?iv"
    "evp_enc_update e (ki_key ki) ?iv m = Some ct" "length ct = length m"
    "evp_enc_final e (ki_key ki) ?iv m = Some t" "length t = 16"
    using evp_okE [OF e key ivl] by metis
  have sz: "unat (size_of m) = length m" using m(1) by (simp add: unat_of_nat_eq)
  let ?buf = "?iv @ ct @ t @ drest"
  have d16: "mem_read dst 0 16 = Some (take 16 dst)" using m(2) by (simp add: mem_read_def)
  have w1: "mem_write dst 0 iv16 = Some (iv16 @ drop 16 dst)" using m(2) W(3) by (simp add: mem_write_def)
  have w2: "mem_write (iv16 @ drop 16 dst) 12 ct = Some (?iv @ ct @ drop (12 + length m) (iv16 @ drop 16 dst))"
    using m(2) W(3) E(4) by (simp add: mem_write_def)
  have tail: "drop (28 + length m) (iv16 @ drop 16 dst) = drest"
    using drest W(3) by (simp add: add.commute)
  define X where "X = drop (12 + length m) (iv16 @ drop 16 dst)"
  have X: "length X = 16 + length drest" "drop 16 X = drest"
    using m(2) W(3) tail by (simp_all add: X_def del: drop_append)
  have "mem_write ((?iv @ ct) @ take 16 X @ drop 16 X) (12 + length m) t = Some ((?iv @ ct) @ t @ drop 16 X)"
    using X(1) W(3) E(4,6) by (intro mem_write_append) simp_all
  then have w3: "mem_write (?iv @ ct @ drop (12 + length m) (iv16 @ drop 16 dst)) (12 + length m) t = Some ?buf"
    unfolding X_def [symmetric] using X(2) by (metis append_assoc append_take_drop_id)
  have r: "mem_read (iv16 @ drop 16 dst) 0 12 = Some ?iv" using W(3) m(2) by (simp add: mem_read_def)
  have "packet_encrypt e ki g dst (m @ srest) (size_of m) = Some (True, ki', ?buf)"
    by (simp add: packet_encrypt_def d16 iv w1 w2 w3 r E W(2) sz mem_simps del: drop_append)
  moreover have "length ?buf = length dst" using W(3) E(4,6) m(2) by simp
  moreover have "sealed e (ki_key ki) m ?buf drest" using E ivl unfolding sealed_def by blast
  ultimately show ?thesis using W by (intro that [of ki' ?buf])
qed

lemma packet_decrypt_sealed:
  assumes e: "evp_ok e" and key: "length (ki_key ki) = 16" and s: "sealed e (ki_key ki) m buf rest"
    and m: "0 < length m" "length m + 28 < 2 ^ 64" and out: "length m \<le> length out"
  shows "packet_decrypt e ki out buf (of_nat (28 + length m)) = Some (True, m @ drop (length m) out)"
proof -
  obtain iv ct t where B: "buf = iv @ ct @ t @ rest" "length iv = 12"
    "evp_enc_update e (ki_key ki) iv m = Some ct" "evp_enc_final e (ki_key ki) iv m = Some t"
    using s by (auto simp: sealed_def)
  have E: "evp_ctx_new e" "evp_init e (ki_key ki) iv" "evp_dec_update e (ki_key ki) iv ct = Some m"
    "length ct = length m" "length t = 16" "evp_dec_final e (ki_key ki) iv ct t"
    using evp_okE [OF e key B(2), of m] B(3,4) by (metis option.inject)+
  have sz: "unat (size_of m) = length m" using m by (simp add: unat_of_nat_eq)
  have ms: "get_message_size (of_nat (28 + length m)) = Some (size_of m)"
    using message_size_of_buffer [of "size_of m"] sz m
    by (simp add: get_buffer_size_def MetaDataSize_def add.commute)
  have r: "mem_read buf 0 12 = Some iv" "mem_read buf 12 (length m) = Some ct"
    "mem_read buf (12 + length m) 16 = Some t"
    using B(1,2) E(4,5) by (simp_all add: mem_read_def)
  show ?thesis
    using out by (simp add: packet_decrypt_def ms r E sz mem_write_def del: of_nat_add)
qed

text \<open>A packet whose tag is not the one of its ciphertext is reported, but its plaintext is written.\<close>

lemma packet_decrypt_forged:
  assumes e: "evp_ok e" and key: "length (ki_key ki) = 16"
    and enc: "evp_enc_update e (ki_key ki) iv m = Some ct" "length iv = 12"
    and tag: "length t' = 16" "evp_enc_final e (ki_key ki) iv m \<noteq> Some t'"
    and m: "0 < length m" "length m + 28 < 2 ^ 64" and out: "length m \<le> length out"
  shows "packet_decrypt e ki out (iv @ ct @ t' @ rest) (of_nat (28 + length m)) =
    Some (False, m @ drop (length m) out)"
proof -
  have E: "evp_ctx_new e" "evp_init e (ki_key ki) iv" "evp_dec_update e (ki_key ki) iv ct = Some m"
    "length ct = length m" "\<not> evp_dec_final e (ki_key ki) iv ct t'"
    using evp_okE [OF e key enc(2), of m] enc(1) tag(2) by (metis option.inject)+
  have sz: "unat (size_of m) = length m" using m by (simp add: unat_of_nat_eq)
  have ms: "get_message_size (of_nat (28 + length m)) = Some (size_of m)"
    using message_size_of_buffer [of "size_of m"] sz m
    by (simp add: get_buffer_size_def MetaDataSize_def add.commute)
  have r: "mem_read (iv @ ct @ t' @ rest) 0 12 = Some iv" "mem_read (iv @ ct @ t' @ rest) 12 (length m) = Some ct"
    "mem_read (iv @ ct @ t' @ rest) (12 + length m) 16 = Some t'"
    using enc(2) E(4) tag(1) by (simp_all add: mem_read_def)
  show ?thesis
    using out by (simp add: packet_decrypt_def ms r E sz mem_write_def del: of_nat_add)
qed

section \<open>Properties\<close>



text \<open>
  \<open>inc\<close>, an addition with carry from the 64-bit into the 32-bit half, is addition on the 96-bit
  little-endian integer in the first twelve bytes, modulo \<open>2 ^ 96\<close>, and leaves the other bytes of the
  target alone.
\<close>

lemma iv_inc_adds:
  assumes "12 \<le> length src"
  shows "le_val (take 12 (iv_inc dst src a)) = (le_val (take 12 src) + unat a) mod 2 ^ 96 \<and>
    drop 12 (iv_inc dst src a) = drop 12 dst"
  using iv_inc_val [OF assms, of dst a] by (simp add: iv_inc_def Let_def)

lemma iv_inc_adds_example:
  "le_val (take 12 (iv_inc (replicate 16 0) (replicate 8 255 @ replicate 8 0) 1)) =
     (le_val (take 12 (replicate 8 255 @ replicate 8 0)) + unat (1 :: u64)) mod 2 ^ 96"
  using iv_inc_adds [of "replicate 8 255 @ replicate 8 0" "replicate 16 0" 1] by simp

text \<open>
  C25. The vector of a packet is not unique.  The increment stands outside the exchange loop and starts
  from the old content of the target buffer, so of three packets that one thread encrypts into
  aligned buffers with equal old content, the second and the third carry the same vector.
\<close>

theorem packet_iv_repeats:
  assumes "ig_aligned g1" "ig_others g1 = []" "ig_aligned g2" "ig_others g2 = []" "ig_others g3 = []"
    and "get_packet_iv ki g1 d = (ki1, iv1)" "get_packet_iv ki1 g2 d = (ki2, iv2)"
      "get_packet_iv ki2 g3 d = (ki3, iv3)"
  shows "take 12 iv2 = take 12 iv3"
  using assms get_packet_iv_alone [of g1 ki d] get_packet_iv_alone [of g2 ki1 d] get_packet_iv_alone [of g3 ki2 d]
  by (auto simp: iv_source_def iv_inc_def Let_def)

theorem packet_iv_repeats_witness:
  "\<exists>iv1 iv2 iv3 ki1 ki2 ki3.
     get_packet_iv \<lparr>ki_key = replicate 16 1, ki_iv = replicate 16 9\<rparr>
       \<lparr>ig_aligned = True, ig_local = [], ig_raw = replicate 16 0, ig_others = []\<rparr> (replicate 16 0) = (ki1, iv1) \<and>
     get_packet_iv ki1 \<lparr>ig_aligned = True, ig_local = [], ig_raw = replicate 16 0, ig_others = []\<rparr>
       (replicate 16 0) = (ki2, iv2) \<and>
     get_packet_iv ki2 \<lparr>ig_aligned = True, ig_local = [], ig_raw = replicate 16 0, ig_others = []\<rparr>
       (replicate 16 0) = (ki3, iv3) \<and> take 12 iv2 = take 12 iv3"
proof -
  let ?g = "\<lparr>ig_aligned = True, ig_local = [], ig_raw = replicate 16 0, ig_others = []\<rparr>"
  obtain ki1 iv1 where 1: "get_packet_iv \<lparr>ki_key = replicate 16 1, ki_iv = replicate 16 9\<rparr> ?g (replicate 16 0) = (ki1, iv1)"
    by fastforce
  obtain ki2 iv2 where 2: "get_packet_iv ki1 ?g (replicate 16 0) = (ki2, iv2)" by fastforce
  obtain ki3 iv3 where 3: "get_packet_iv ki2 ?g (replicate 16 0) = (ki3, iv3)" by fastforce
  have "take 12 iv2 = take 12 iv3" by (rule packet_iv_repeats [OF _ _ _ _ _ 1 2 3]) simp_all
  with 1 2 3 show ?thesis by blast
qed

end
