(* ===== verification/Memtable.thy ===== *)
theory Memtable
  imports Cipher Lamport
begin

text \<open>
  The memtable of a replica: \<open>src/include/memtable/meta_data.h\<close>, \<open>src/include/memtable/memtable.h\<close> and
  \<open>src/memtables/memtable.cpp\<close>.  A key is mapped to a \<open>MetaData\<close> object (clock, size, tag, ciphertext in
  slab memory) and a put replaces it, by compare-and-exchange, only by one with a larger clock.

  Parameters of the model, collected in the record \<open>kv_env\<close>: OpenSSL (\<open>evp\<close>), the slab allocator (the
  contents of the element it hands out for the n-th allocation) and folly's \<open>ConcurrentSkipList\<close> (record
  \<open>skiplist\<close>; \<open>skiplist_ok\<close> states its documented behaviour).

  The theory shows the order on nodes to be a strict total order on keys, the functional behaviour of
  \<open>create_node\<close>, \<open>decrypt_node\<close>, \<open>get\<close> and \<open>put\<close>, and that the store implements the interface
  \<open>ts_store\<close> of a store of timestamped registers, whose client lemmas (clocks never go back, replayed
  and reordered puts do not matter) then hold for it.
\<close>

section \<open>Nodes and their order\<close>

record meta_data =
  md_addr :: nat
  md_mac :: bytes
  md_data_size :: u64
  md_clock :: lamport
  md_data :: bytes

text \<open>\<open>md_addr\<close> is the identity of the heap object, which the compare-and-exchange looks at.\<close>

record node =
  nd_key :: bytes
  nd_meta :: "meta_data option"

text \<open>\<open>memcmp\<close> of two buffers of the same length, as the test for a negative result.\<close>

fun memcmp_lt :: "bytes \<Rightarrow> bytes \<Rightarrow> bool" where
  "memcmp_lt (x # xs) (y # ys) \<longleftrightarrow> x < y \<or> x = y \<and> memcmp_lt xs ys"
| "memcmp_lt _ _ \<longleftrightarrow> False"

definition node_less :: "node \<Rightarrow> node \<Rightarrow> bool" where
  "node_less a b =
     (if length (nd_key a) < length (nd_key b) then True
      else if length (nd_key a) > length (nd_key b) then False
      else memcmp_lt (nd_key a) (nd_key b))"

text \<open>The comparison of the fixed-size node template, over keys of one length.\<close>

definition fixed_node_less :: "bytes \<Rightarrow> bytes \<Rightarrow> bool" where
  "fixed_node_less a b = memcmp_lt a b"

lemma memcmp_lt_irrefl [simp]: "\<not> memcmp_lt xs xs"
  by (induction xs) auto

lemma memcmp_lt_trans: "memcmp_lt xs ys \<Longrightarrow> memcmp_lt ys zs \<Longrightarrow> memcmp_lt xs zs"
proof (induction xs ys arbitrary: zs rule: memcmp_lt.induct)
  case (1 x xs y ys)
  then show ?case by (cases zs) auto
qed auto

lemma memcmp_lt_total: "length xs = length ys \<Longrightarrow> memcmp_lt xs ys \<or> xs = ys \<or> memcmp_lt ys xs"
  by (induction xs ys rule: list_induct2) auto

lemma node_less_irrefl [simp]: "\<not> node_less a a"
  by (simp add: node_less_def)

lemma node_less_trans: "node_less a b \<Longrightarrow> node_less b c \<Longrightarrow> node_less a c"
  using memcmp_lt_trans [of "nd_key a" "nd_key b" "nd_key c"]
  by (auto simp: node_less_def split: if_splits)

lemma node_less_total: "node_less a b \<or> nd_key a = nd_key b \<or> node_less b a"
  using memcmp_lt_total [of "nd_key a" "nd_key b"] by (auto simp: node_less_def)

lemma node_less_neq: "nd_key a = nd_key b \<Longrightarrow> \<not> node_less a b"
  by (simp add: node_less_def)

lemma node_equiv_iff: "\<not> node_less a b \<and> \<not> node_less b a \<longleftrightarrow> nd_key a = nd_key b"
  using node_less_total [of a b] node_less_neq [of a b] node_less_neq [of b a] by argo

section \<open>The parameters\<close>

text \<open>
  The calls of \<open>ConcurrentSkipList::Accessor\<close>: \<open>sl_add\<close> is \<open>addOrGetData\<close> (the list, a pointer to the
  element, and whether it was added), \<open>sl_find\<close> is \<open>find\<close>, \<open>sl_get\<close> and \<open>sl_set_meta\<close> read an element and
  store its \<open>meta\<close> through a pointer.  \<open>sl_view\<close> and \<open>sl_inv\<close> are the content and the validity of a
  list as its documentation speaks about them; no operation of the model computes with them.
\<close>

record ('s, 'p) skiplist =
  sl_add :: "'s \<Rightarrow> node \<Rightarrow> 's \<times> 'p \<times> bool"
  sl_find :: "'s \<Rightarrow> node \<Rightarrow> 'p option"
  sl_get :: "'s \<Rightarrow> 'p \<Rightarrow> node"
  sl_set_meta :: "'s \<Rightarrow> 'p \<Rightarrow> meta_data option \<Rightarrow> 's"
  sl_view :: "'s \<Rightarrow> bytes \<Rightarrow> node option"
  sl_inv :: "'s \<Rightarrow> bool"

definition skiplist_ok :: "('s, 'p) skiplist \<Rightarrow> bool" where
  "skiplist_ok sl \<longleftrightarrow>
     (\<forall>s n. sl_inv sl s \<longrightarrow>
        sl_view sl s (nd_key n) = map_option (sl_get sl s) (sl_find sl s n)) \<and>
     (\<forall>s n s' p added. sl_inv sl s \<longrightarrow> sl_add sl s n = (s', p, added) \<longrightarrow>
        sl_inv sl s' \<and>
        (added \<longleftrightarrow> sl_view sl s (nd_key n) = None) \<and>
        (added \<longrightarrow> sl_view sl s' = (sl_view sl s)(nd_key n \<mapsto> n)) \<and>
        (\<not> added \<longrightarrow> sl_view sl s' = sl_view sl s \<and>
           sl_view sl s (nd_key n) = Some (sl_get sl s' p) \<and>
           (\<forall>m. sl_inv sl (sl_set_meta sl s' p m) \<and>
              sl_view sl (sl_set_meta sl s' p m) =
              (sl_view sl s')(nd_key n \<mapsto> (sl_get sl s' p)\<lparr>nd_meta := m\<rparr>))))"

record ('s, 'p) kv_env =
  ke_sl :: "('s, 'p) skiplist"
  ke_evp :: evp
  ke_cipher :: cipher_ssl
  ke_elem :: "nat \<Rightarrow> bytes"
  ke_mac0 :: "nat \<Rightarrow> bytes"

text \<open>
  \<open>ke_elem a\<close> is the slab element of allocation number \<open>a\<close> and \<open>ke_mac0 a\<close> the bytes the tag array
  holds before the constructor runs.  The store has the list and the number of the next allocation.
\<close>

record 's kv_store =
  kv_skip :: 's
  kv_next :: nat

record ret_value =
  rv_lamport :: lamport
  rv_size :: u64
  rv_value :: "bytes option"

section \<open>Operations\<close>

definition deref :: "bytes option \<Rightarrow> bytes" where
  "deref p = (case p of Some b \<Rightarrow> b | None \<Rightarrow> [])"

definition meta_new ::
  "('s, 'p) kv_env \<Rightarrow> nat \<Rightarrow> u64 \<Rightarrow> bytes option \<Rightarrow> lamport \<Rightarrow> meta_data option" where
  "meta_new env a data_size plain_value clock = do {
     (ok, data, mac) \<leftarrow> cipher_encrypt (ke_evp env) (ke_cipher env) (ke_elem env a)
                          (deref plain_value) (unat data_size) (ke_mac0 env a);
     Some \<lparr>md_addr = a, md_mac = mac, md_data_size = data_size, md_clock = clock, md_data = data\<rparr>
   }"

definition create_node ::
  "('s, 'p) kv_env \<Rightarrow> 's kv_store \<Rightarrow> u64 \<Rightarrow> bytes \<Rightarrow> u64 \<Rightarrow> bytes option \<Rightarrow> lamport \<Rightarrow>
   ('s kv_store \<times> node) option" where
  "create_node env st key_size key value_size value clock = do {
     m \<leftarrow> meta_new env (kv_next st) value_size value clock;
     k \<leftarrow> mem_read key 0 (unat key_size);
     Some (st\<lparr>kv_next := Suc (kv_next st)\<rparr>, \<lparr>nd_key = k, nd_meta = Some m\<rparr>)
   }"

definition decrypt_node :: "('s, 'p) kv_env \<Rightarrow> node \<Rightarrow> ret_value option" where
  "decrypt_node env n = do {
     m \<leftarrow> nd_meta n;
     (ok, out) \<leftarrow> cipher_decrypt (ke_evp env) (ke_cipher env)
                    (replicate (unat (md_data_size m)) 0) (md_data m)
                    (unat (md_data_size m)) (md_mac m);
     Some (if \<not> ok then \<lparr>rv_lamport = lamport_of_int 0, rv_size = 0, rv_value = None\<rparr>
           else \<lparr>rv_lamport = md_clock m, rv_size = md_data_size m, rv_value = Some out\<rparr>)
   }"

definition kv_get :: "('s, 'p) kv_env \<Rightarrow> 's kv_store \<Rightarrow> node \<Rightarrow> ret_value option" where
  "kv_get env st n =
     (case sl_find (ke_sl env) (kv_skip st) n of
        None \<Rightarrow> Some \<lparr>rv_lamport = lamport_of_int 0, rv_size = 0, rv_value = None\<rparr>
      | Some p \<Rightarrow> decrypt_node env (sl_get (ke_sl env) (kv_skip st) p))"

definition kv_get_key :: "('s, 'p) kv_env \<Rightarrow> 's kv_store \<Rightarrow> u64 \<Rightarrow> bytes \<Rightarrow> ret_value option" where
  "kv_get_key env st key_size key = do {
     k \<leftarrow> mem_read key 0 (unat key_size);
     kv_get env st \<lparr>nd_key = k, nd_meta = None\<rparr>
   }"

text \<open>
  The compare-and-exchange loop of \<open>put\<close>.  Before each attempt other threads may have stored another
  object into the node (\<open>at_store\<close>), and the weak exchange may fail spuriously (\<open>at_spurious\<close>); a failed
  attempt loads the current object into \<open>old\<close>.  When the list of disturbed attempts is used up, the
  loop runs alone.  The result is \<open>old\<close> and the object the node then has.
\<close>

record attempt =
  at_store :: "meta_data option"
  at_spurious :: bool

fun put_loop ::
  "lamport \<Rightarrow> meta_data \<Rightarrow> meta_data \<Rightarrow> meta_data \<Rightarrow> attempt list \<Rightarrow> meta_data \<times> meta_data" where
  "put_loop clock new old cur [] =
     (if md_clock old < clock
      then (if md_addr old = md_addr cur then (old, new)
            else if md_clock cur < clock then (cur, new) else (cur, cur))
      else (old, cur))"
| "put_loop clock new old cur (a # as) =
     (if md_clock old < clock
      then (let cur = (case at_store a of None \<Rightarrow> cur | Some m \<Rightarrow> m) in
            if \<not> at_spurious a \<and> md_addr old = md_addr cur then (old, new)
            else put_loop clock new cur cur as)
      else (old, cur))"

definition kv_put ::
  "('s, 'p) kv_env \<Rightarrow> attempt list \<Rightarrow> 's kv_store \<Rightarrow> node \<Rightarrow> ('s kv_store \<times> bool) option" where
  "kv_put env as st new_node =
     (case sl_add (ke_sl env) (kv_skip st) new_node of (s, p, found) \<Rightarrow>
        if found then Some (st\<lparr>kv_skip := s\<rparr>, True)
        else do {
          new_meta \<leftarrow> nd_meta new_node;
          old_meta \<leftarrow> nd_meta (sl_get (ke_sl env) s p);
          let (old, cur) = put_loop (md_clock new_meta) new_meta old_meta old_meta as;
          Some (st\<lparr>kv_skip := sl_set_meta (ke_sl env) s p (Some cur)\<rparr>, md_clock old < md_clock new_meta)
        })"

definition kv_put_value ::
  "('s, 'p) kv_env \<Rightarrow> attempt list \<Rightarrow> 's kv_store \<Rightarrow> u64 \<Rightarrow> bytes \<Rightarrow> u64 \<Rightarrow> bytes option \<Rightarrow> lamport \<Rightarrow>
   ('s kv_store \<times> bool) option" where
  "kv_put_value env as st key_size key value_size value clock = do {
     (st, n) \<leftarrow> create_node env st key_size key value_size value clock;
     kv_put env as st n
   }"

section \<open>Well-formed stores and their content\<close>

definition meta_value :: "('s, 'p) kv_env \<Rightarrow> meta_data \<Rightarrow> bytes option" where
  "meta_value env m =
     (case cipher_decrypt (ke_evp env) (ke_cipher env) (replicate (unat (md_data_size m)) 0)
             (md_data m) (unat (md_data_size m)) (md_mac m) of
        Some (True, v) \<Rightarrow> Some v
      | _ \<Rightarrow> None)"

definition env_ok :: "('s, 'p) kv_env \<Rightarrow> nat \<Rightarrow> bool" where
  "env_ok env cap \<longleftrightarrow> evp_ok (ke_evp env) \<and> cipher_wf (ke_cipher env) \<and> skiplist_ok (ke_sl env) \<and>
     (\<forall>a. length (ke_elem env a) = cap \<and> length (ke_mac0 env a) = MacSize) \<and> cap < 2 ^ 64"

definition meta_ok :: "('s, 'p) kv_env \<Rightarrow> meta_data \<Rightarrow> bool" where
  "meta_ok env m \<longleftrightarrow> (\<exists>v. meta_value env m = Some v \<and> length v = unat (md_data_size m))"

definition kv_wf :: "('s, 'p) kv_env \<Rightarrow> 's kv_store \<Rightarrow> bool" where
  "kv_wf env st \<longleftrightarrow> sl_inv (ke_sl env) (kv_skip st) \<and>
     (\<forall>k n. sl_view (ke_sl env) (kv_skip st) k = Some n \<longrightarrow>
        nd_key n = k \<and> (\<exists>m. nd_meta n = Some m \<and> meta_ok env m))"

definition kv_look :: "('s, 'p) kv_env \<Rightarrow> 's kv_store \<Rightarrow> bytes \<Rightarrow> (lamport \<times> bytes) option" where
  "kv_look env st k = do {
     n \<leftarrow> sl_view (ke_sl env) (kv_skip st) k;
     m \<leftarrow> nd_meta n;
     v \<leftarrow> meta_value env m;
     Some (md_clock m, v)
   }"

text \<open>What a put with a clock makes of the content of a key: the entry with the larger clock stays.\<close>

fun newer :: "(lamport \<times> 'v) option \<Rightarrow> lamport \<times> 'v \<Rightarrow> lamport \<times> 'v" where
  "newer None x = x"
| "newer (Some (c, v)) (c', v') = (if c < c' then (c', v') else (c, v))"

lemma meta_new_value:
  assumes "env_ok env cap" "length v \<le> cap" "p = (if v = [] then None else Some (v @ rest)) \<or> p = Some (v @ rest)"
  obtains m where "meta_new env a (size_of v) p c = Some m" "meta_value env m = Some v"
    "md_clock m = c" "md_data_size m = size_of v" "md_addr m = a" "meta_ok env m"
proof -
  have cap: "length v < 2 ^ 64" using assms by (simp add: env_ok_def)
  then have n: "unat (size_of v) = length v" by (simp add: unat_size_of)
  have "evp_ok (ke_evp env)" "cipher_wf (ke_cipher env)" "length v \<le> length (ke_elem env a)"
    "length (ke_mac0 env a) = MacSize" "length (replicate (length v) (0 :: u8)) = length v"
    using assms by (simp_all add: env_ok_def)
  then obtain d t where
    enc: "cipher_encrypt (ke_evp env) (ke_cipher env) (ke_elem env a) v (length v) (ke_mac0 env a) =
      Some (True, d, t)" and "length t = MacSize"
    and dec: "\<And>tag. length tag = MacSize \<Longrightarrow>
      cipher_decrypt (ke_evp env) (ke_cipher env) (replicate (length v) 0) d (length v) tag = Some (tag = t, v)"
    by (rule cipher_roundtrip) blast
  have "mem_read (deref p) 0 (length v) = mem_read v 0 (length v)"
    using assms(3) by (auto simp: deref_def mem_simps)
  then have "cipher_encrypt (ke_evp env) (ke_cipher env) (ke_elem env a) (deref p) (length v) (ke_mac0 env a) =
      Some (True, d, t)"
    using enc by (simp add: cipher_encrypt_def)
  with n dec \<open>length t = MacSize\<close> show ?thesis
    by (intro that [of "\<lparr>md_addr = a, md_mac = t, md_data_size = size_of v, md_clock = c, md_data = d\<rparr>"])
      (simp_all add: meta_new_def meta_value_def meta_ok_def)
qed

lemma meta_new_too_large:
  assumes "env_ok env cap" "cap < length v" "length v < 2 ^ 64"
  shows "meta_new env a (size_of v) (Some (v @ rest)) c = None"
proof -
  have "cipher_encrypt (ke_evp env) (ke_cipher env) (ke_elem env a) v (length v) (ke_mac0 env a) = None"
    using assms by (intro cipher_encrypt_overflow) (auto simp: env_ok_def)
  then have "cipher_encrypt (ke_evp env) (ke_cipher env) (ke_elem env a) (v @ rest) (length v) (ke_mac0 env a) = None"
    by (simp add: cipher_encrypt_def mem_simps)
  then show ?thesis using assms by (simp add: meta_new_def deref_def unat_size_of)
qed

lemma create_node_ok:
  assumes "env_ok env cap" "length v \<le> cap" "length k < 2 ^ 64"
    "p = (if v = [] then None else Some (v @ vrest)) \<or> p = Some (v @ vrest)"
  obtains m where
    "create_node env st (size_of k) (k @ krest) (size_of v) p c =
       Some (st\<lparr>kv_next := Suc (kv_next st)\<rparr>, \<lparr>nd_key = k, nd_meta = Some m\<rparr>)"
    "meta_value env m = Some v" "md_clock m = c" "md_data_size m = size_of v" "meta_ok env m"
proof -
  obtain m where m: "meta_new env (kv_next st) (size_of v) p c = Some m" "meta_value env m = Some v"
    "md_clock m = c" "md_data_size m = size_of v" "meta_ok env m"
    using meta_new_value [OF assms(1,2,4), of "kv_next st" c] by blast
  have "unat (size_of k) = length k" using assms(3) by (simp add: unat_size_of)
  with m show ?thesis by (intro that [of m]) (simp_all add: create_node_def mem_simps)
qed

lemma decrypt_node_ok:
  assumes "nd_meta n = Some m" "meta_value env m = Some v"
  shows "decrypt_node env n =
    Some \<lparr>rv_lamport = md_clock m, rv_size = md_data_size m, rv_value = Some v\<rparr>"
  using assms
  by (auto simp: decrypt_node_def meta_value_def split: option.splits prod.splits bool.splits)

text \<open>A stored object whose ciphertext or tag fails authentication is reported as absent.\<close>

lemma decrypt_node_rejects:
  assumes "nd_meta n = Some m"
    and "cipher_decrypt (ke_evp env) (ke_cipher env) (replicate (unat (md_data_size m)) 0)
           (md_data m) (unat (md_data_size m)) (md_mac m) = Some (False, out)"
  shows "decrypt_node env n = Some \<lparr>rv_lamport = lamport_min, rv_size = 0, rv_value = None\<rparr>"
  using assms by (simp add: decrypt_node_def)

section \<open>The exchange loop\<close>

lemma put_loop_alone [simp]:
  "put_loop c new m m [] = (m, if md_clock m < c then new else m)"
  by simp

text \<open>
  Whatever other threads do, the loop ends either with the new object in the node and a smaller clock
  in \<open>old\<close>, or with an object in the node whose clock is not smaller, which it leaves there.
\<close>

lemma put_loop_result:
  assumes "put_loop c new m m as = (o', cur)"
  shows "if md_clock o' < c then cur = new else cur = o'"
  using assms
proof (induction as arbitrary: m)
  case Nil
  then show ?case by (auto split: if_splits)
next
  case (Cons a as)
  let ?x = "case at_store a of None \<Rightarrow> m | Some x \<Rightarrow> x"
  consider "\<not> md_clock m < c" | "md_clock m < c" "\<not> at_spurious a \<and> md_addr m = md_addr ?x"
    | "md_clock m < c" "\<not> (\<not> at_spurious a \<and> md_addr m = md_addr ?x)" by blast
  then show ?case
  proof cases
    case 3
    then have "put_loop c new ?x ?x as = (o', cur)" using Cons.prems
      by (auto simp: Let_def split: if_splits)
    then show ?thesis by (rule Cons.IH)
  qed (use Cons.prems in \<open>auto simp: Let_def\<close>)
qed

lemma put_loop_source:
  assumes "put_loop c new m m as = (o', cur)" "P new" "P m"
    "\<And>a x. a \<in> set as \<Longrightarrow> at_store a = Some x \<Longrightarrow> P x"
  shows "P cur"
  using assms
proof (induction as arbitrary: m)
  case Nil
  then show ?case by (auto split: if_splits)
next
  case (Cons a as)
  show ?case
  proof (cases "md_clock m < c")
    case True
    have "P (case at_store a of None \<Rightarrow> m | Some x \<Rightarrow> x)"
      using Cons.prems by (auto split: option.splits)
    then show ?thesis
      using Cons.IH [of "case at_store a of None \<Rightarrow> m | Some x \<Rightarrow> x"] Cons.prems True
      by (auto simp: Let_def split: if_splits)
  next
    case False
    then show ?thesis using Cons.prems by auto
  qed
qed

section \<open>Reading and writing the store\<close>

lemma kv_wfD:
  assumes "kv_wf env st" "sl_view (ke_sl env) (kv_skip st) k = Some n"
  obtains m v where "nd_key n = k" "nd_meta n = Some m" "meta_value env m = Some v"
    "length v = unat (md_data_size m)" "kv_look env st k = Some (md_clock m, v)"
  using assms by (fastforce simp: kv_wf_def meta_ok_def kv_look_def)

lemma kv_look_None_iff:
  "kv_wf env st \<Longrightarrow> kv_look env st k = None \<longleftrightarrow> sl_view (ke_sl env) (kv_skip st) k = None"
  by (cases "sl_view (ke_sl env) (kv_skip st) k") (auto simp: kv_look_def elim: kv_wfD)

lemma skiplist_findD:
  assumes "skiplist_ok sl" "sl_inv sl s"
  shows "sl_find sl s n = None \<Longrightarrow> sl_view sl s (nd_key n) = None"
    and "sl_find sl s n = Some p \<Longrightarrow> sl_view sl s (nd_key n) = Some (sl_get sl s p)"
  using assms by (auto simp: skiplist_ok_def)

lemma skiplist_addD:
  assumes "skiplist_ok sl" "sl_inv sl s" "sl_add sl s n = (s', p, added)"
  shows "sl_inv sl s'" "added \<longleftrightarrow> sl_view sl s (nd_key n) = None"
    "added \<Longrightarrow> sl_view sl s' = (sl_view sl s)(nd_key n \<mapsto> n)"
    "\<not> added \<Longrightarrow> sl_view sl s' = sl_view sl s"
    "\<not> added \<Longrightarrow> sl_view sl s (nd_key n) = Some (sl_get sl s' p)"
    "\<not> added \<Longrightarrow> sl_inv sl (sl_set_meta sl s' p m)"
    "\<not> added \<Longrightarrow> sl_view sl (sl_set_meta sl s' p m) =
       (sl_view sl s')(nd_key n \<mapsto> (sl_get sl s' p)\<lparr>nd_meta := m\<rparr>)"
  using assms unfolding skiplist_ok_def by blast+

lemma kv_get_look:
  assumes "env_ok env cap" "kv_wf env st"
  shows "kv_get env st n = Some (case kv_look env st (nd_key n) of
      None \<Rightarrow> \<lparr>rv_lamport = lamport_min, rv_size = 0, rv_value = None\<rparr>
    | Some (c, v) \<Rightarrow> \<lparr>rv_lamport = c, rv_size = size_of v, rv_value = Some v\<rparr>)"
proof (cases "sl_find (ke_sl env) (kv_skip st) n")
  case None
  with assms have "sl_view (ke_sl env) (kv_skip st) (nd_key n) = None"
    by (auto simp: env_ok_def kv_wf_def intro: skiplist_findD)
  with None show ?thesis by (simp add: kv_get_def kv_look_def)
next
  case (Some p)
  with assms have "sl_view (ke_sl env) (kv_skip st) (nd_key n) = Some (sl_get (ke_sl env) (kv_skip st) p)"
    by (auto simp: env_ok_def kv_wf_def intro: skiplist_findD)
  then obtain m v where "nd_meta (sl_get (ke_sl env) (kv_skip st) p) = Some m" "meta_value env m = Some v"
    "length v = unat (md_data_size m)" "kv_look env st (nd_key n) = Some (md_clock m, v)"
    using assms(2) by (elim kv_wfD)
  with Some show ?thesis by (simp add: kv_get_def decrypt_node_ok)
qed

text \<open>A store in which one key has a new node, all else unchanged.\<close>

lemma kv_upd_wf:
  assumes "kv_wf env st" "sl_inv (ke_sl env) s'"
    "sl_view (ke_sl env) s' = (sl_view (ke_sl env) (kv_skip st))(k \<mapsto> n)"
    "nd_key n = k" "nd_meta n = Some m" "meta_ok env m"
  shows "kv_wf env (st\<lparr>kv_skip := s'\<rparr>)"
    and "kv_look env (st\<lparr>kv_skip := s'\<rparr>) =
      (kv_look env st)(k := map_option (\<lambda>v. (md_clock m, v)) (meta_value env m))"
  using assms by (auto simp: kv_wf_def kv_look_def fun_eq_iff meta_ok_def)

lemma kv_put_general:
  assumes env: "env_ok env cap" and wf: "kv_wf env st"
    and new: "nd_meta n = Some m" "meta_ok env m"
    and others: "\<And>a x. a \<in> set as \<Longrightarrow> at_store a = Some x \<Longrightarrow> meta_ok env x"
  obtains st' b m' where "kv_put env as st n = Some (st', b)" "kv_wf env st'" "kv_next st' = kv_next st"
    "kv_look env st' = (kv_look env st)(nd_key n := map_option (\<lambda>v. (md_clock m', v)) (meta_value env m'))"
    "meta_ok env m'" "md_clock m \<le> md_clock m'" "b \<Longrightarrow> m' = m"
    "as = [] \<Longrightarrow> kv_look env st (nd_key n) = None \<Longrightarrow> b \<and> m' = m"
    "\<And>c v. as = [] \<Longrightarrow> kv_look env st (nd_key n) = Some (c, v) \<Longrightarrow>
       b = (c < md_clock m) \<and> (c < md_clock m \<or> md_clock m' = c \<and> meta_value env m' = Some v)"
proof -
  obtain s p added where add: "sl_add (ke_sl env) (kv_skip st) n = (s, p, added)" by (metis prod_cases3)
  have sl: "skiplist_ok (ke_sl env)" "sl_inv (ke_sl env) (kv_skip st)"
    using env wf by (auto simp: env_ok_def kv_wf_def)
  note D = skiplist_addD [OF sl add]
  show ?thesis
  proof (cases added)
    case True
    have "kv_look env st (nd_key n) = None"
      using D(2) True wf by (simp add: kv_look_None_iff)
    then show ?thesis
      using True add D(1) D(3) [OF True] new kv_upd_wf [OF wf D(1) D(3) [OF True] refl new]
      by (intro that [of "st\<lparr>kv_skip := s\<rparr>" True m]) (simp_all add: kv_put_def)
  next
    case False
    let ?n = "sl_get (ke_sl env) s p"
    obtain m0 v0 where old: "nd_key ?n = nd_key n" "nd_meta ?n = Some m0" "meta_value env m0 = Some v0"
      "length v0 = unat (md_data_size m0)" "kv_look env st (nd_key n) = Some (md_clock m0, v0)"
      using kv_wfD [OF wf D(5) [OF False]] by blast
    obtain o' cur where loop: "put_loop (md_clock m) m m0 m0 as = (o', cur)" by fastforce
    have cur: "meta_ok env cur"
      using put_loop_source [OF loop, of "meta_ok env"] new others old by (auto simp: meta_ok_def)
    have "sl_view (ke_sl env) (sl_set_meta (ke_sl env) s p (Some cur)) =
        (sl_view (ke_sl env) (kv_skip st))(nd_key n \<mapsto> ?n\<lparr>nd_meta := Some cur\<rparr>)"
      using D(4,7) False by simp
    from kv_upd_wf [OF wf D(6) [OF False] this, of cur] old cur
    have wf': "kv_wf env (st\<lparr>kv_skip := sl_set_meta (ke_sl env) s p (Some cur)\<rparr>)"
      and look': "kv_look env (st\<lparr>kv_skip := sl_set_meta (ke_sl env) s p (Some cur)\<rparr>) =
        (kv_look env st)(nd_key n := map_option (\<lambda>v. (md_clock cur, v)) (meta_value env cur))"
      by simp_all
    have res: "if md_clock o' < md_clock m then cur = m else cur = o'"
      using put_loop_result [OF loop] .
    show ?thesis
      using wf' look' cur res old new False add loop
      by (intro that [of "st\<lparr>kv_skip := sl_set_meta (ke_sl env) s p (Some cur)\<rparr>"
            "md_clock o' < md_clock m" cur])
        (auto simp: kv_put_def split: if_splits)
  qed
qed

section \<open>The interface: a store of timestamped registers\<close>

text \<open>Applying a list of puts; \<open>None\<close> as soon as one of them is undefined.\<close>

primrec put_all ::
  "('st \<Rightarrow> bytes \<Rightarrow> lamport \<Rightarrow> bytes \<Rightarrow> ('st \<times> bool) option) \<Rightarrow> 'st \<Rightarrow>
   (bytes \<times> lamport \<times> bytes) list \<Rightarrow> 'st option" where
  "put_all put s [] = Some s"
| "put_all put s (x # xs) = do {
     (s', _) \<leftarrow> put s (fst x) (fst (snd x)) (snd (snd x));
     put_all put s' xs
   }"

abbreviation old_clock :: "(lamport \<times> bytes) option \<Rightarrow> lamport" where
  "old_clock e \<equiv> (case e of None \<Rightarrow> lamport_min | Some cv \<Rightarrow> fst cv)"

lemma newer_ge: "c \<le> fst (newer e (c, v))" and newer_old: "old_clock e \<le> fst (newer e (c, v))"
  by (cases e; auto)+

lemma newer_idem [simp]: "newer (Some (newer e x)) x = newer e x"
  by (cases e; cases x; auto)

text \<open>The candidates for the content of a key after a list of puts.\<close>

definition candidates ::
  "(lamport \<times> bytes) option \<Rightarrow> (bytes \<times> lamport \<times> bytes) list \<Rightarrow> bytes \<Rightarrow> (lamport \<times> bytes) set" where
  "candidates e xs k = set_option e \<union> {cv. (k, cv) \<in> set xs}"

locale ts_store =
  fixes inv :: "'st \<Rightarrow> bool"
    and admits :: "'st \<Rightarrow> bytes \<Rightarrow> bytes \<Rightarrow> bool"
    and look :: "'st \<Rightarrow> bytes \<Rightarrow> (lamport \<times> bytes) option"
    and put :: "'st \<Rightarrow> bytes \<Rightarrow> lamport \<Rightarrow> bytes \<Rightarrow> ('st \<times> bool) option"
    and get :: "'st \<Rightarrow> bytes \<Rightarrow> ret_value option"
  assumes put_spec: "inv s \<Longrightarrow> admits s k v \<Longrightarrow>
      \<exists>s'. put s k c v = Some (s', look s k = None \<or> old_clock (look s k) < c) \<and> inv s' \<and>
        look s' = (look s)(k \<mapsto> newer (look s k) (c, v)) \<and> admits s' = admits s"
    and get_spec: "inv s \<Longrightarrow> admits s k [] \<Longrightarrow>
      get s k = Some (case look s k of
          None \<Rightarrow> \<lparr>rv_lamport = lamport_min, rv_size = 0, rv_value = None\<rparr>
        | Some (c, v) \<Rightarrow> \<lparr>rv_lamport = c, rv_size = size_of v, rv_value = Some v\<rparr>)"
begin

lemma putE:
  assumes "inv s" "admits s k v"
  obtains s' where "put s k c v = Some (s', look s k = None \<or> old_clock (look s k) < c)" "inv s'"
    "look s' = (look s)(k \<mapsto> newer (look s k) (c, v))" "admits s' = admits s"
  using put_spec [OF assms, of c] by blast

lemma put_clock_mono:
  assumes "inv s" "admits s k v" "put s k c v = Some (s', b)"
  shows "old_clock (look s j) \<le> old_clock (look s' j)" and "c \<le> old_clock (look s' k)"
proof -
  obtain s'' where "put s k c v = Some (s'', look s k = None \<or> old_clock (look s k) < c)"
    "look s'' = (look s)(k \<mapsto> newer (look s k) (c, v))"
    using putE [OF assms(1,2)] by metis
  with assms(3) have l: "look s' = (look s)(k \<mapsto> newer (look s k) (c, v))" by simp
  show "old_clock (look s j) \<le> old_clock (look s' j)" "c \<le> old_clock (look s' k)"
    unfolding l using newer_old [of "look s k" c v] by (simp_all add: newer_ge)
qed

lemma put_replay:
  assumes "inv s" "admits s k v" "put s k c v = Some (s', b)"
  obtains s'' where "put s' k c v = Some (s'', False)" "look s'' = look s'"
proof -
  obtain s1 where s1: "put s k c v = Some (s1, look s k = None \<or> old_clock (look s k) < c)" "inv s1"
    "look s1 = (look s)(k \<mapsto> newer (look s k) (c, v))" "admits s1 = admits s"
    using putE [OF assms(1,2)] by metis
  have s': "s' = s1" using s1(1) assms(3) by simp
  obtain s2 where s2: "put s1 k c v = Some (s2, look s1 k = None \<or> old_clock (look s1 k) < c)"
    "look s2 = (look s1)(k \<mapsto> newer (look s1 k) (c, v))"
    using putE [OF s1(2)] s1(4) assms(2) by metis
  have k1: "look s1 k = Some (newer (look s k) (c, v))" using s1(3) by simp
  have "look s2 = look s1" using s2(2) k1 by (simp add: fun_upd_idem)
  then show ?thesis
    using s2(1) s' k1 newer_ge [of c "look s k" v] by (intro that [of s2]) (simp_all add: not_less)
qed

lemma put_all_look:
  assumes "inv s" "\<forall>(k, c, v) \<in> set xs. admits s k v"
  obtains s' where "put_all put s xs = Some s'" "inv s'" "admits s' = admits s"
    "\<And>k. case look s' k of
        None \<Rightarrow> candidates (look s k) xs k = {}
      | Some (c, v) \<Rightarrow> (c, v) \<in> candidates (look s k) xs k \<and>
          (\<forall>(c', v') \<in> candidates (look s k) xs k. c' \<le> c)"
  using assms
proof (induction xs arbitrary: s thesis)
  case Nil
  then show ?case by (fastforce simp: candidates_def split: option.splits)
next
  case (Cons x xs)
  obtain k c v where x: "x = (k, c, v)" by (cases x)
  with Cons.prems have adm: "admits s k v" by simp
  obtain s1 where s1: "put s k c v = Some (s1, look s k = None \<or> old_clock (look s k) < c)" "inv s1"
    "look s1 = (look s)(k \<mapsto> newer (look s k) (c, v))" "admits s1 = admits s"
    using putE [OF Cons.prems(2) adm] by metis
  obtain s' where s': "put_all put s1 xs = Some s'" "inv s'" "admits s' = admits s1"
    "\<And>j. case look s' j of
        None \<Rightarrow> candidates (look s1 j) xs j = {}
      | Some (c, v) \<Rightarrow> (c, v) \<in> candidates (look s1 j) xs j \<and>
          (\<forall>(c', v') \<in> candidates (look s1 j) xs j. c' \<le> c)"
    using Cons.IH [OF _ s1(2)] Cons.prems(3) s1(4) by auto
  have "case look s' j of
        None \<Rightarrow> candidates (look s j) (x # xs) j = {}
      | Some (c, v) \<Rightarrow> (c, v) \<in> candidates (look s j) (x # xs) j \<and>
          (\<forall>(c', v') \<in> candidates (look s j) (x # xs) j. c' \<le> c)" for j
  proof (cases "j = k")
    case True
    with s'(4) [of k] show ?thesis
      by (cases "look s k") (auto simp: s1(3) x candidates_def split: option.splits if_splits)
  next
    case False
    then have eq: "candidates (look s j) (x # xs) j = candidates (look s1 j) xs j"
      by (simp add: s1(3) x candidates_def)
    show ?thesis using s'(4) [of j] unfolding eq .
  qed
  with s' s1 x show ?case by (intro Cons.prems(1) [of s']) auto
qed

end

section \<open>The memtable implements the interface\<close>

type_synonym ('s, 'p) mem = "('s, 'p) kv_env \<times> nat \<times> 's kv_store"

definition mem_inv :: "('s, 'p) mem \<Rightarrow> bool" where
  "mem_inv = (\<lambda>(env, cap, st). env_ok env cap \<and> kv_wf env st)"

definition mem_admits :: "('s, 'p) mem \<Rightarrow> bytes \<Rightarrow> bytes \<Rightarrow> bool" where
  "mem_admits = (\<lambda>(env, cap, st) k v. length k < 2 ^ 64 \<and> length v \<le> cap)"

definition mem_look :: "('s, 'p) mem \<Rightarrow> bytes \<Rightarrow> (lamport \<times> bytes) option" where
  "mem_look = (\<lambda>(env, cap, st). kv_look env st)"

definition mem_put :: "('s, 'p) mem \<Rightarrow> bytes \<Rightarrow> lamport \<Rightarrow> bytes \<Rightarrow> (('s, 'p) mem \<times> bool) option" where
  "mem_put = (\<lambda>(env, cap, st) k c v.
     map_option (\<lambda>(st', b). ((env, cap, st'), b))
       (kv_put_value env [] st (size_of k) k (size_of v) (Some v) c))"

definition mem_get :: "('s, 'p) mem \<Rightarrow> bytes \<Rightarrow> ret_value option" where
  "mem_get = (\<lambda>(env, cap, st) k. kv_get_key env st (size_of k) k)"

lemma kv_put_value_spec:
  assumes "env_ok env cap" "kv_wf env st" "length k < 2 ^ 64" "length v \<le> cap"
    and "p = (if v = [] then None else Some (v @ vrest)) \<or> p = Some (v @ vrest)"
  obtains st' where
    "kv_put_value env [] st (size_of k) (k @ krest) (size_of v) p c =
       Some (st', kv_look env st k = None \<or> old_clock (kv_look env st k) < c)"
    "kv_wf env st'" "kv_look env st' = (kv_look env st)(k \<mapsto> newer (kv_look env st k) (c, v))"
proof -
  obtain m where m: "create_node env st (size_of k) (k @ krest) (size_of v) p c =
       Some (st\<lparr>kv_next := Suc (kv_next st)\<rparr>, \<lparr>nd_key = k, nd_meta = Some m\<rparr>)"
    "meta_value env m = Some v" "md_clock m = c" "meta_ok env m"
    using create_node_ok [OF assms(1,4,3,5)] by metis
  let ?st = "st\<lparr>kv_next := Suc (kv_next st)\<rparr>" and ?n = "\<lparr>nd_key = k, nd_meta = Some m\<rparr>"
  have wf: "kv_wf env ?st" and look: "kv_look env ?st = kv_look env st"
    using assms(2) by (simp_all add: kv_wf_def kv_look_def fun_eq_iff)
  have n: "nd_meta ?n = Some m" by simp
  obtain st' b m' where put: "kv_put env [] ?st ?n = Some (st', b)" "kv_wf env st'"
    "kv_look env st' = (kv_look env st)(k := map_option (\<lambda>v. (md_clock m', v)) (meta_value env m'))"
    "b \<Longrightarrow> m' = m"
    "kv_look env st k = None \<Longrightarrow> b \<and> m' = m"
    "\<And>c v. kv_look env st k = Some (c, v) \<Longrightarrow>
       b = (c < md_clock m) \<and> (c < md_clock m \<or> md_clock m' = c \<and> meta_value env m' = Some v)"
    by (rule kv_put_general [OF assms(1) wf n m(4), where as = "[]"]) (simp_all add: look)
  show ?thesis
  proof (cases "kv_look env st k")
    case None
    with put look m show ?thesis by (intro that [of st']) (simp_all add: kv_put_value_def)
  next
    case (Some cv)
    obtain c0 v0 where cv: "cv = (c0, v0)" by (cases cv)
    have b: "b = (c0 < c)" and m': "c0 < c \<or> md_clock m' = c0 \<and> meta_value env m' = Some v0"
      using put(6) [of c0 v0] Some cv m(3) by simp_all
    have "kv_look env st' = (kv_look env st)(k \<mapsto> newer (kv_look env st k) (c, v))"
      using put(3,4) look Some cv b m' m(2,3) by (cases "c0 < c") simp_all
    with put(1,2) look m(1) Some cv b show ?thesis
      by (intro that [of st']) (simp_all add: kv_put_value_def)
  qed
qed

lemma kv_get_key_spec:
  assumes "env_ok env cap" "kv_wf env st" "length k < 2 ^ 64"
  shows "kv_get_key env st (size_of k) (k @ rest) = Some (case kv_look env st k of
      None \<Rightarrow> \<lparr>rv_lamport = lamport_min, rv_size = 0, rv_value = None\<rparr>
    | Some (c, v) \<Rightarrow> \<lparr>rv_lamport = c, rv_size = size_of v, rv_value = Some v\<rparr>)"
  using assms by (simp add: kv_get_key_def unat_size_of mem_simps kv_get_look)

interpretation kv: ts_store mem_inv mem_admits mem_look mem_put mem_get
proof unfold_locales
  fix s :: "('s, 'p) mem" and k v :: bytes and c
  assume inv: "mem_inv s" and adm: "mem_admits s k v"
  obtain env cap st where s: "s = (env, cap, st)" by (cases s)
  from inv adm have "env_ok env cap" "kv_wf env st" "length k < 2 ^ 64" "length v \<le> cap"
    by (simp_all add: s mem_inv_def mem_admits_def)
  from kv_put_value_spec [OF this, of "Some v" "[]" "[]" c] obtain st' where
    "kv_put_value env [] st (size_of k) k (size_of v) (Some v) c =
       Some (st', kv_look env st k = None \<or> old_clock (kv_look env st k) < c)"
    "kv_wf env st'" "kv_look env st' = (kv_look env st)(k \<mapsto> newer (kv_look env st k) (c, v))"
    by auto
  then show "\<exists>s'. mem_put s k c v = Some (s', mem_look s k = None \<or> old_clock (mem_look s k) < c) \<and>
      mem_inv s' \<and> mem_look s' = (mem_look s)(k \<mapsto> newer (mem_look s k) (c, v)) \<and> mem_admits s' = mem_admits s"
    using inv by (auto simp: s mem_put_def mem_look_def mem_inv_def mem_admits_def)
next
  fix s :: "('s, 'p) mem" and k
  assume "mem_inv s" "mem_admits s k []"
  then show "mem_get s k = Some (case mem_look s k of
          None \<Rightarrow> \<lparr>rv_lamport = lamport_min, rv_size = 0, rv_value = None\<rparr>
        | Some (c, v) \<Rightarrow> \<lparr>rv_lamport = c, rv_size = size_of v, rv_value = Some v\<rparr>)"
    using kv_get_key_spec [where rest = "[]"]
    by (cases s) (auto simp: mem_inv_def mem_admits_def mem_get_def mem_look_def)
qed

end
