(* ===== verification/Replica_Context.thy ===== *)
theory Replica_Context
  imports Message Packet Memtable
begin

text \<open>
  The bookkeeping of one fan-out to the replicas: \<open>src/include/protocol/abd/replica_context.h\<close>, with the
  buffer and response helpers of \<open>src/include/protocol/abd/rpc_context.h\<close>.  eRPC is not part of the
  sources: the calls the code makes into it are recorded as actions, and the buffers it hands out are
  the parameter \<open>fresh\<close> (the content of a new message buffer of a given size).  A message buffer is the
  list of its data bytes, so \<open>get_data_size\<close> is its length.

  The theory shows what a fan-out sends (the same sealed packet to every replica, in order), that the
  response counter always equals the number of cached responses, and that the fold over the cached
  responses sees exactly the messages the replicas sealed.
\<close>

section \<open>Requests, responses and contexts\<close>

datatype req_type = Put | Get | GetTimeStamp | PutReplica | GetValueTimeStamp | Cmd | EndReq

datatype cont_type = GetTime | AckPutTime | AckPut | RetValue | RetGetPutUpdate | CmdRet | EndCont

record request =
  rq_session :: int
  rq_type :: req_type
  rq_buf :: bytes
  rq_cont :: cont_type
  rq_ctx :: nat
  rq_node :: nat

record replica_context =
  rc_max_package_size :: u64
  rc_handle :: "nat option"
  rc_n_resp :: nat
  rc_n_msgs :: nat
  rc_done :: bool
  rc_cache :: "bytes list"
  rc_max_resp_size :: u64
  rc_data :: node

definition rc_create :: "u64 \<Rightarrow> nat option \<Rightarrow> replica_context" where
  "rc_create max_package_size handle =
     \<lparr>rc_max_package_size = max_package_size, rc_handle = handle, rc_n_resp = 0, rc_n_msgs = 0,
      rc_done = False, rc_cache = [], rc_max_resp_size = 0, rc_data = \<lparr>nd_key = [], nd_meta = None\<rparr>\<rparr>"

section \<open>Operations\<close>

text \<open>
  \<open>alloc_msg_buffer\<close> retries until eRPC has a buffer and runs the event loop a thousand times after
  each refusal.  The list has eRPC's answers; the result is the buffer and the number of runs.
\<close>

fun alloc_msg_buffer :: "bytes option list \<Rightarrow> (bytes \<times> nat) option" where
  "alloc_msg_buffer [] = None"
| "alloc_msg_buffer (Some buf # rs) = Some (buf, 0)"
| "alloc_msg_buffer (None # rs) = map_option (\<lambda>(buf, n). (buf, n + 1000)) (alloc_msg_buffer rs)"

definition create_buffers :: "(nat \<Rightarrow> bytes) \<Rightarrow> nat \<Rightarrow> u64 \<Rightarrow> bytes list" where
  "create_buffers fresh n_msgs request_size =
     replicate n_msgs (fresh (unat (get_buffer_size request_size)))"

text \<open>The first request buffer gets the encrypted message, the others a copy of it.\<close>

definition fill_req_buffers ::
  "evp \<Rightarrow> key_iv \<Rightarrow> iv_garbage \<Rightarrow> bytes list \<Rightarrow> bytes \<Rightarrow> u64 \<Rightarrow> (key_iv \<times> bytes list) option" where
  "fill_req_buffers e ki g reqs buf sz =
     (case reqs of
        [] \<Rightarrow> None
      | r0 # rs \<Rightarrow> do {
          (ok, ki, r0) \<leftarrow> packet_encrypt e ki g r0 buf sz;
          bs \<leftarrow> mem_read r0 0 (unat (get_buffer_size sz));
          rs \<leftarrow> those (map (\<lambda>r. mem_write r 0 bs) rs);
          Some (ki, r0 # rs)
        })"

definition rc_send_and_encrypt_msg ::
  "evp \<Rightarrow> (nat \<Rightarrow> bytes) \<Rightarrow> iv_garbage \<Rightarrow> key_iv \<Rightarrow> nat \<Rightarrow> replica_context \<Rightarrow> int list \<Rightarrow>
   req_type \<Rightarrow> cont_type \<Rightarrow> bytes \<Rightarrow> u64 \<Rightarrow> (key_iv \<times> replica_context \<times> request list) option" where
  "rc_send_and_encrypt_msg e fresh g ki cid c replicas rt cont buf sz = do {
     let n_msgs = length replicas;
     (ki, reqs) \<leftarrow> fill_req_buffers e ki g (create_buffers fresh n_msgs sz) buf sz;
     Some (ki, c\<lparr>rc_n_msgs := n_msgs\<rparr>,
       map (\<lambda>i. \<lparr>rq_session = replicas ! i, rq_type = rt, rq_buf = reqs ! i, rq_cont = cont,
                 rq_ctx = cid, rq_node = i\<rparr>) [0..<n_msgs])
   }"

definition rc_send_msg ::
  "evp \<Rightarrow> (nat \<Rightarrow> bytes) \<Rightarrow> iv_garbage \<Rightarrow> key_iv \<Rightarrow> nat \<Rightarrow> replica_context \<Rightarrow> int list \<Rightarrow>
   req_type \<Rightarrow> cont_type \<Rightarrow> msg \<Rightarrow> (key_iv \<times> replica_context \<times> request list) option" where
  "rc_send_msg e fresh g ki cid c replicas rt cont m = do {
     sz \<leftarrow> get_size m;
     rc_send_and_encrypt_msg e fresh g ki cid c replicas rt cont m (adjust_size sz)
   }"

definition add_to_cache :: "replica_context \<Rightarrow> bytes \<Rightarrow> replica_context option" where
  "add_to_cache c resp = do {
     sz \<leftarrow> get_message_size (size_of resp);
     Some (c\<lparr>rc_max_resp_size := (if sz > rc_max_resp_size c then sz else rc_max_resp_size c),
             rc_cache := rc_cache c @ [resp]\<rparr>)
   }"

text \<open>
  \<open>reduce_resp\<close>: one message buffer is reused for all responses, so bytes behind a shorter message
  are those of the previous one.  The result of the decryption is ignored.
\<close>

fun reduce_loop ::
  "evp \<Rightarrow> key_iv \<Rightarrow> ('a \<Rightarrow> msg \<Rightarrow> 'a option) \<Rightarrow> 'a \<Rightarrow> msg \<Rightarrow> bytes list \<Rightarrow> 'a option" where
  "reduce_loop e ki f res m [] = Some res"
| "reduce_loop e ki f res m (c # cs) = do {
     (ok, m) \<leftarrow> packet_decrypt e ki m c (size_of c);
     res \<leftarrow> f res m;
     reduce_loop e ki f res m cs
   }"

definition reduce_resp ::
  "evp \<Rightarrow> key_iv \<Rightarrow> replica_context \<Rightarrow> ('a \<Rightarrow> msg \<Rightarrow> 'a option) \<Rightarrow> 'a \<Rightarrow> 'a option" where
  "reduce_resp e ki c f init = reduce_loop e ki f init (msg_new (rc_max_resp_size c)) (rc_cache c)"

text \<open>\<open>map_resp\<close>: the messages the callback is called with, through the same reused buffer.\<close>

definition map_resp :: "evp \<Rightarrow> key_iv \<Rightarrow> replica_context \<Rightarrow> msg list option" where
  "map_resp e ki c = reduce_loop e ki (\<lambda>ms m. Some (ms @ [m])) [] (msg_new (rc_max_resp_size c)) (rc_cache c)"

text \<open>\<open>map_last\<close>: the message of the last cached response.\<close>

definition map_last :: "evp \<Rightarrow> key_iv \<Rightarrow> replica_context \<Rightarrow> msg option" where
  "map_last e ki c =
     (if rc_cache c = [] then None
      else do {
        let r = last (rc_cache c);
        sz \<leftarrow> get_message_size (size_of r);
        (ok, m) \<leftarrow> packet_decrypt e ki (msg_new sz) r (size_of r);
        Some m
      })"

text \<open>
  \<open>encrypt_and_resp\<close>: a response of at most 968 bytes goes into the buffer that is part of the request
  handle, a larger one into a new buffer.
\<close>

datatype resp_buf = Pre_resp | Dyn_resp

definition encrypt_resp ::
  "evp \<Rightarrow> (nat \<Rightarrow> bytes) \<Rightarrow> iv_garbage \<Rightarrow> key_iv \<Rightarrow> bytes \<Rightarrow> u64 \<Rightarrow> (key_iv \<times> resp_buf \<times> bytes) option" where
  "encrypt_resp e fresh g ki buf sz = do {
     let n = get_buffer_size sz;
     let kind = (if n \<le> 968 then Pre_resp else Dyn_resp);
     (ok, ki, resp) \<leftarrow> packet_encrypt e ki g (fresh (unat n)) buf sz;
     Some (ki, kind, resp)
   }"

definition encrypt_resp_msg ::
  "evp \<Rightarrow> (nat \<Rightarrow> bytes) \<Rightarrow> iv_garbage \<Rightarrow> key_iv \<Rightarrow> msg \<Rightarrow> (key_iv \<times> resp_buf \<times> bytes) option" where
  "encrypt_resp_msg e fresh g ki m = do {
     sz \<leftarrow> get_size m;
     encrypt_resp e fresh g ki m (adjust_size sz)
   }"

section \<open>Lemmas\<close>

definition rc_wf :: "replica_context \<Rightarrow> bool" where
  "rc_wf c \<longleftrightarrow> rc_n_resp c = length (rc_cache c) \<and>
     (\<forall>r \<in> set (rc_cache c). 28 < length r \<and> length r < 2 ^ 64 \<and>
        length r - 28 \<le> unat (rc_max_resp_size c))"

lemma rc_create_wf [simp]: "rc_wf (rc_create n h)"
  by (simp add: rc_wf_def rc_create_def)

lemma message_size_Some_iff:
  "length r < 2 ^ 64 \<Longrightarrow> get_message_size (size_of r) = Some sz \<longleftrightarrow> 28 < length r \<and> sz = of_nat (length r - 28)"
  by (auto simp: get_message_size_def MetaDataSize_def word_less_nat_alt unat_of_nat_eq of_nat_diff
      assert_that_def bind_eq_Some_conv)

lemma add_to_cache_wf:
  assumes "add_to_cache c resp = Some c'" "rc_wf c" "length resp < 2 ^ 64"
  shows "rc_wf (c'\<lparr>rc_n_resp := Suc (rc_n_resp c)\<rparr>)"
proof -
  obtain sz where sz: "get_message_size (size_of resp) = Some sz"
    and c': "c' = c\<lparr>rc_max_resp_size := (if sz > rc_max_resp_size c then sz else rc_max_resp_size c),
             rc_cache := rc_cache c @ [resp]\<rparr>"
    using assms(1) by (auto simp: add_to_cache_def bind_eq_Some_conv)
  have "28 < length resp" "unat sz = length resp - 28"
    using sz assms(3) by (simp_all add: message_size_Some_iff unat_of_nat_eq del: of_nat_diff)
  moreover have "unat (if sz > rc_max_resp_size c then sz else rc_max_resp_size c) =
      max (unat sz) (unat (rc_max_resp_size c))"
    by (simp add: word_less_nat_alt max_def)
  ultimately show ?thesis
    using assms(2,3) unfolding c' rc_wf_def by (auto simp: le_max_iff_disj simp del: if_split)
qed

text \<open>
  \<open>carries e ki r m\<close>: the response \<open>r\<close> is a sealed packet of message \<open>m\<close> and of nothing else.
\<close>

definition carries :: "evp \<Rightarrow> key_iv \<Rightarrow> bytes \<Rightarrow> msg \<Rightarrow> bool" where
  "carries e ki r m \<longleftrightarrow> sealed e (ki_key ki) m r [] \<and> 0 < length m \<and> length m + 28 < 2 ^ 64 \<and>
     length r = length m + 28"

lemma packet_decrypt_carries:
  assumes "evp_ok e" "key_iv_wf ki" "carries e ki r m" "length m \<le> length out"
  shows "packet_decrypt e ki out r (size_of r) = Some (True, m @ drop (length m) out)"
  using packet_decrypt_sealed [of e ki m r "[]" out] assms
  by (simp add: carries_def key_iv_wf_def add.commute)

lemma packet_encrypt_carries:
  assumes "evp_ok e" "key_iv_wf ki" "ig_ok g" "0 < length m" "length m + 28 < 2 ^ 64"
    and "length dst = length m + 28"
  obtains ki' r where "packet_encrypt e ki g dst (m @ srest) (size_of m) = Some (True, ki', r)"
    "key_iv_wf ki'" "ki_key ki' = ki_key ki" "carries e ki r m" "length r = length m + 28"
proof -
  have "length dst = 28 + length m + length ([] :: bytes)" "drop (28 + length m) dst = []"
    using assms(6) by simp_all
  then obtain ki' buf where
    "packet_encrypt e ki g dst (m @ srest) (size_of m) = Some (True, ki', buf)"
    "key_iv_wf ki'" "ki_key ki' = ki_key ki" "length buf = length dst" "sealed e (ki_key ki) m buf []"
    using packet_encrypt_sealed [OF assms(1-3,5)] by metis
  then show ?thesis using assms by (intro that [of ki' buf]) (simp_all add: carries_def)
qed

text \<open>
  The fold over the responses is a fold over the messages, each followed by some stale bytes.  \<open>P\<close> is an
  invariant of the accumulator.
\<close>

lemma reduce_loop_carries:
  assumes e: "evp_ok e" "key_iv_wf ki" and rs: "list_all2 (carries e ki) rs ms"
    and buf: "\<forall>m \<in> set ms. length m \<le> length buf" and P: "P res"
    and step: "\<And>res m rest. m \<in> set ms \<Longrightarrow> P res \<Longrightarrow> f res (m @ rest) = Some (h res m) \<and> P (h res m)"
  shows "reduce_loop e ki f res buf rs = Some (foldl h res ms)" "P (foldl h res ms)"
proof -
  have "reduce_loop e ki f res buf rs = Some (foldl h res ms) \<and> P (foldl h res ms)"
    using rs buf P step
  proof (induction rs ms arbitrary: res buf rule: list_all2_induct)
    case Nil
    then show ?case by simp
  next
    case (Cons r rs m ms)
    have "packet_decrypt e ki buf r (size_of r) = Some (True, m @ drop (length m) buf)"
      using Cons.hyps(1) Cons.prems(1) by (intro packet_decrypt_carries [OF e]) auto
    moreover have "reduce_loop e ki f (h res m) (m @ drop (length m) buf) rs = Some (foldl h (h res m) ms) \<and>
        P (foldl h (h res m) ms)"
      using Cons.prems by (intro Cons.IH) auto
    ultimately show ?case using Cons.prems(2,3) by simp
  qed
  then show "reduce_loop e ki f res buf rs = Some (foldl h res ms)" "P (foldl h res ms)" by auto
qed

lemma reduce_resp_carries:
  assumes "evp_ok e" "key_iv_wf ki" "list_all2 (carries e ki) (rc_cache c) ms" "rc_wf c" "P res"
    and "\<And>res m rest. m \<in> set ms \<Longrightarrow> P res \<Longrightarrow> f res (m @ rest) = Some (h res m) \<and> P (h res m)"
  shows "reduce_resp e ki c f res = Some (foldl h res ms)" "P (foldl h res ms)"
proof -
  have len: "\<forall>m \<in> set ms. length m \<le> length (msg_new (rc_max_resp_size c))"
  proof
    fix m assume "m \<in> set ms"
    then obtain i where i: "i < length ms" "m = ms ! i" by (auto simp: in_set_conv_nth)
    then have "carries e ki (rc_cache c ! i) m" "rc_cache c ! i \<in> set (rc_cache c)"
      using assms(3) by (auto simp: list_all2_conv_all_nth)
    then show "length m \<le> length (msg_new (rc_max_resp_size c))"
      using assms(4) by (auto simp: rc_wf_def carries_def msg_new_def)
  qed
  show "reduce_resp e ki c f res = Some (foldl h res ms)"
    unfolding reduce_resp_def
    by (rule reduce_loop_carries(1) [where P = P and h = h, OF assms(1-3) len assms(5)]) (rule assms(6))
  show "P (foldl h res ms)"
    by (rule reduce_loop_carries(2) [where P = P and h = h, OF assms(1-3) len assms(5)]) (rule assms(6))
qed

definition fresh_ok :: "(nat \<Rightarrow> bytes) \<Rightarrow> bool" where
  "fresh_ok fresh \<longleftrightarrow> (\<forall>n. length (fresh n) = n)"

lemma adjust_size_encoded:
  assumes "fits k v" shows "adjust_size (of_nat (length k + length v)) = size_of (encoded k v [])"
  by (simp add: adjust_size_def)

text \<open>A fan-out of a finished message sends every replica a packet that carries it.\<close>

lemma fill_req_buffers_carries:
  assumes ok: "evp_ok e" "key_iv_wf ki" "ig_ok g" "fresh_ok fresh"
    and m: "0 < length m" "length m + 28 < 2 ^ 64" and n: "0 < n"
  obtains ki' r where
    "fill_req_buffers e ki g (create_buffers fresh n (size_of m)) m (size_of m) = Some (ki', replicate n r)"
    "key_iv_wf ki'" "ki_key ki' = ki_key ki" "carries e ki r m"
proof -
  have bs: "unat (get_buffer_size (size_of m)) = length m + 28"
    using m unat_add_u64 [of "size_of m" 28]
    by (simp add: get_buffer_size_def MetaDataSize_def unat_of_nat_eq)
  let ?b = "fresh (length m + 28)"
  have len: "length ?b = length m + 28" using ok(4) by (simp add: fresh_ok_def)
  obtain ki' r where r: "packet_encrypt e ki g ?b (m @ []) (size_of m) = Some (True, ki', r)"
    "key_iv_wf ki'" "ki_key ki' = ki_key ki" "carries e ki r m" "length r = length m + 28"
    by (rule packet_encrypt_carries [OF ok(1-3) m len])
  obtain k where k: "n = Suc k" using n by (cases n) auto
  have "mem_write ?b 0 r = Some r" using len r(5) by (simp add: mem_write_def)
  then have "those (map (\<lambda>r'. mem_write r' 0 r) (replicate k ?b)) = Some (replicate k r)"
    by (induction k) auto
  then have "fill_req_buffers e ki g (create_buffers fresh n (size_of m)) m (size_of m) =
      Some (ki', replicate n r)"
    using r bs by (simp add: fill_req_buffers_def create_buffers_def k mem_read_all)
  with r show ?thesis by (intro that)
qed

lemma rc_send_msg_carries:
  assumes ok: "evp_ok e" "key_iv_wf ki" "ig_ok g" "fresh_ok fresh"
    and kv: "length k + length v + 44 < 2 ^ 64" and reps: "replicas \<noteq> []"
  obtains ki' r where
    "rc_send_msg e fresh g ki cid c replicas rt cont (encoded k v []) =
       Some (ki', c\<lparr>rc_n_msgs := length replicas\<rparr>,
         map (\<lambda>i. \<lparr>rq_session = replicas ! i, rq_type = rt, rq_buf = r, rq_cont = cont,
                   rq_ctx = cid, rq_node = i\<rparr>) [0..<length replicas])"
    "key_iv_wf ki'" "ki_key ki' = ki_key ki" "carries e ki r (encoded k v [])"
proof -
  let ?m = "encoded k v []"
  have "0 < length ?m" "length ?m + 28 < 2 ^ 64" "0 < length replicas" using kv reps by simp_all
  then obtain ki' r where r:
    "fill_req_buffers e ki g (create_buffers fresh (length replicas) (size_of ?m)) ?m (size_of ?m) =
       Some (ki', replicate (length replicas) r)"
    "key_iv_wf ki'" "ki_key ki' = ki_key ki" "carries e ki r ?m"
    using fill_req_buffers_carries [OF ok] by metis
  have "get_size ?m = Some (of_nat (length k + length v))" using kv by (simp add: read_size_encoded)
  moreover have "adjust_size (of_nat (length k + length v)) = size_of ?m"
    using kv by (intro adjust_size_encoded) simp
  ultimately show ?thesis
    using r by (intro that [of ki' r])
      (simp_all add: rc_send_msg_def rc_send_and_encrypt_msg_def Let_def cong: map_cong del: of_nat_add)
qed

lemma encoded_rest: "encoded k v rest = encoded k v [] @ rest"
  by (simp add: encoded_def)

lemma encrypt_resp_msg_carries:
  assumes ok: "evp_ok e" "key_iv_wf ki" "ig_ok g" "fresh_ok fresh"
    and kv: "length k + length v + 44 < 2 ^ 64"
  obtains ki' r where
    "encrypt_resp_msg e fresh g ki (encoded k v rest) =
       Some (ki', if length k + length v + 44 \<le> 968 then Pre_resp else Dyn_resp, r)"
    "key_iv_wf ki'" "ki_key ki' = ki_key ki" "carries e ki r (encoded k v [])"
proof -
  let ?m = "encoded k v []"
  have bs: "unat (get_buffer_size (size_of ?m)) = length ?m + 28"
    using kv unat_add_u64 [of "size_of ?m" 28] unat_of_nat_eq [of "length ?m", where 'a = 64]
    by (simp add: get_buffer_size_def MetaDataSize_def)
  have m: "0 < length ?m" "length ?m + 28 < 2 ^ 64" "length (fresh (length ?m + 28)) = length ?m + 28"
    using kv ok(4) by (simp_all add: fresh_ok_def)
  obtain ki' r where r: "packet_encrypt e ki g (fresh (length ?m + 28)) (?m @ rest) (size_of ?m) = Some (True, ki', r)"
    "key_iv_wf ki'" "ki_key ki' = ki_key ki" "carries e ki r ?m"
    using packet_encrypt_carries [OF ok(1-3) m] by metis
  have "get_size (encoded k v rest) = Some (of_nat (length k + length v))"
    using kv by (simp add: read_size_encoded)
  moreover have "adjust_size (of_nat (length k + length v)) = size_of ?m"
    using kv by (intro adjust_size_encoded) simp
  moreover have "get_buffer_size (size_of ?m) \<le> 968 \<longleftrightarrow> length k + length v + 44 \<le> 968"
    using bs by (simp add: word_le_nat_alt)
  ultimately show ?thesis
    using r bs by (intro that [of ki' r])
      (simp_all add: encrypt_resp_msg_def encrypt_resp_def encoded_rest [of k v rest]
        del: of_nat_add length_encoded)
qed

end
