(* ===== verification/Protocol.thy ===== *)
theory Protocol
  imports Replica_Context Key_Access
begin

text \<open>
  The replication protocol of one node: class \<open>ABD\<close> of \<open>src/include/protocol/abd/protocol.h\<close> in its
  compiled configuration (\<open>BENCHMARKING\<close> and \<open>SCALA\<close> defined).  The state is the record \<open>abd\<close>; every
  request handler and every continuation is one function on it.  Calls that leave the node (requests,
  responses, the benchmark callbacks) are appended to the list of actions.  A result \<open>None\<close> stands for a
  failed assertion or an access outside an allocation.

  Parameters: the memtable's parameters (\<open>pe_kv\<close>, which has OpenSSL too), the content of a new eRPC
  message buffer (\<open>pe_fresh\<close>), the callbacks \<open>cmd\<close> and \<open>cmd_ret\<close>.  What differs from event to event
  (uninitialised memory and interference of other threads) is the record \<open>event\<close>.

  The theory shows what each handler answers and how it changes the store, that a continuation acts
  exactly once per fan-out, and that the clock of a new write is above every clock of the responses.
\<close>

section \<open>State and parameters\<close>

record replica_info =
  ri_session_id :: int
  ri_base_id :: u64
  ri_uri :: string

datatype action =
    Enqueue_request request
  | Enqueue_response "nat option" resp_buf bytes
  | Put_ret bytes
  | Get_ret span
  | Skip_ret
  | Cmd_ret_call nat msg

record 's abd =
  ab_max_value_size :: u64
  ab_max_package_size :: u64
  ab_replicas_infos :: "replica_info list"
  ab_replicas :: "int list list"
  ab_local_id :: u64
  ab_cipher :: key_iv
  ab_kv :: "'s kv_store"
  ab_m_id :: u32
  ab_current_traces :: u64
  ab_ctxs :: "replica_context list"
  ab_out :: "action list"

record ('s, 'p) penv =
  pe_kv :: "('s, 'p) kv_env"
  pe_fresh :: "nat \<Rightarrow> bytes"
  pe_cmd :: "(msg \<Rightarrow> msg) option"
  pe_cmd_ret :: bool

record event =
  ev_iv :: iv_garbage
  ev_attempts :: "attempt list"

abbreviation pe_evp :: "('s, 'p) penv \<Rightarrow> evp" where
  "pe_evp env \<equiv> ke_evp (pe_kv env)"

definition ACK :: bytes where
  "ACK = [65, 67, 75, 0]"

definition abd_new ::
  "u64 \<Rightarrow> u32 \<Rightarrow> 's kv_store \<Rightarrow> replica_info list \<Rightarrow> u64 \<Rightarrow> key_iv \<Rightarrow> 's abd" where
  "abd_new max_value m_id kv r_uri local_id cipher =
     \<lparr>ab_max_value_size = max_value, ab_max_package_size = max_value + 8 + MetaDataSize,
      ab_replicas_infos = r_uri, ab_replicas = [], ab_local_id = local_id, ab_cipher = cipher,
      ab_kv = kv, ab_m_id = m_id, ab_current_traces = 0, ab_ctxs = [], ab_out = []\<rparr>"

definition emit :: "action \<Rightarrow> 's abd \<Rightarrow> 's abd" where
  "emit a st = st\<lparr>ab_out := ab_out st @ [a]\<rparr>"

definition create_rep_context :: "'s abd \<Rightarrow> nat option \<Rightarrow> 's abd \<times> nat" where
  "create_rep_context st handle =
     (st\<lparr>ab_ctxs := ab_ctxs st @ [rc_create (ab_max_package_size st) handle]\<rparr>, length (ab_ctxs st))"

definition ctx_at :: "'s abd \<Rightarrow> nat \<Rightarrow> replica_context option" where
  "ctx_at st cid = (if cid < length (ab_ctxs st) then Some (ab_ctxs st ! cid) else None)"

definition set_ctx :: "'s abd \<Rightarrow> nat \<Rightarrow> replica_context \<Rightarrow> 's abd" where
  "set_ctx st cid c = st\<lparr>ab_ctxs := (ab_ctxs st)[cid := c]\<rparr>"

section \<open>Connecting\<close>

text \<open>
  \<open>init\<close> runs the event loop until eRPC reports the session as connected, replica by replica, and then
  until as many peers have connected.  \<open>create_session\<close> is eRPC's; the lists have the answers the
  loops see; a loop that never sees the end has no result.
\<close>

fun wait_until :: "bool list \<Rightarrow> nat option" where
  "wait_until [] = None"
| "wait_until (True # bs) = Some 0"
| "wait_until (False # bs) = map_option Suc (wait_until bs)"

fun init_sessions ::
  "(string \<Rightarrow> u64 \<Rightarrow> int) \<Rightarrow> (int \<Rightarrow> bool list) \<Rightarrow> replica_info list \<Rightarrow> replica_info list option" where
  "init_sessions create_session connected_answers [] = Some []"
| "init_sessions create_session connected_answers (r # rs) = do {
     let sid = create_session (ri_uri r) (ri_base_id r);
     _ \<leftarrow> wait_until (connected_answers sid);
     rs \<leftarrow> init_sessions create_session connected_answers rs;
     Some (r\<lparr>ri_session_id := sid\<rparr> # rs)
   }"

definition abd_init ::
  "(string \<Rightarrow> u64 \<Rightarrow> int) \<Rightarrow> (int \<Rightarrow> bool list) \<Rightarrow> u64 list \<Rightarrow> 's abd \<Rightarrow> 's abd option" where
  "abd_init create_session connected_answers connected st = do {
     infos \<leftarrow> init_sessions create_session connected_answers (ab_replicas_infos st);
     _ \<leftarrow> wait_until (map (\<lambda>c. c = size_of infos) connected);
     Some (st\<lparr>ab_replicas_infos := infos\<rparr>)
   }"

fun replica_ordering :: "(bool \<times> nat \<times> nat) list \<Rightarrow> 's abd \<Rightarrow> 's abd option" where
  "replica_ordering [] st = Some st"
| "replica_ordering ((us, a, b) # order) st =
     (if us then
        (if a < length (ab_replicas_infos st) \<and> b < length (ab_replicas_infos st)
         then replica_ordering order
                (st\<lparr>ab_replicas := ab_replicas st @
                  [[ri_session_id (ab_replicas_infos st ! a), ri_session_id (ab_replicas_infos st ! b)]]\<rparr>)
         else None)
      else replica_ordering order (st\<lparr>ab_replicas := ab_replicas st @ [[]]\<rparr>))"

section \<open>Helpers of the handlers\<close>

text \<open>\<open>get_data\<close> ignores whether the decryption succeeds.\<close>

definition get_data :: "('s, 'p) penv \<Rightarrow> 's abd \<Rightarrow> bytes \<Rightarrow> msg option" where
  "get_data env st req = do {
     sz \<leftarrow> get_message_size (size_of req);
     (ok, m) \<leftarrow> packet_decrypt (pe_evp env) (ab_cipher st) (msg_new sz) req (size_of req);
     Some m
   }"

definition get_msg :: "u64 \<Rightarrow> u64 \<Rightarrow> msg option" where
  "get_msg key_size value_size = do {
     m \<leftarrow> write_u64 (msg_new (key_size + value_size + 16)) 0 key_size;
     write_u64 m 8 (key_size + value_size)
   }"

definition increment_traces :: "'s abd \<Rightarrow> 's abd" where
  "increment_traces st = st\<lparr>ab_current_traces := ab_current_traces st + 1\<rparr>"

definition decrement_traces :: "'s abd \<Rightarrow> 's abd" where
  "decrement_traces st = st\<lparr>ab_current_traces := ab_current_traces st - 1\<rparr>"

text \<open>\<open>get_idx_<T>\<close>: the \<open>w\<close> bytes of the key at \<open>off\<close> as an integer, modulo the number of groups.\<close>

definition get_idx_at :: "'s abd \<Rightarrow> nat \<Rightarrow> bytes \<Rightarrow> nat \<Rightarrow> nat option" where
  "get_idx_at st w buf off = do {
     bs \<leftarrow> mem_read buf off w;
     _ \<leftarrow> assert_that (ab_replicas st \<noteq> []);
     Some (le_val bs mod length (ab_replicas st))
   }"

definition get_idx :: "'s abd \<Rightarrow> span \<Rightarrow> nat option" where
  "get_idx st key = do {
     buf \<leftarrow> span_buf key;
     let n = span_size key;
     if n \<ge> 8 then get_idx_at st 8 buf (unat (n - 8))
     else if n \<ge> 4 then get_idx_at st 4 buf (unat (n - 4))
     else if n \<ge> 2 then get_idx_at st 2 buf (unat (n - 2))
     else get_idx_at st 1 buf 0
   }"

definition abd_send_msg ::
  "('s, 'p) penv \<Rightarrow> event \<Rightarrow> 's abd \<Rightarrow> nat \<Rightarrow> span \<Rightarrow> req_type \<Rightarrow> cont_type \<Rightarrow> msg \<Rightarrow> 's abd option" where
  "abd_send_msg env ev st cid key rt cont m = do {
     idx \<leftarrow> get_idx st key;
     let reps = ab_replicas st ! idx;
     if reps \<noteq> [] then do {
       c \<leftarrow> ctx_at st cid;
       (ki, c, reqs) \<leftarrow> rc_send_msg (pe_evp env) (pe_fresh env) (ev_iv ev) (ab_cipher st) cid c reps rt cont m;
       Some ((set_ctx st cid c)\<lparr>ab_cipher := ki, ab_out := ab_out st @ map Enqueue_request reqs\<rparr>)
     }
     else Some (emit Skip_ret (decrement_traces st))
   }"

text \<open>The overload that takes a buffer; for a group with replicas the other one is this one on the encoded message.\<close>

definition abd_send_buf ::
  "('s, 'p) penv \<Rightarrow> event \<Rightarrow> 's abd \<Rightarrow> nat \<Rightarrow> span \<Rightarrow> req_type \<Rightarrow> cont_type \<Rightarrow> bytes \<Rightarrow> u64 \<Rightarrow> 's abd option" where
  "abd_send_buf env ev st cid key rt cont buf sz = do {
     idx \<leftarrow> get_idx st key;
     let reps = ab_replicas st ! idx;
     if reps \<noteq> [] then do {
       c \<leftarrow> ctx_at st cid;
       (ki, c, reqs) \<leftarrow> rc_send_and_encrypt_msg (pe_evp env) (pe_fresh env) (ev_iv ev) (ab_cipher st) cid c reps rt cont buf sz;
       Some ((set_ctx st cid c)\<lparr>ab_cipher := ki, ab_out := ab_out st @ map Enqueue_request reqs\<rparr>)
     }
     else Some (emit Skip_ret (decrement_traces st))
   }"

lemma abd_send_msg_buf:
  "get_size m = Some sz \<Longrightarrow> abd_send_msg env ev st cid key rt cont m = abd_send_buf env ev st cid key rt cont m (adjust_size sz)"
  by (simp add: abd_send_msg_def abd_send_buf_def rc_send_msg_def Let_def cong: if_cong)

definition abd_respond ::
  "('s, 'p) penv \<Rightarrow> event \<Rightarrow> 's abd \<Rightarrow> nat option \<Rightarrow> msg \<Rightarrow> 's abd option" where
  "abd_respond env ev st handle m = do {
     (ki, kind, resp) \<leftarrow> encrypt_resp_msg (pe_evp env) (pe_fresh env) (ev_iv ev) (ab_cipher st) m;
     Some (emit (Enqueue_response handle kind resp) (st\<lparr>ab_cipher := ki\<rparr>))
   }"

section \<open>Starting an operation\<close>

text \<open>Storing \<open>rep_context->data\<close>.\<close>

definition set_ctx_data :: "'s abd \<Rightarrow> nat \<Rightarrow> node \<Rightarrow> 's abd option" where
  "set_ctx_data st cid n = map_option (\<lambda>c. set_ctx st cid (c\<lparr>rc_data := n\<rparr>)) (ctx_at st cid)"

definition create_ctx_node ::
  "('s, 'p) penv \<Rightarrow> 's abd \<Rightarrow> nat \<Rightarrow> span \<Rightarrow> span \<Rightarrow> 's abd option" where
  "create_ctx_node env st cid key value = do {
     (kv, n) \<leftarrow> create_node (pe_kv env) (ab_kv st) (span_size key) (deref (span_buf key))
                  (span_size value) (span_buf value) lamport_min;
     set_ctx_data (st\<lparr>ab_kv := kv\<rparr>) cid n
   }"

definition benchmark_put :: "('s, 'p) penv \<Rightarrow> event \<Rightarrow> 's abd \<Rightarrow> msg \<Rightarrow> 's abd option" where
  "benchmark_put env ev st m = do {
     let st = increment_traces st;
     key \<leftarrow> get_key m;
     b \<leftarrow> builder_new (span_size key);
     b \<leftarrow> add_key 1 b (deref (span_buf key)) (span_size key);
     let (st, cid) = create_rep_context st None;
     value \<leftarrow> get_value m;
     st \<leftarrow> create_ctx_node env st cid key value;
     abd_send_msg env ev st cid key GetTimeStamp GetTime (builder_finish b)
   }"

definition benchmark_get :: "('s, 'p) penv \<Rightarrow> event \<Rightarrow> 's abd \<Rightarrow> msg \<Rightarrow> 's abd option" where
  "benchmark_get env ev st m = do {
     let st = increment_traces st;
     let (st, cid) = create_rep_context st None;
     key \<leftarrow> get_key m;
     st \<leftarrow> create_ctx_node env st cid key \<lparr>span_size = 0, span_buf = None\<rparr>;
     abd_send_msg env ev st cid key GetValueTimeStamp RetValue m
   }"

definition handle_put :: "('s, 'p) penv \<Rightarrow> event \<Rightarrow> 's abd \<Rightarrow> nat \<Rightarrow> bytes \<Rightarrow> 's abd option" where
  "handle_put env ev st handle req = do {
     let (st, cid) = create_rep_context st (Some handle);
     data \<leftarrow> get_data env st req;
     key \<leftarrow> get_key data;
     value \<leftarrow> get_value data;
     st \<leftarrow> create_ctx_node env st cid key value;
     abd_send_msg env ev st cid key GetTimeStamp GetTime data
   }"

definition handle_get :: "('s, 'p) penv \<Rightarrow> event \<Rightarrow> 's abd \<Rightarrow> nat \<Rightarrow> bytes \<Rightarrow> 's abd option" where
  "handle_get env ev st handle req = do {
     let (st, cid) = create_rep_context st (Some handle);
     data \<leftarrow> get_data env st req;
     key \<leftarrow> get_key data;
     st \<leftarrow> create_ctx_node env st cid key \<lparr>span_size = 0, span_buf = None\<rparr>;
     abd_send_msg env ev st cid key GetValueTimeStamp RetValue data
   }"

section \<open>Answering a replica\<close>

definition handle_get_time_stamp ::
  "('s, 'p) penv \<Rightarrow> event \<Rightarrow> 's abd \<Rightarrow> nat \<Rightarrow> bytes \<Rightarrow> 's abd option" where
  "handle_get_time_stamp env ev st handle req = do {
     data \<leftarrow> get_data env st req;
     key_size \<leftarrow> get_key_size data;
     key \<leftarrow> get_key data;
     res \<leftarrow> kv_get_key (pe_kv env) (ab_kv st) key_size (deref (span_buf key));
     b \<leftarrow> builder_new 8;
     b \<leftarrow> add_key 8 b (lamport_bytes (rv_lamport res)) 1;
     abd_respond env ev st (Some handle) (builder_finish b)
   }"

definition handle_put_replica ::
  "('s, 'p) penv \<Rightarrow> event \<Rightarrow> 's abd \<Rightarrow> nat \<Rightarrow> bytes \<Rightarrow> 's abd option" where
  "handle_put_replica env ev st handle req = do {
     data \<leftarrow> get_data env st req;
     key_size \<leftarrow> get_key_size data;
     key \<leftarrow> get_key data;
     clock \<leftarrow> get_lamport key_size (span_buf key);
     value_size \<leftarrow> get_value_size data;
     value \<leftarrow> get_value data;
     (kv, res) \<leftarrow> kv_put_value (pe_kv env) (ev_attempts ev) (ab_kv st) (sub_meta_size key_size)
                    (deref (span_buf key)) value_size (span_buf value) clock;
     let st = st\<lparr>ab_kv := kv\<rparr>;
     b \<leftarrow> builder_new (size_of ACK);
     b \<leftarrow> add_key 1 b ACK 1;
     abd_respond env ev st (Some handle) (builder_finish b)
   }"

definition handle_get_value_time_stamp ::
  "('s, 'p) penv \<Rightarrow> event \<Rightarrow> 's abd \<Rightarrow> nat \<Rightarrow> bytes \<Rightarrow> 's abd option" where
  "handle_get_value_time_stamp env ev st handle req = do {
     data \<leftarrow> get_data env st req;
     key \<leftarrow> get_key data;
     res \<leftarrow> kv_get_key (pe_kv env) (ab_kv st) (span_size key) (deref (span_buf key));
     (case rv_value res of
        Some v \<Rightarrow> do {
          b \<leftarrow> builder_new (add_meta_size (span_size key) + rv_size res);
          b \<leftarrow> add_key 1 b (deref (span_buf key)) (span_size key);
          b \<leftarrow> add_key 8 b (lamport_bytes (rv_lamport res)) 1;
          b \<leftarrow> add_value 1 b v (rv_size res);
          abd_respond env ev st (Some handle) (builder_finish b)
        }
      | None \<Rightarrow> do {
          b \<leftarrow> builder_new (add_meta_size (span_size key));
          b \<leftarrow> add_key 1 b (deref (span_buf key)) (span_size key);
          b \<leftarrow> add_key 8 b (lamport_bytes lamport_min) 1;
          abd_respond env ev st (Some handle) (builder_finish b)
        })
   }"

definition handle_cmd :: "('s, 'p) penv \<Rightarrow> event \<Rightarrow> 's abd \<Rightarrow> nat \<Rightarrow> bytes \<Rightarrow> 's abd option" where
  "handle_cmd env ev st handle req =
     (case pe_cmd env of
        None \<Rightarrow> Some st
      | Some cmd \<Rightarrow> do {
          data \<leftarrow> get_data env st req;
          abd_respond env ev st (Some handle) (cmd data)
        })"

text \<open>\<open>request<CALL>\<close>: the handler of a request type.\<close>

fun abd_request ::
  "('s, 'p) penv \<Rightarrow> event \<Rightarrow> 's abd \<Rightarrow> req_type \<Rightarrow> nat \<Rightarrow> bytes \<Rightarrow> 's abd option" where
  "abd_request env ev st Put handle req = handle_put env ev st handle req"
| "abd_request env ev st Get handle req = handle_get env ev st handle req"
| "abd_request env ev st GetTimeStamp handle req = handle_get_time_stamp env ev st handle req"
| "abd_request env ev st PutReplica handle req = handle_put_replica env ev st handle req"
| "abd_request env ev st GetValueTimeStamp handle req = handle_get_value_time_stamp env ev st handle req"
| "abd_request env ev st Cmd handle req = handle_cmd env ev st handle req"
| "abd_request env ev st EndReq handle req = None"

section \<open>Continuations\<close>

text \<open>\<open>req_conts_impl<GetTime>\<close>: the largest counter, then the write with the next one.\<close>

definition max_count :: "u32 \<Rightarrow> msg \<Rightarrow> u32 option" where
  "max_count prior buf = do {
     sz \<leftarrow> get_size buf;
     if sz < 8 then Some prior
     else do {
       key \<leftarrow> get_key buf;
       clock \<leftarrow> get_lamport (span_size key) (span_buf key);
       Some (if prior \<ge> get_count clock then prior else get_count clock)
     }
   }"

definition node_span :: "node \<Rightarrow> span" where
  "node_span n = \<lparr>span_size = size_of (nd_key n), span_buf = Some (nd_key n)\<rparr>"

definition cont_get_time :: "('s, 'p) penv \<Rightarrow> event \<Rightarrow> 's abd \<Rightarrow> nat \<Rightarrow> 's abd option" where
  "cont_get_time env ev st cid = do {
     c \<leftarrow> ctx_at st cid;
     let node = rc_data c;
     local_resp \<leftarrow> kv_get (pe_kv env) (ab_kv st) node;
     mx \<leftarrow> reduce_resp (pe_evp env) (ab_cipher st) c max_count (get_count (rv_lamport local_resp));
     let (st, put_cid) = create_rep_context st (rc_handle c);
     meta \<leftarrow> nd_meta node;
     let msg_size = add_meta_size (size_of (nd_key node)) + md_data_size meta;
     b \<leftarrow> builder_new msg_size;
     let clock = Lamport (mx + 1) (ab_m_id st);
     res \<leftarrow> decrypt_node (pe_kv env) node;
     b \<leftarrow> add_key 1 b (nd_key node) (size_of (nd_key node));
     b \<leftarrow> add_key 8 b (lamport_bytes clock) 1;
     b \<leftarrow> add_value 1 b (deref (rv_value res)) (rv_size res);
     st \<leftarrow> abd_send_msg env ev st put_cid (node_span node) PutReplica AckPutTime (builder_finish b);
     let node = node\<lparr>nd_meta := Some (meta\<lparr>md_clock := clock\<rparr>)\<rparr>;
     st \<leftarrow> set_ctx_data st cid node;
     (kv, res) \<leftarrow> kv_put (pe_kv env) (ev_attempts ev) (ab_kv st) node;
     Some (st\<lparr>ab_kv := kv\<rparr>)
   }"

definition cont_ack_put_time :: "'s abd \<Rightarrow> 's abd" where
  "cont_ack_put_time st = emit (Put_ret ACK) (decrement_traces st)"

text \<open>
  \<open>req_conts_impl<RetValue>\<close>.  The fold carries the best clock and span, the multiplicities of the
  clocks (the \<open>std::map\<close>, of which only the multiplicities are used afterwards) and the buffer \<open>tmp\<close>,
  which every span but the initial one points into.
\<close>

fun count_clock :: "lamport \<Rightarrow> (lamport \<times> nat) list \<Rightarrow> (lamport \<times> nat) list" where
  "count_clock l [] = [(l, 1)]"
| "count_clock l ((l', n) # cs) = (if l = l' then (l', n + 1) # cs else (l', n) # count_clock l cs)"

record read_fold =
  rf_max :: "lamport \<times> span"
  rf_counts :: "(lamport \<times> nat) list"
  rf_tmp :: bytes

definition ret_value_step :: "u64 \<Rightarrow> read_fold \<Rightarrow> msg \<Rightarrow> read_fold option" where
  "ret_value_step key_size f buf = do {
     key \<leftarrow> get_key buf;
     clock \<leftarrow> get_lamport key_size (span_buf key);
     let f = f\<lparr>rf_counts := count_clock clock (rf_counts f)\<rparr>;
     if clock > fst (rf_max f) then do {
       n \<leftarrow> get_size buf;
       bs \<leftarrow> mem_read buf 0 (unat n);
       tmp \<leftarrow> mem_write (rf_tmp f) 0 bs;
       s \<leftarrow> get_key tmp;
       Some (f\<lparr>rf_max := (clock, s), rf_tmp := tmp\<rparr>)
     }
     else Some f
   }"

definition cont_ret_value :: "('s, 'p) penv \<Rightarrow> event \<Rightarrow> 's abd \<Rightarrow> nat \<Rightarrow> 's abd option" where
  "cont_ret_value env ev st cid = do {
     c \<leftarrow> ctx_at st cid;
     let node = rc_data c;
     let key_size = add_meta_size (size_of (nd_key node));
     local_resp \<leftarrow> kv_get (pe_kv env) (ab_kv st) node;
     f \<leftarrow> reduce_resp (pe_evp env) (ab_cipher st) c (ret_value_step key_size)
            \<lparr>rf_max = (rv_lamport local_resp, \<lparr>span_size = rv_size local_resp, span_buf = rv_value local_resp\<rparr>),
             rf_counts = [], rf_tmp = msg_new (rc_max_package_size c)\<rparr>;
     let consens = (\<exists>x \<in> set (rf_counts f). snd x > rc_n_msgs c div 2);
     let (clock, s) = rf_max f;
     st \<leftarrow> (if \<not> consens \<and> span_size s > 0 then do {
              let msg_size = add_meta_size (size_of (nd_key node)) + span_size s;
              b \<leftarrow> builder_new msg_size;
              b \<leftarrow> add_key 1 b (nd_key node) (size_of (nd_key node));
              b \<leftarrow> add_key 8 b (lamport_bytes clock) 1;
              b \<leftarrow> add_value 1 b (deref (span_buf s)) (span_size s);
              let (st, put_cid) = create_rep_context st (rc_handle c);
              abd_send_msg env ev st put_cid (node_span node) PutReplica RetGetPutUpdate (builder_finish b)
            }
            else Some st);
     Some (emit (Get_ret s) (decrement_traces st))
   }"

definition cont_cmd_ret :: "('s, 'p) penv \<Rightarrow> 's abd \<Rightarrow> nat \<Rightarrow> nat \<Rightarrow> 's abd option" where
  "cont_cmd_ret env st n_resp cid =
     (if \<not> pe_cmd_ret env then Some st
      else do {
        c \<leftarrow> ctx_at st cid;
        m \<leftarrow> map_last (pe_evp env) (ab_cipher st) c;
        Some (emit (Cmd_ret_call n_resp m) st)
      })"

fun req_conts_impl ::
  "('s, 'p) penv \<Rightarrow> event \<Rightarrow> 's abd \<Rightarrow> cont_type \<Rightarrow> nat \<Rightarrow> nat \<Rightarrow> 's abd option" where
  "req_conts_impl env ev st GetTime n_resp cid = cont_get_time env ev st cid"
| "req_conts_impl env ev st AckPutTime n_resp cid = Some (cont_ack_put_time st)"
| "req_conts_impl env ev st RetValue n_resp cid = cont_ret_value env ev st cid"
| "req_conts_impl env ev st RetGetPutUpdate n_resp cid = Some st"
| "req_conts_impl env ev st CmdRet n_resp cid = cont_cmd_ret env st n_resp cid"
| "req_conts_impl env ev st AckPut n_resp cid = None"
| "req_conts_impl env ev st EndCont n_resp cid = None"

text \<open>
  \<open>req_conts<CALL>\<close>: the response is cached and counted; too few responses or a fan-out that is done
  end the continuation.
\<close>

definition req_conts ::
  "('s, 'p) penv \<Rightarrow> event \<Rightarrow> 's abd \<Rightarrow> cont_type \<Rightarrow> nat \<Rightarrow> bytes \<Rightarrow> 's abd option" where
  "req_conts env ev st call cid resp = do {
     c \<leftarrow> ctx_at st cid;
     c \<leftarrow> add_to_cache c resp;
     let n_resp = rc_n_resp c + 1;
     let c = c\<lparr>rc_n_resp := n_resp\<rparr>;
     if call = CmdRet then req_conts_impl env ev (set_ctx st cid c) call n_resp cid
     else if 2 * n_resp + 1 < rc_n_msgs c then Some (set_ctx st cid c)
     else if rc_done c then Some (set_ctx st cid c)
     else req_conts_impl env ev (set_ctx st cid (c\<lparr>rc_done := True\<rparr>)) call n_resp cid
   }"

definition send_cmd :: "('s, 'p) penv \<Rightarrow> event \<Rightarrow> 's abd \<Rightarrow> bytes \<Rightarrow> 's abd option" where
  "send_cmd env ev st command = do {
     b \<leftarrow> builder_new (size_of command + 1);
     b \<leftarrow> add_key 1 b (command @ [0]) (size_of command + 1);
     let (st, cid) = create_rep_context st None;
     c \<leftarrow> ctx_at st cid;
     (ki, c, reqs) \<leftarrow> rc_send_msg (pe_evp env) (pe_fresh env) (ev_iv ev) (ab_cipher st) cid c
                        (map ri_session_id (ab_replicas_infos st)) Cmd CmdRet (builder_finish b);
     Some ((set_ctx st cid c)\<lparr>ab_cipher := ki, ab_out := ab_out st @ map Enqueue_request reqs\<rparr>)
   }"

end
