(* ===== verification/Protocol_Spec.thy ===== *)
theory Protocol_Spec
  imports Protocol
begin

text \<open>
  What the handlers and continuations of \<open>Protocol\<close> do: for a node in a well-formed state and a
  packet that carries a well-formed message, each of them returns, keeps the state well-formed, and
  answers or sends the message stated here.
\<close>

section \<open>Well-formed nodes\<close>

definition penv_ok :: "('s, 'p) penv \<Rightarrow> nat \<Rightarrow> bool" where
  "penv_ok env cap \<longleftrightarrow> env_ok (pe_kv env) cap \<and> fresh_ok (pe_fresh env)"

definition abd_wf :: "('s, 'p) penv \<Rightarrow> 's abd \<Rightarrow> bool" where
  "abd_wf env st \<longleftrightarrow> kv_wf (pe_kv env) (ab_kv st) \<and> key_iv_wf (ab_cipher st)"

definition ev_ok :: "('s, 'p) penv \<Rightarrow> event \<Rightarrow> bool" where
  "ev_ok env ev \<longleftrightarrow> ig_ok (ev_iv ev) \<and>
     (\<forall>a \<in> set (ev_attempts ev). \<forall>x. at_store a = Some x \<longrightarrow> meta_ok (pe_kv env) x)"

abbreviation look :: "('s, 'p) penv \<Rightarrow> 's abd \<Rightarrow> bytes \<Rightarrow> (lamport \<times> bytes) option" where
  "look env st \<equiv> kv_look (pe_kv env) (ab_kv st)"

abbreviation packet_of :: "('s, 'p) penv \<Rightarrow> 's abd \<Rightarrow> bytes \<Rightarrow> bytes \<Rightarrow> bytes \<Rightarrow> bool" where
  "packet_of env st r k v \<equiv> carries (pe_evp env) (ab_cipher st) r (encoded k v [])"

lemma penv_okD:
  assumes "penv_ok env cap"
  shows "env_ok (pe_kv env) cap" "fresh_ok (pe_fresh env)" "evp_ok (pe_evp env)" "cap < 2 ^ 64"
  using assms by (auto simp: penv_ok_def env_ok_def)

lemma emit_sel [simp]:
  "ab_kv (emit a st) = ab_kv st" "ab_cipher (emit a st) = ab_cipher st" "ab_out (emit a st) = ab_out st @ [a]"
  "ab_ctxs (emit a st) = ab_ctxs st" "ab_current_traces (emit a st) = ab_current_traces st"
  "ab_replicas (emit a st) = ab_replicas st" "ab_m_id (emit a st) = ab_m_id st"
  by (simp_all add: emit_def)

lemma traces_sel [simp]:
  "ab_kv (decrement_traces st) = ab_kv st" "ab_cipher (decrement_traces st) = ab_cipher st"
  "ab_out (decrement_traces st) = ab_out st" "ab_ctxs (decrement_traces st) = ab_ctxs st"
  "ab_kv (increment_traces st) = ab_kv st" "ab_cipher (increment_traces st) = ab_cipher st"
  "ab_out (increment_traces st) = ab_out st" "ab_ctxs (increment_traces st) = ab_ctxs st"
  "ab_replicas (increment_traces st) = ab_replicas st" "ab_replicas (decrement_traces st) = ab_replicas st"
  "ab_max_package_size (increment_traces st) = ab_max_package_size st"
  "ab_m_id (increment_traces st) = ab_m_id st" "ab_m_id (decrement_traces st) = ab_m_id st"
  "ab_current_traces (increment_traces st) = ab_current_traces st + 1"
  "ab_current_traces (decrement_traces st) = ab_current_traces st - 1"
  by (simp_all add: decrement_traces_def increment_traces_def)

lemma set_ctx_sel [simp]:
  "ab_kv (set_ctx st i c) = ab_kv st" "ab_cipher (set_ctx st i c) = ab_cipher st"
  "ab_out (set_ctx st i c) = ab_out st" "ab_ctxs (set_ctx st i c) = (ab_ctxs st)[i := c]"
  "ab_replicas (set_ctx st i c) = ab_replicas st" "ab_m_id (set_ctx st i c) = ab_m_id st"
  "ab_current_traces (set_ctx st i c) = ab_current_traces st"
  "ab_max_package_size (set_ctx st i c) = ab_max_package_size st"
  by (simp_all add: set_ctx_def)

section \<open>Receiving and answering\<close>

text \<open>A sealed request is decoded to the message, exactly as long as it was.\<close>

lemma get_data_carries:
  assumes "penv_ok env cap" "abd_wf env st" "packet_of env st req k v"
  shows "get_data env st req = Some (encoded k v [])"
proof -
  let ?m = "encoded k v []"
  have len: "length req = length ?m + 28" "length ?m + 28 < 2 ^ 64"
    using assms(3) by (simp_all add: carries_def)
  then have sz: "get_message_size (size_of req) = Some (size_of ?m)"
    by (subst message_size_Some_iff) (simp_all del: length_encoded)
  have "packet_decrypt (pe_evp env) (ab_cipher st) (msg_new (size_of ?m)) req (size_of req) =
      Some (True, ?m @ drop (length ?m) (msg_new (size_of ?m)))"
    using assms len by (intro packet_decrypt_carries)
      (simp_all add: penv_okD abd_wf_def msg_new_def unat_size_of del: length_encoded)
  then show ?thesis
    using sz len by (simp add: get_data_def msg_new_def unat_size_of del: length_encoded)
qed

lemma carries_fits:
  "packet_of env st req k v \<Longrightarrow> length k + length v + 44 < 2 ^ 64"
  by (simp add: carries_def)

text \<open>
  \<open>answers env st h k v st'\<close>: the step from \<open>st\<close> to \<open>st'\<close> sends one response, a packet that carries
  key \<open>k\<close> and value \<open>v\<close>, and changes nothing else but the packet vector.
\<close>

definition answers ::
  "('s, 'p) penv \<Rightarrow> 's abd \<Rightarrow> nat option \<Rightarrow> bytes \<Rightarrow> bytes \<Rightarrow> 's abd \<Rightarrow> bool" where
  "answers env st h k v st' \<longleftrightarrow> (\<exists>ki r.
     st' = emit (Enqueue_response h (if length k + length v + 44 \<le> 968 then Pre_resp else Dyn_resp) r)
             (st\<lparr>ab_cipher := ki\<rparr>) \<and>
     key_iv_wf ki \<and> ki_key ki = ki_key (ab_cipher st) \<and> packet_of env st r k v)"

lemma abd_respond_carries:
  assumes "penv_ok env cap" "abd_wf env st" "ev_ok env ev" "length k + length v + 44 < 2 ^ 64"
  obtains st' where "abd_respond env ev st h (encoded k v rest) = Some st'" "answers env st h k v st'"
proof -
  have "evp_ok (pe_evp env)" "key_iv_wf (ab_cipher st)" "ig_ok (ev_iv ev)" "fresh_ok (pe_fresh env)"
    using assms by (simp_all add: penv_okD abd_wf_def ev_ok_def)
  from encrypt_resp_msg_carries [OF this assms(4), where rest = rest] obtain ki r where
    r: "encrypt_resp_msg (pe_evp env) (pe_fresh env) (ev_iv ev) (ab_cipher st) (encoded k v rest) =
       Some (ki, if length k + length v + 44 \<le> 968 then Pre_resp else Dyn_resp, r)"
    "key_iv_wf ki" "ki_key ki = ki_key (ab_cipher st)" "packet_of env st r k v"
    by metis
  let ?st = "emit (Enqueue_response h (if length k + length v + 44 \<le> 968 then Pre_resp else Dyn_resp) r)
    (st\<lparr>ab_cipher := ki\<rparr>)"
  have "abd_respond env ev st h (encoded k v rest) = Some ?st" using r(1) by (simp add: abd_respond_def)
  moreover have "answers env st h k v ?st" unfolding answers_def using r(2-4) by blast
  ultimately show ?thesis by (rule that)
qed

lemma answersD:
  assumes "answers env st h k v st'"
  shows "abd_wf env st \<Longrightarrow> abd_wf env st'" "ab_kv st' = ab_kv st" "ab_ctxs st' = ab_ctxs st"
    "ki_key (ab_cipher st') = ki_key (ab_cipher st)" "ab_replicas st' = ab_replicas st"
    "ab_max_package_size st' = ab_max_package_size st"
  using assms by (auto simp: answers_def abd_wf_def emit_def)

text \<open>The messages the handlers build.\<close>

lemma build_clock:
  "Option.bind (builder_new 8) (\<lambda>b. add_key 8 b (lamport_bytes l) 1) = Some (encoded (lamport_bytes l) [] [])"
  using mb.build_key [of "lamport_bytes l"] by simp

lemma build_ack:
  "Option.bind (builder_new (size_of ACK)) (\<lambda>b. add_key 1 b ACK 1) = Some (encoded [65] [] [0, 0, 0])"
proof -
  have new: "builder_new (size_of ACK) = Some (encoded [] [] (replicate 4 0))"
    using builder_new_encoded [of "size_of ACK"] by (simp add: ACK_def)
  have "add_key 1 (encoded [] [] (replicate 4 0)) ACK 1 =
      add_key 1 (encoded [] [] (replicate 4 0)) [65] (size_of [65 :: u8])"
    by (simp add: add_key_def ACK_def mem_read_def)
  also have "\<dots> = Some (encoded [65] [] (drop 1 (replicate 4 0)))"
    using add_key_encoded [of "[65]" "replicate 4 0" "[]"] by simp
  finally show ?thesis using new by (simp add: numeral_eq_Suc)
qed

section \<open>Answers to a replica\<close>

lemma size_of_clock_key: "add_meta_size (size_of k) = of_nat (length k + length (lamport_bytes l))"
  by (simp add: add_meta_size_def meta_size_def)

lemma build_key_clock:
  assumes "length k + 24 < 2 ^ 64"
  shows "do {
      b \<leftarrow> builder_new (add_meta_size (size_of k));
      b \<leftarrow> add_key 1 b (k @ krest) (size_of k);
      add_key 8 b (lamport_bytes l) 1
    } = Some (encoded (k @ lamport_bytes l) [] [])"
proof -
  have "add_key 1 b (k @ krest) (size_of k) = add_key 1 b k (size_of k)" for b
    using assms by (simp add: add_key_def unat_size_of mem_simps)
  then show ?thesis
    using assms mb.build_key2 [of k "lamport_bytes l", OF _ size_of_clock_key] by simp
qed

lemma build_key_clock_value:
  assumes "length k + length v + 24 < 2 ^ 64"
  shows "do {
      b \<leftarrow> builder_new (add_meta_size (size_of k) + size_of v);
      b \<leftarrow> add_key 1 b (k @ krest) (size_of k);
      b \<leftarrow> add_key 8 b (lamport_bytes l) 1;
      add_value 1 b (v @ vrest) (size_of v)
    } = Some (encoded (k @ lamport_bytes l) v [])"
proof -
  have "add_key 1 b (k @ krest) (size_of k) = add_key 1 b k (size_of k)" for b
    using assms by (simp add: add_key_def unat_size_of mem_simps)
  moreover have "add_value 1 b (v @ vrest) (size_of v) = add_value 1 b v (size_of v)" for b
    using assms by (simp add: add_value_def unat_size_of mem_simps)
  moreover have "add_meta_size (size_of k) + size_of v = of_nat (length k + length (lamport_bytes l) + length v)"
    by (simp add: add_meta_size_def meta_size_def)
  ultimately show ?thesis
    using assms mb.build_key2_value [of k "lamport_bytes l" v] by simp
qed

text \<open>The timestamp query answers the clock of the key, the minimal clock for an absent key.\<close>

lemma kv_get_key_look:
  assumes "penv_ok env cap" "abd_wf env st" "length k + length v + 44 < 2 ^ 64"
  shows "kv_get_key (pe_kv env) (ab_kv st) (size_of k) (k @ v @ rest) = Some (case look env st k of
      None \<Rightarrow> \<lparr>rv_lamport = lamport_min, rv_size = 0, rv_value = None\<rparr>
    | Some (c, v) \<Rightarrow> \<lparr>rv_lamport = c, rv_size = size_of v, rv_value = Some v\<rparr>)"
  using assms by (intro kv_get_key_spec [of _ cap]) (simp_all add: penv_okD abd_wf_def)

lemma handle_get_time_stamp_spec:
  assumes ok: "penv_ok env cap" "abd_wf env st" "ev_ok env ev" and req: "packet_of env st req k v"
  obtains st' where "handle_get_time_stamp env ev st h req = Some st'"
    "answers env st (Some h) (lamport_bytes (old_clock (look env st k))) [] st'"
proof -
  let ?l = "old_clock (look env st k)"
  have fit: "length k + length v + 44 < 2 ^ 64" by (rule carries_fits [OF req])
  have get: "map_option rv_lamport (kv_get_key (pe_kv env) (ab_kv st) (size_of k) (k @ v)) = Some ?l"
    using kv_get_key_look [OF ok(1,2) fit, of "[]"] by (auto split: option.splits prod.splits)
  obtain st' where r: "abd_respond env ev st (Some h) (encoded (lamport_bytes ?l) [] []) = Some st'"
    "answers env st (Some h) (lamport_bytes ?l) [] st'"
    by (rule abd_respond_carries [OF ok, of "lamport_bytes ?l" "[]" "Some h" "[]"]) simp_all
  show ?thesis
    using r get fit build_clock [of ?l]
    by (intro that [of st'])
      (auto simp: handle_get_time_stamp_def get_data_carries [OF ok(1,2) req] mem_simps deref_def
        builder_finish_def bind_eq_Some_conv)
qed

text \<open>
  The value query answers key, clock and value; an absent key is answered with the minimal clock and
  no value.
\<close>

lemma handle_get_value_time_stamp_spec:
  assumes ok: "penv_ok env cap" "abd_wf env st" "ev_ok env ev" and req: "packet_of env st req k v"
    and fits: "\<And>c w. look env st k = Some (c, w) \<Longrightarrow> length k + length w + 52 < 2 ^ 64"
    and fit8: "length k + 52 < 2 ^ 64"
  obtains st' where "handle_get_value_time_stamp env ev st h req = Some st'"
    "answers env st (Some h) (k @ lamport_bytes (old_clock (look env st k)))
       (case look env st k of None \<Rightarrow> [] | Some cv \<Rightarrow> snd cv) st'"
proof -
  have fit: "length k + length v + 44 < 2 ^ 64" by (rule carries_fits [OF req])
  note get = kv_get_key_look [OF ok(1,2) fit, of "[]"]
  note simps = handle_get_value_time_stamp_def get_data_carries [OF ok(1,2) req] mem_simps deref_def
    builder_finish_def bind_eq_Some_conv
  show ?thesis
  proof (cases "look env st k")
    case None
    obtain st' where r: "abd_respond env ev st (Some h) (encoded (k @ lamport_bytes lamport_min) [] []) = Some st'"
      "answers env st (Some h) (k @ lamport_bytes lamport_min) [] st'"
      by (rule abd_respond_carries [OF ok, of "k @ lamport_bytes lamport_min" "[]" "Some h" "[]"])
        (use fit8 in simp_all)
    show ?thesis
      using r get fit None build_key_clock [of k v lamport_min] fit8
      by (intro that [of st']) (auto simp: simps)
  next
    case (Some cw)
    obtain c w where cw: "cw = (c, w)" by (cases cw)
    have w: "length k + length w + 52 < 2 ^ 64" using fits Some cw by simp
    obtain st' where r: "abd_respond env ev st (Some h) (encoded (k @ lamport_bytes c) w []) = Some st'"
      "answers env st (Some h) (k @ lamport_bytes c) w st'"
      by (rule abd_respond_carries [OF ok, of "k @ lamport_bytes c" w "Some h" "[]"])
        (use w in simp_all)
    show ?thesis
      using r get fit Some cw build_key_clock_value [of k w v c "[]"] w
      by (intro that [of st']) (auto simp: simps)
  qed
qed

text \<open>
  The replicated put stores the value if its clock is larger than that of the store, and acknowledges
  in both cases.
\<close>

lemma handle_put_replica_spec:
  assumes ok: "penv_ok env cap" "abd_wf env st" "ev_ok env ev"
    and req: "packet_of env st req (k @ lamport_bytes c) v"
    and cap: "length v \<le> cap" and alone: "ev_attempts ev = []"
  obtains kv st' where "handle_put_replica env ev st h req = Some st'"
    "answers env (st\<lparr>ab_kv := kv\<rparr>) (Some h) [65] [] st'" "kv_wf (pe_kv env) kv"
    "kv_look (pe_kv env) kv = (look env st)(k \<mapsto> newer (look env st k) (c, v))"
proof -
  have fit: "length k + length v + 52 < 2 ^ 64" using carries_fits [OF req] by simp
  let ?p = "if v = [] then None else Some v"
  have "env_ok (pe_kv env) cap" "kv_wf (pe_kv env) (ab_kv st)" "length k < 2 ^ 64"
    using ok fit by (simp_all add: penv_okD abd_wf_def)
  then obtain kv b where
    put: "kv_put_value (pe_kv env) [] (ab_kv st) (size_of k) (k @ lamport_bytes c @ v) (size_of v) ?p c = Some (kv, b)"
    and kv: "kv_wf (pe_kv env) kv" "kv_look (pe_kv env) kv = (look env st)(k \<mapsto> newer (look env st k) (c, v))"
    by (rule kv_put_value_spec [OF _ _ _ cap, of _ _ _ ?p "[]" "lamport_bytes c @ v" c]) auto
  let ?st = "st\<lparr>ab_kv := kv\<rparr>"
  have wf: "abd_wf env ?st" using ok(2) kv by (simp add: abd_wf_def)
  obtain st' where r: "abd_respond env ev ?st (Some h) (encoded [65] [] [0, 0, 0]) = Some st'"
    "answers env ?st (Some h) [65] [] st'"
    by (rule abd_respond_carries [OF ok(1) wf ok(3), of "[65]" "[]" "Some h" "[0, 0, 0]"]) simp_all
  have clock: "get_lamport (size_of (k @ lamport_bytes c)) (Some (k @ lamport_bytes c @ v)) = Some c"
    using fit by (intro get_lamport_appended) simp_all
  have sub: "sub_meta_size (size_of (k @ lamport_bytes c)) = size_of k"
    by (simp add: sub_meta_size_def meta_size_def)
  show ?thesis
    using r kv put clock sub alone build_ack carries_fits [OF req]
    by (intro that [of st' kv])
      (auto simp: handle_put_replica_def get_data_carries [OF ok(1,2) req] mem_simps deref_def
        builder_finish_def bind_eq_Some_conv simp del: length_append split: if_splits)
qed

end
