(* ===== verification/Protocol_Fanout.thy ===== *)
theory Protocol_Fanout
  imports Protocol_Spec
begin

text \<open>
  The side of the protocol that starts operations: the choice of the replica group, the fan-outs of the
  first phase, and the continuations that run when enough responses have arrived.
\<close>

section \<open>The group of a key\<close>

text \<open>The last eight, four, two bytes or the only byte of a key, as an integer.\<close>

definition key_val :: "bytes \<Rightarrow> nat" where
  "key_val k =
     (let n = length k in
      if n \<ge> 8 then le_val (drop (n - 8) k)
      else if n \<ge> 4 then le_val (drop (n - 4) k)
      else if n \<ge> 2 then le_val (drop (n - 2) k)
      else le_val k)"

lemma mem_read_suffix:
  assumes "w \<le> length k" shows "mem_read (k @ rest) (length k - w) w = Some (drop (length k - w) k)"
  using assms by (simp add: mem_read_def)

lemma unat_size_minus:
  assumes "length k < 2 ^ 64" "w \<le> length k"
  shows "unat (size_of k - of_nat w) = length k - w"
  using assms by (simp add: unat_of_nat_eq flip: of_nat_diff)

lemma get_idx_key:
  assumes "k \<noteq> []" "length k < 2 ^ 64" "ab_replicas st \<noteq> []"
  shows "get_idx st \<lparr>span_size = size_of k, span_buf = Some (k @ rest)\<rparr> =
    Some (key_val k mod length (ab_replicas st))"
proof -
  have le: "of_nat w \<le> size_of k \<longleftrightarrow> w \<le> length k" if "w < 2 ^ 64" for w
    using assms(2) that by (simp add: word_le_nat_alt unat_of_nat_eq)
  have at: "get_idx_at st w (k @ rest) (length k - w) =
      Some (le_val (drop (length k - w) k) mod length (ab_replicas st))" if "w \<le> length k" for w
    using assms(3) mem_read_suffix [OF that] by (simp add: get_idx_at_def)
  have one: "get_idx_at st 1 (k @ rest) 0 = Some (le_val k mod length (ab_replicas st))" if "length k < 2"
    using at [of 1] assms(1) that by (cases k) auto
  show ?thesis
    using le [of 8] le [of 4] le [of 2] unat_size_minus [OF assms(2), of 8]
      unat_size_minus [OF assms(2), of 4] unat_size_minus [OF assms(2), of 2] at one
    by (simp add: get_idx_def key_val_def Let_def)
qed

abbreviation key_group :: "'s abd \<Rightarrow> bytes \<Rightarrow> int list" where
  "key_group st k \<equiv> ab_replicas st ! (key_val k mod length (ab_replicas st))"

section \<open>Sending\<close>

lemma ctx_atD:
  assumes "ctx_at st cid = Some c" shows "cid < length (ab_ctxs st)" "ab_ctxs st ! cid = c"
  using assms by (auto simp: ctx_at_def split: if_splits)

text \<open>
  \<open>sends env st c cid reps rt cont k v st'\<close>: the step from \<open>st\<close> to \<open>st'\<close> sends one packet with key \<open>k\<close>
  and value \<open>v\<close> to each of \<open>reps\<close> on behalf of context \<open>cid\<close>, and changes nothing else but the number
  of messages of the context and the packet vector.
\<close>

definition sends ::
  "('s, 'p) penv \<Rightarrow> 's abd \<Rightarrow> replica_context \<Rightarrow> nat \<Rightarrow> int list \<Rightarrow> req_type \<Rightarrow> cont_type \<Rightarrow>
   bytes \<Rightarrow> bytes \<Rightarrow> 's abd \<Rightarrow> bool" where
  "sends env st c cid reps rt cont k v st' \<longleftrightarrow> (\<exists>ki r.
     st' = (set_ctx st cid (c\<lparr>rc_n_msgs := length reps\<rparr>))
       \<lparr>ab_cipher := ki,
        ab_out := ab_out st @ map (\<lambda>i. Enqueue_request
          \<lparr>rq_session = reps ! i, rq_type = rt, rq_buf = r, rq_cont = cont, rq_ctx = cid, rq_node = i\<rparr>)
          [0..<length reps]\<rparr> \<and>
     key_iv_wf ki \<and> ki_key ki = ki_key (ab_cipher st) \<and> packet_of env st r k v)"

lemma sendsD:
  assumes "sends env st c cid reps rt cont k v st'"
  shows "abd_wf env st \<Longrightarrow> abd_wf env st'" "ab_kv st' = ab_kv st"
    "ab_ctxs st' = (ab_ctxs st)[cid := c\<lparr>rc_n_msgs := length reps\<rparr>]"
    "ki_key (ab_cipher st') = ki_key (ab_cipher st)" "ab_replicas st' = ab_replicas st"
    "ab_m_id st' = ab_m_id st"
  using assms by (auto simp: sends_def abd_wf_def)

lemma abd_send_msg_spec:
  assumes ok: "penv_ok env cap" "abd_wf env st" "ev_ok env ev"
    and key: "key \<noteq> []" "length key < 2 ^ 64" and reps: "ab_replicas st \<noteq> []" "key_group st key \<noteq> []"
    and ctx: "ctx_at st cid = Some c" and fit: "length k + length v + 44 < 2 ^ 64"
  obtains st' where
    "abd_send_msg env ev st cid \<lparr>span_size = size_of key, span_buf = Some (key @ rest)\<rparr> rt cont (encoded k v []) =
       Some st'"
    "sends env st c cid (key_group st key) rt cont k v st'"
proof -
  have "evp_ok (pe_evp env)" "key_iv_wf (ab_cipher st)" "ig_ok (ev_iv ev)" "fresh_ok (pe_fresh env)"
    using ok by (simp_all add: penv_okD abd_wf_def ev_ok_def)
  then obtain ki r where
    r: "rc_send_msg (pe_evp env) (pe_fresh env) (ev_iv ev) (ab_cipher st) cid c (key_group st key) rt cont
          (encoded k v []) =
        Some (ki, c\<lparr>rc_n_msgs := length (key_group st key)\<rparr>,
          map (\<lambda>i. \<lparr>rq_session = key_group st key ! i, rq_type = rt, rq_buf = r, rq_cont = cont,
                   rq_ctx = cid, rq_node = i\<rparr>) [0..<length (key_group st key)])"
    "key_iv_wf ki" "ki_key ki = ki_key (ab_cipher st)" "packet_of env st r k v"
    by (rule rc_send_msg_carries [OF _ _ _ _ fit reps(2), of _ _ _ _ cid c rt cont]) (rule that)
  let ?st = "(set_ctx st cid (c\<lparr>rc_n_msgs := length (key_group st key)\<rparr>))
       \<lparr>ab_cipher := ki,
        ab_out := ab_out st @ map (\<lambda>i. Enqueue_request
          \<lparr>rq_session = key_group st key ! i, rq_type = rt, rq_buf = r, rq_cont = cont, rq_ctx = cid, rq_node = i\<rparr>)
          [0..<length (key_group st key)]\<rparr>"
  have "abd_send_msg env ev st cid \<lparr>span_size = size_of key, span_buf = Some (key @ rest)\<rparr> rt cont
      (encoded k v []) = Some ?st"
    using r(1) get_idx_key [OF key reps(1)] ctx reps by (simp add: abd_send_msg_def Let_def comp_def)
  moreover have "sends env st c cid (key_group st key) rt cont k v ?st"
    unfolding sends_def using r(2-4) by blast
  ultimately show ?thesis by (rule that)
qed

lemma abd_send_msg_skip:
  assumes "key \<noteq> []" "length key < 2 ^ 64" "ab_replicas st \<noteq> []" "key_group st key = []"
  shows "abd_send_msg env ev st cid \<lparr>span_size = size_of key, span_buf = Some (key @ rest)\<rparr> rt cont m =
    Some (emit Skip_ret (decrement_traces st))"
  using assms by (simp add: abd_send_msg_def get_idx_key)

section \<open>The first phase\<close>

lemma create_rep_context_simps [simp]:
  "fst (create_rep_context st h) = st\<lparr>ab_ctxs := ab_ctxs st @ [rc_create (ab_max_package_size st) h]\<rparr>"
  "snd (create_rep_context st h) = length (ab_ctxs st)"
  by (simp_all add: create_rep_context_def)

text \<open>A context that holds the pending node: key, plain value and clock.\<close>

definition holds :: "('s, 'p) penv \<Rightarrow> replica_context \<Rightarrow> bytes \<Rightarrow> bytes \<Rightarrow> lamport \<Rightarrow> bool" where
  "holds env c k v l \<longleftrightarrow> (\<exists>m. rc_data c = \<lparr>nd_key = k, nd_meta = Some m\<rparr> \<and> md_clock m = l \<and>
     meta_value (pe_kv env) m = Some v \<and> md_data_size m = size_of v \<and> meta_ok (pe_kv env) m)"

lemma create_ctx_node_spec:
  assumes "penv_ok env cap" "length v \<le> cap" "length k < 2 ^ 64"
    and c: "ctx_at st cid = Some c"
    and val: "val = (if v = [] then \<lparr>span_size = 0, span_buf = None\<rparr>
          else \<lparr>span_size = size_of v, span_buf = Some (v @ vrest)\<rparr>)"
  obtains n where
    "create_ctx_node env st cid \<lparr>span_size = size_of k, span_buf = Some (k @ krest)\<rparr> val =
       Some (set_ctx (st\<lparr>ab_kv := (ab_kv st)\<lparr>kv_next := Suc (kv_next (ab_kv st))\<rparr>\<rparr>) cid (c\<lparr>rc_data := n\<rparr>))"
    "holds env (c\<lparr>rc_data := n\<rparr>) k v lamport_min"
proof -
  let ?p = "if v = [] then None else Some (v @ vrest)"
  obtain m where m:
    "create_node (pe_kv env) (ab_kv st) (size_of k) (k @ krest) (size_of v) ?p lamport_min =
       Some ((ab_kv st)\<lparr>kv_next := Suc (kv_next (ab_kv st))\<rparr>, \<lparr>nd_key = k, nd_meta = Some m\<rparr>)"
    "meta_value (pe_kv env) m = Some v" "md_clock m = lamport_min" "md_data_size m = size_of v"
    "meta_ok (pe_kv env) m"
    by (rule create_node_ok [OF penv_okD(1) [OF assms(1)] assms(2,3), of ?p vrest]) auto
  have v: "span_size val = size_of v" "span_buf val = ?p" by (simp_all add: val)
  show ?thesis
    using m ctx_atD [OF c]
    by (intro that [of "\<lparr>nd_key = k, nd_meta = Some m\<rparr>"])
      (simp_all add: create_ctx_node_def v deref_def set_ctx_data_def ctx_at_def holds_def)
qed

text \<open>The state in which a new context with index \<open>length (ab_ctxs st)\<close> holds node \<open>n\<close>.\<close>

definition with_ctx :: "'s abd \<Rightarrow> nat option \<Rightarrow> node \<Rightarrow> 's abd" where
  "with_ctx st h n = st\<lparr>ab_kv := (ab_kv st)\<lparr>kv_next := Suc (kv_next (ab_kv st))\<rparr>,
     ab_ctxs := ab_ctxs st @ [(rc_create (ab_max_package_size st) h)\<lparr>rc_data := n\<rparr>]\<rparr>"

lemma ctx_at_new:
  "ctx_at (fst (create_rep_context st h)) (length (ab_ctxs st)) = Some (rc_create (ab_max_package_size st) h)"
  by (simp add: ctx_at_def)

lemma with_ctx_sel [simp]:
  "ab_replicas (with_ctx st h n) = ab_replicas st" "ab_cipher (with_ctx st h n) = ab_cipher st"
  "ab_out (with_ctx st h n) = ab_out st" "ab_current_traces (with_ctx st h n) = ab_current_traces st"
  "ab_m_id (with_ctx st h n) = ab_m_id st"
  "ctx_at (with_ctx st h n) (length (ab_ctxs st)) =
     Some ((rc_create (ab_max_package_size st) h)\<lparr>rc_data := n\<rparr>)"
  "kv_look env (ab_kv (with_ctx st h n)) = kv_look env (ab_kv st)"
  by (simp_all add: with_ctx_def ctx_at_def kv_look_def fun_eq_iff)

lemma with_ctx_wf [simp]: "abd_wf env (with_ctx st h n) = abd_wf env st"
  by (simp add: abd_wf_def with_ctx_def kv_wf_def)

lemma create_ctx_node_new:
  assumes "penv_ok env cap" "length v \<le> cap" "length k < 2 ^ 64"
    and val: "val = (if v = [] then \<lparr>span_size = 0, span_buf = None\<rparr>
          else \<lparr>span_size = size_of v, span_buf = Some (v @ vrest)\<rparr>)"
  obtains n where
    "create_ctx_node env (st\<lparr>ab_ctxs := ab_ctxs st @ [rc_create (ab_max_package_size st) h]\<rparr>)
       (length (ab_ctxs st)) \<lparr>span_size = size_of k, span_buf = Some (k @ krest)\<rparr> val =
     Some (with_ctx st h n)"
    "holds env ((rc_create (ab_max_package_size st) h)\<lparr>rc_data := n\<rparr>) k v lamport_min"
proof -
  have "ctx_at (st\<lparr>ab_ctxs := ab_ctxs st @ [rc_create (ab_max_package_size st) h]\<rparr>) (length (ab_ctxs st)) =
      Some (rc_create (ab_max_package_size st) h)"
    by (simp add: ctx_at_def)
  then obtain n where
    "create_ctx_node env (st\<lparr>ab_ctxs := ab_ctxs st @ [rc_create (ab_max_package_size st) h]\<rparr>)
       (length (ab_ctxs st)) \<lparr>span_size = size_of k, span_buf = Some (k @ krest)\<rparr> val =
     Some (set_ctx (st\<lparr>ab_ctxs := ab_ctxs st @ [rc_create (ab_max_package_size st) h],
             ab_kv := (ab_kv st)\<lparr>kv_next := Suc (kv_next (ab_kv st))\<rparr>\<rparr>) (length (ab_ctxs st))
             ((rc_create (ab_max_package_size st) h)\<lparr>rc_data := n\<rparr>))"
    "holds env ((rc_create (ab_max_package_size st) h)\<lparr>rc_data := n\<rparr>) k v lamport_min"
    by (rule create_ctx_node_spec [OF assms(1-3) _ val, where krest = krest]) (auto intro: that)
  then show ?thesis by (intro that [of n]) (simp_all add: with_ctx_def set_ctx_def)
qed

lemma traces_wf [simp]:
  "abd_wf env (increment_traces st) = abd_wf env st" "abd_wf env (decrement_traces st) = abd_wf env st"
  by (simp_all add: abd_wf_def)

text \<open>The common start of all four operations: a context, the pending node, the first fan-out.\<close>

lemma start_op:
  assumes ok: "penv_ok env cap" "abd_wf env st" "ev_ok env ev"
    and key: "k \<noteq> []" "length k < 2 ^ 64" "length v \<le> cap"
    and m: "length mk + length mv + 44 < 2 ^ 64"
    and reps: "ab_replicas st \<noteq> []" "key_group st k \<noteq> []"
    and val: "val = (if v = [] then \<lparr>span_size = 0, span_buf = None\<rparr>
          else \<lparr>span_size = size_of v, span_buf = Some (v @ vrest)\<rparr>)"
    and cid: "cid = length (ab_ctxs st)"
  obtains st' n c where
    "do {
       st \<leftarrow> create_ctx_node env (st\<lparr>ab_ctxs := ab_ctxs st @ [rc_create (ab_max_package_size st) h]\<rparr>)
              (length (ab_ctxs st)) \<lparr>span_size = size_of k, span_buf = Some (k @ krest)\<rparr> val;
       abd_send_msg env ev st cid \<lparr>span_size = size_of k, span_buf = Some (k @ krest)\<rparr> rt cont (encoded mk mv [])
     } = Some st'"
    "c = (rc_create (ab_max_package_size st) h)\<lparr>rc_data := n\<rparr>" "holds env c k v lamport_min"
    "sends env (with_ctx st h n) c (length (ab_ctxs st)) (key_group st k) rt cont mk mv st'"
proof -
  obtain n where n: "create_ctx_node env (st\<lparr>ab_ctxs := ab_ctxs st @ [rc_create (ab_max_package_size st) h]\<rparr>)
       (length (ab_ctxs st)) \<lparr>span_size = size_of k, span_buf = Some (k @ krest)\<rparr> val = Some (with_ctx st h n)"
    "holds env ((rc_create (ab_max_package_size st) h)\<lparr>rc_data := n\<rparr>) k v lamport_min"
    by (rule create_ctx_node_new [OF ok(1) key(3,2) val]) (rule that)
  let ?w = "with_ctx st h n" and ?c = "(rc_create (ab_max_package_size st) h)\<lparr>rc_data := n\<rparr>"
  have "abd_wf env ?w" "ctx_at ?w (length (ab_ctxs st)) = Some ?c" "ab_replicas ?w \<noteq> []" "key_group ?w k \<noteq> []"
    using ok(2) reps by simp_all
  then obtain st' where
    "abd_send_msg env ev ?w (length (ab_ctxs st)) \<lparr>span_size = size_of k, span_buf = Some (k @ krest)\<rparr>
       rt cont (encoded mk mv []) = Some st'"
    "sends env ?w ?c (length (ab_ctxs st)) (key_group ?w k) rt cont mk mv st'"
    by (elim abd_send_msg_spec [OF ok(1) _ ok(3) key(1,2) _ _ _ m, of ?w]) (auto intro: that)
  with n cid show ?thesis by (intro that [of st' ?c n]) simp_all
qed

text \<open>
  A put starts with a timestamp query to the group of its key.  The pending node holds key and value;
  the store still has its old content.
\<close>

lemma benchmark_put_spec:
  assumes ok: "penv_ok env cap" "abd_wf env st" "ev_ok env ev"
    and key: "k \<noteq> []" "length v \<le> cap" "length k + length v + 44 < 2 ^ 64"
    and reps: "ab_replicas st \<noteq> []" "key_group st k \<noteq> []"
  obtains n st' c where "benchmark_put env ev st (encoded k v []) = Some st'"
    "c = (rc_create (ab_max_package_size st) None)\<lparr>rc_data := n\<rparr>" "holds env c k v lamport_min"
    "sends env (with_ctx (increment_traces st) None n) c (length (ab_ctxs st)) (key_group st k) GetTimeStamp GetTime k [] st'"
proof -
  let ?st = "increment_traces st" and ?val = "if v = [] then \<lparr>span_size = 0, span_buf = None\<rparr>
          else \<lparr>span_size = size_of v, span_buf = Some (v @ [])\<rparr>"
  have "abd_wf env ?st" "length k < 2 ^ 64" "length k + length ([] :: bytes) + 44 < 2 ^ 64"
    "ab_replicas ?st \<noteq> []" "key_group ?st k \<noteq> []"
    using ok(2) key reps by simp_all
  note start = start_op [OF ok(1) this(1) ok(3) key(1) this(2) key(2) this(3-5) refl refl,
      where h = None and krest = v and vrest = "[]" and rt = GetTimeStamp and cont = GetTime]
  obtain st' n c where st': "do {
       st \<leftarrow> create_ctx_node env (?st\<lparr>ab_ctxs := ab_ctxs ?st @ [rc_create (ab_max_package_size ?st) None]\<rparr>)
              (length (ab_ctxs ?st)) \<lparr>span_size = size_of k, span_buf = Some (k @ v)\<rparr> ?val;
       abd_send_msg env ev st (length (ab_ctxs ?st)) \<lparr>span_size = size_of k, span_buf = Some (k @ v)\<rparr>
         GetTimeStamp GetTime (encoded k [] [])
     } = Some st'"
    "c = (rc_create (ab_max_package_size ?st) None)\<lparr>rc_data := n\<rparr>" "holds env c k v lamport_min"
    "sends env (with_ctx ?st None n) c (length (ab_ctxs ?st)) (key_group ?st k) GetTimeStamp GetTime k [] st'"
    by (rule start) (rule that)
  have build: "Option.bind (builder_new (size_of k)) (\<lambda>b. add_key 1 b (k @ v) (size_of k)) = Some (encoded k [] [])"
    using mb.build_key [of k] key by (simp add: add_key_def unat_size_of mem_simps)
  have "benchmark_put env ev st (encoded k v []) = Some st'"
    using st'(1) build key
    by (auto simp: benchmark_put_def mem_simps deref_def builder_finish_def create_rep_context_def Let_def
        bind_eq_Some_conv split: if_splits)
  with st' show ?thesis by (intro that [of st' c n]) simp_all
qed

text \<open>A get starts with a value query to the group of its key.\<close>

lemma benchmark_get_spec:
  assumes ok: "penv_ok env cap" "abd_wf env st" "ev_ok env ev"
    and key: "k \<noteq> []" "length k + length v + 44 < 2 ^ 64"
    and reps: "ab_replicas st \<noteq> []" "key_group st k \<noteq> []"
  obtains st' n c where "benchmark_get env ev st (encoded k v []) = Some st'"
    "c = (rc_create (ab_max_package_size st) None)\<lparr>rc_data := n\<rparr>" "holds env c k [] lamport_min"
    "sends env (with_ctx (increment_traces st) None n) c (length (ab_ctxs st)) (key_group st k)
       GetValueTimeStamp RetValue k v st'"
proof -
  let ?st = "increment_traces st"
  have "abd_wf env ?st" "length k < 2 ^ 64" "length ([] :: bytes) \<le> cap"
    "ab_replicas ?st \<noteq> []" "key_group ?st k \<noteq> []"
    using ok(2) key reps by simp_all
  note start = start_op [OF ok(1) this(1) ok(3) key(1) this(2,3) key(2) this(4,5) refl refl,
      where h = None and krest = v and vrest = "[]" and rt = GetValueTimeStamp and cont = RetValue]
  show ?thesis
  proof (rule start)
    fix st' n c
    assume st': "do {
       st \<leftarrow> create_ctx_node env (?st\<lparr>ab_ctxs := ab_ctxs ?st @ [rc_create (ab_max_package_size ?st) None]\<rparr>)
              (length (ab_ctxs ?st)) \<lparr>span_size = size_of k, span_buf = Some (k @ v)\<rparr>
              (if [] = [] then \<lparr>span_size = 0, span_buf = None\<rparr>
               else \<lparr>span_size = size_of [], span_buf = Some ([] @ [])\<rparr>);
       abd_send_msg env ev st (length (ab_ctxs ?st)) \<lparr>span_size = size_of k, span_buf = Some (k @ v)\<rparr>
         GetValueTimeStamp RetValue (encoded k v [])
     } = Some st'"
      "c = (rc_create (ab_max_package_size ?st) None)\<lparr>rc_data := n\<rparr>" "holds env c k [] lamport_min"
      "sends env (with_ctx ?st None n) c (length (ab_ctxs ?st)) (key_group ?st k) GetValueTimeStamp RetValue k v st'"
    have "benchmark_get env ev st (encoded k v []) = Some st'"
      using st'(1) key by (simp add: benchmark_get_def mem_simps create_rep_context_def Let_def)
    with st' show ?thesis by (intro that [of st' c n]) simp_all
  qed
qed

lemma handle_put_spec:
  assumes ok: "penv_ok env cap" "abd_wf env st" "ev_ok env ev"
    and key: "k \<noteq> []" "length v \<le> cap" and req: "packet_of env st req k v"
    and reps: "ab_replicas st \<noteq> []" "key_group st k \<noteq> []"
  obtains st' n c where "handle_put env ev st h req = Some st'"
    "c = (rc_create (ab_max_package_size st) (Some h))\<lparr>rc_data := n\<rparr>" "holds env c k v lamport_min"
    "sends env (with_ctx st (Some h) n) c (length (ab_ctxs st)) (key_group st k) GetTimeStamp GetTime k v st'"
proof -
  have fit: "length k + length v + 44 < 2 ^ 64" by (rule carries_fits [OF req])
  then have "length k < 2 ^ 64" by simp
  note start = start_op [OF ok key(1) this key(2) fit reps refl refl,
      where h = "Some h" and krest = v and vrest = "[]" and rt = GetTimeStamp and cont = GetTime]
  let ?st = "st\<lparr>ab_ctxs := ab_ctxs st @ [rc_create (ab_max_package_size st) (Some h)]\<rparr>"
  have "abd_wf env ?st" "packet_of env ?st req k v" using ok(2) req by (simp_all add: abd_wf_def)
  note data = get_data_carries [OF ok(1) this]
  show ?thesis
  proof (rule start)
    fix st' n c
    assume st': "do {
       st1 \<leftarrow> create_ctx_node env ?st (length (ab_ctxs st)) \<lparr>span_size = size_of k, span_buf = Some (k @ v)\<rparr>
              (if v = [] then \<lparr>span_size = 0, span_buf = None\<rparr>
               else \<lparr>span_size = size_of v, span_buf = Some (v @ [])\<rparr>);
       abd_send_msg env ev st1 (length (ab_ctxs st)) \<lparr>span_size = size_of k, span_buf = Some (k @ v)\<rparr>
         GetTimeStamp GetTime (encoded k v [])
     } = Some st'"
      "c = (rc_create (ab_max_package_size st) (Some h))\<lparr>rc_data := n\<rparr>" "holds env c k v lamport_min"
      "sends env (with_ctx st (Some h) n) c (length (ab_ctxs st)) (key_group st k) GetTimeStamp GetTime k v st'"
    have "handle_put env ev st h req = Some st'"
      using st'(1) fit data
      by (cases "v = []") (simp_all add: handle_put_def mem_simps create_rep_context_def Let_def)
    with st' show ?thesis by (intro that [of st' c n]) simp_all
  qed
qed

lemma handle_get_spec:
  assumes ok: "penv_ok env cap" "abd_wf env st" "ev_ok env ev"
    and key: "k \<noteq> []" and req: "packet_of env st req k v"
    and reps: "ab_replicas st \<noteq> []" "key_group st k \<noteq> []"
  obtains st' n c where "handle_get env ev st h req = Some st'"
    "c = (rc_create (ab_max_package_size st) (Some h))\<lparr>rc_data := n\<rparr>" "holds env c k [] lamport_min"
    "sends env (with_ctx st (Some h) n) c (length (ab_ctxs st)) (key_group st k) GetValueTimeStamp RetValue k v st'"
proof -
  have fit: "length k + length v + 44 < 2 ^ 64" by (rule carries_fits [OF req])
  then have "length k < 2 ^ 64" "length ([] :: bytes) \<le> cap" by simp_all
  note start = start_op [OF ok key this fit reps refl refl,
      where h = "Some h" and krest = v and vrest = "[]" and rt = GetValueTimeStamp and cont = RetValue]
  let ?st = "st\<lparr>ab_ctxs := ab_ctxs st @ [rc_create (ab_max_package_size st) (Some h)]\<rparr>"
  have "abd_wf env ?st" "packet_of env ?st req k v" using ok(2) req by (simp_all add: abd_wf_def)
  note data = get_data_carries [OF ok(1) this]
  show ?thesis
  proof (rule start)
    fix st' n c
    assume st': "do {
       st1 \<leftarrow> create_ctx_node env ?st (length (ab_ctxs st)) \<lparr>span_size = size_of k, span_buf = Some (k @ v)\<rparr>
              (if [] = [] then \<lparr>span_size = 0, span_buf = None\<rparr>
               else \<lparr>span_size = size_of [], span_buf = Some ([] @ [])\<rparr>);
       abd_send_msg env ev st1 (length (ab_ctxs st)) \<lparr>span_size = size_of k, span_buf = Some (k @ v)\<rparr>
         GetValueTimeStamp RetValue (encoded k v [])
     } = Some st'"
      "c = (rc_create (ab_max_package_size st) (Some h))\<lparr>rc_data := n\<rparr>" "holds env c k [] lamport_min"
      "sends env (with_ctx st (Some h) n) c (length (ab_ctxs st)) (key_group st k) GetValueTimeStamp RetValue k v st'"
    have "handle_get env ev st h req = Some st'"
      using st'(1) fit data by (simp add: handle_get_def mem_simps create_rep_context_def Let_def)
    with st' show ?thesis by (intro that [of st' c n]) simp_all
  qed
qed

end
