(* ===== verification/Protocol_Conts.thy ===== *)
theory Protocol_Conts
  imports Protocol_Fanout
begin

text \<open>
  The continuations: when they act (\<open>req_conts\<close> as a gate on the responses of one fan-out), the second
  phase of a put (\<open>cont_get_time\<close>) and the end of a get (\<open>cont_ret_value\<close>).
\<close>

section \<open>The gate\<close>

text \<open>
  What one response makes of a context, and whether the continuation acts on it.
\<close>

definition gate :: "replica_context \<Rightarrow> bytes \<Rightarrow> (replica_context \<times> bool) option" where
  "gate c resp = do {
     c \<leftarrow> add_to_cache c resp;
     let c = c\<lparr>rc_n_resp := Suc (rc_n_resp c)\<rparr>;
     let fires = (\<not> 2 * rc_n_resp c + 1 < rc_n_msgs c \<and> \<not> rc_done c);
     Some (c\<lparr>rc_done := (rc_done c \<or> fires)\<rparr>, fires)
   }"

lemma req_conts_gate:
  assumes "call \<noteq> CmdRet" "ctx_at st cid = Some c" "gate c resp = Some (c', fires)"
  shows "req_conts env ev st call cid resp =
    (if fires then req_conts_impl env ev (set_ctx st cid c') call (rc_n_resp c') cid
     else Some (set_ctx st cid c'))"
  using assms
  by (auto simp: req_conts_def gate_def Let_def bind_eq_Some_conv intro!: arg_cong [of _ _ "set_ctx st cid"])

fun gate_run :: "replica_context \<Rightarrow> bytes list \<Rightarrow> (replica_context \<times> bool list) option" where
  "gate_run c [] = Some (c, [])"
| "gate_run c (r # rs) = do {
     (c, f) \<leftarrow> gate c r;
     (c, fs) \<leftarrow> gate_run c rs;
     Some (c, f # fs)
   }"

text \<open>The number of responses a fan-out to \<open>n\<close> replicas waits for.\<close>

definition quorum :: "nat \<Rightarrow> nat" where
  "quorum n = max 1 (n div 2)"

lemma quorum_iff: "0 < r \<Longrightarrow> \<not> 2 * r + 1 < n \<longleftrightarrow> quorum n \<le> r"
  by (auto simp: quorum_def)

lemma gate_total:
  assumes "28 < length r" "length r < 2 ^ 64"
  obtains c' where "gate c r = Some (c', quorum (rc_n_msgs c) \<le> Suc (rc_n_resp c) \<and> \<not> rc_done c)"
    "rc_n_msgs c' = rc_n_msgs c" "rc_n_resp c' = Suc (rc_n_resp c)"
    "rc_done c' = (rc_done c \<or> quorum (rc_n_msgs c) \<le> Suc (rc_n_resp c))"
    "rc_cache c' = rc_cache c @ [r]" "rc_data c' = rc_data c"
    "rc_max_package_size c' = rc_max_package_size c" "rc_handle c' = rc_handle c"
proof -
  let ?sz = "of_nat (length r - 28) :: u64"
  let ?c = "c\<lparr>rc_max_resp_size := if ?sz > rc_max_resp_size c then ?sz else rc_max_resp_size c,
      rc_cache := rc_cache c @ [r], rc_n_resp := Suc (rc_n_resp c),
      rc_done := rc_done c \<or> quorum (rc_n_msgs c) \<le> Suc (rc_n_resp c)\<rparr>"
  have "get_message_size (size_of r) = Some ?sz" using assms by (simp add: message_size_Some_iff)
  then have "gate c r = Some (?c, quorum (rc_n_msgs c) \<le> Suc (rc_n_resp c) \<and> \<not> rc_done c)"
    using quorum_iff [of "Suc (rc_n_resp c)" "rc_n_msgs c"]
    by (auto simp: gate_def add_to_cache_def Let_def simp del: of_nat_diff)
  then show ?thesis by (rule that) simp_all
qed

lemma gate_wf:
  assumes "gate c r = Some (c', f)" "rc_wf c" "length r < 2 ^ 64"
  shows "rc_wf c'"
proof -
  obtain c1 d where c1: "add_to_cache c r = Some c1"
    "c' = c1\<lparr>rc_n_resp := Suc (rc_n_resp c1), rc_done := d\<rparr>"
    using assms(1) by (auto simp: gate_def bind_eq_Some_conv Let_def)
  have "rc_n_resp c1 = rc_n_resp c"
    using c1(1) by (auto simp: add_to_cache_def bind_eq_Some_conv)
  then have "rc_wf (c1\<lparr>rc_n_resp := Suc (rc_n_resp c1)\<rparr>)"
    using add_to_cache_wf [OF c1(1) assms(2,3)] by simp
  then show ?thesis unfolding c1(2) by (simp add: rc_wf_def)
qed

text \<open>
  A fan-out acts on exactly one response: the one that completes the quorum.  Later responses are
  cached and counted only.
\<close>

lemma gate_run_fires:
  assumes "\<forall>r \<in> set rs. 28 < length r \<and> length r < 2 ^ 64" "rc_done c \<longleftrightarrow> quorum (rc_n_msgs c) \<le> rc_n_resp c"
  obtains c' where
    "gate_run c rs = Some (c', map (\<lambda>i. rc_n_resp c + Suc i = quorum (rc_n_msgs c)) [0..<length rs])"
    "rc_n_resp c' = rc_n_resp c + length rs" "rc_cache c' = rc_cache c @ rs" "rc_wf c \<longrightarrow> rc_wf c'"
  using assms
proof (induction rs arbitrary: c thesis)
  case Nil
  then show ?case by simp
next
  case (Cons r rs)
  let ?q = "quorum (rc_n_msgs c)"
  obtain c1 where c1: "gate c r = Some (c1, ?q \<le> Suc (rc_n_resp c) \<and> \<not> rc_done c)"
    "rc_n_msgs c1 = rc_n_msgs c" "rc_n_resp c1 = Suc (rc_n_resp c)"
    "rc_done c1 = (rc_done c \<or> ?q \<le> Suc (rc_n_resp c))" "rc_cache c1 = rc_cache c @ [r]"
    using gate_total [of r c] Cons.prems(2) by auto
  have wf1: "rc_wf c \<Longrightarrow> rc_wf c1" using gate_wf [OF c1(1)] Cons.prems(2) by simp
  obtain c2 where c2:
    "gate_run c1 rs = Some (c2, map (\<lambda>i. rc_n_resp c1 + Suc i = quorum (rc_n_msgs c1)) [0..<length rs])"
    "rc_n_resp c2 = rc_n_resp c1 + length rs" "rc_cache c2 = rc_cache c1 @ rs" "rc_wf c1 \<longrightarrow> rc_wf c2"
    using Cons.prems(2,3) c1(2-4) by (rule_tac Cons.IH [of c1]) auto
  have upt: "[0..<length (r # rs)] = 0 # map Suc [0..<length rs]"
    by (simp add: map_Suc_upt upt_conv_Cons del: upt_Suc)
  have first: "(?q \<le> Suc (rc_n_resp c) \<and> \<not> rc_done c) \<longleftrightarrow> rc_n_resp c + Suc 0 = ?q"
    using Cons.prems(3) by auto
  have "gate_run c (r # rs) = Some (c2, map (\<lambda>i. rc_n_resp c + Suc i = ?q) [0..<length (r # rs)])"
    unfolding gate_run.simps c1(1) first upt using c2(1) c1(2,3) by (simp add: comp_def)
  then show ?case using c1(3,5) c2(2-4) wf1 by (intro Cons.prems(1) [of c2]) auto
qed

section \<open>The second phase of a put\<close>

lemma max_count_clock:
  "max_count n (encoded (lamport_bytes l) [] rest) = Some (max n (get_count l))"
  using get_lamport_bare [of l rest]
  by (auto simp: max_count_def mem_simps max_def)

text \<open>The counter the coordinator continues from: the largest of its own and the responses'.\<close>

definition top_count :: "u32 \<Rightarrow> lamport list \<Rightarrow> u32" where
  "top_count n ls = foldl max n (map get_count ls)"

lemma top_count_ge:
  "n \<le> top_count n ls" "l \<in> set ls \<Longrightarrow> get_count l \<le> top_count n ls"
  by (auto simp: top_count_def intro: foldl_max_ge)

lemma u32_suc_greater: "(x :: u32) < - 1 \<Longrightarrow> y \<le> x \<Longrightarrow> y < x + 1"
proof -
  assume x: "x < - 1" and y: "y \<le> x"
  have sum: "unat (x + 1) = (unat x + 1) mod 2 ^ 32" by (simp add: unat_word_ariths)
  have "x + 1 \<noteq> 0" using x by (metis add_eq_0_iff2 less_irrefl)
  then have "unat (x + 1) \<noteq> 0" by (simp add: unat_eq_zero)
  moreover have "unat x < 2 ^ 32" using unat_u32_bound [of x] by simp
  ultimately have "unat (x + 1) = unat x + 1"
    using sum by (cases "unat x + 1 = 2 ^ 32") simp_all
  with y show ?thesis by (simp add: word_less_nat_alt word_le_nat_alt)
qed

text \<open>Unless the counter is exhausted, the next clock is above all clocks that went into it.\<close>

lemma next_clock_greater:
  assumes "top_count (get_count l0) ls < - 1" "l \<in> insert l0 (set ls)"
  shows "l < Lamport (top_count (get_count l0) ls + 1) i"
  using assms top_count_ge [where n = "get_count l0" and ls = ls]
  by (intro lamport_less_if_count_less) (auto intro: u32_suc_greater)

text \<open>
  The clock messages a timestamp query collects, in the order of arrival.
\<close>

definition clock_responses :: "('s, 'p) penv \<Rightarrow> 's abd \<Rightarrow> replica_context \<Rightarrow> lamport list \<Rightarrow> bool" where
  "clock_responses env st c ls \<longleftrightarrow>
     list_all2 (\<lambda>r l. packet_of env st r (lamport_bytes l) []) (rc_cache c) ls"

lemma reduce_max_count:
  assumes ok: "penv_ok env cap" "abd_wf env st" and rs: "clock_responses env st c ls" and wf: "rc_wf c"
  shows "reduce_resp (pe_evp env) (ab_cipher st) c max_count n = Some (top_count n ls)"
proof -
  let ?m = "\<lambda>l. encoded (lamport_bytes l) [] []"
  have "list_all2 (carries (pe_evp env) (ab_cipher st)) (rc_cache c) (map ?m ls)"
    using rs by (simp add: clock_responses_def list_all2_map2)
  moreover have "evp_ok (pe_evp env)" "key_iv_wf (ab_cipher st)" using ok by (auto simp: penv_okD abd_wf_def)
  ultimately have "reduce_resp (pe_evp env) (ab_cipher st) c max_count n =
      Some (foldl (\<lambda>n m. max n (get_count (lamport_of_bytes (drop 16 m)))) n (map ?m ls))"
    using wf by (intro reduce_resp_carries(1) [where P = "\<lambda>_. True"])
      (auto simp: encoded_rest [symmetric] max_count_clock mem_simps)
  then show ?thesis
    by (simp add: top_count_def foldl_map mem_simps)
qed

text \<open>
  The continuation sends the pending value with the next clock to the group, and puts it into the
  local store.
\<close>

lemma kv_put_alone:
  assumes env: "env_ok env cap" and wf: "kv_wf env st"
    and m: "meta_value env m = Some v" "meta_ok env m"
  obtains st' where
    "kv_put env [] st \<lparr>nd_key = k, nd_meta = Some m\<rparr> =
       Some (st', kv_look env st k = None \<or> old_clock (kv_look env st k) < md_clock m)"
    "kv_wf env st'" "kv_look env st' = (kv_look env st)(k \<mapsto> newer (kv_look env st k) (md_clock m, v))"
proof -
  let ?n = "\<lparr>nd_key = k, nd_meta = Some m\<rparr>"
  have n: "nd_meta ?n = Some m" by simp
  obtain st' b m' where put: "kv_put env [] st ?n = Some (st', b)" "kv_wf env st'"
    "kv_look env st' = (kv_look env st)(k := map_option (\<lambda>v. (md_clock m', v)) (meta_value env m'))"
    "b \<Longrightarrow> m' = m" "kv_look env st k = None \<Longrightarrow> b \<and> m' = m"
    "\<And>c v. kv_look env st k = Some (c, v) \<Longrightarrow>
       b = (c < md_clock m) \<and> (c < md_clock m \<or> md_clock m' = c \<and> meta_value env m' = Some v)"
    by (rule kv_put_general [OF env wf n m(2), where as = "[]"]) simp_all
  show ?thesis
  proof (cases "kv_look env st k")
    case None
    with put m show ?thesis by (intro that [of st']) simp_all
  next
    case (Some cv)
    obtain c0 v0 where cv: "cv = (c0, v0)" by (cases cv)
    have b: "b = (c0 < md_clock m)" and m': "c0 < md_clock m \<or> md_clock m' = c0 \<and> meta_value env m' = Some v0"
      using put(6) [of c0 v0] Some cv by simp_all
    have "kv_look env st' = (kv_look env st)(k \<mapsto> newer (kv_look env st k) (md_clock m, v))"
      using put(3,4) Some cv b m' m(1) by (cases "c0 < md_clock m") simp_all
    with put(1,2) Some cv b show ?thesis by (intro that [of st']) simp_all
  qed
qed

text \<open>
  The continuation up to its last call, the put into the local store.  Between its read of the store
  and this put other threads of the process may use the store (theory \<open>Process\<close>).
\<close>

definition cont_get_time_send ::
  "('s, 'p) penv \<Rightarrow> event \<Rightarrow> 's abd \<Rightarrow> nat \<Rightarrow> ('s abd \<times> node) option" where
  "cont_get_time_send env ev st cid = do {
     c \<leftarrow> ctx_at st cid;
     let node = rc_data c;
     local_resp \<leftarrow> kv_get (pe_kv env) (ab_kv st) node;
     mx \<leftarrow> reduce_resp (pe_evp env) (ab_cipher st) c max_count (get_count (rv_lamport local_resp));
     let (st, put_cid) = create_rep_context st (rc_handle c);
     meta \<leftarrow> nd_meta node;
     b \<leftarrow> builder_new (add_meta_size (size_of (nd_key node)) + md_data_size meta);
     let clock = Lamport (mx + 1) (ab_m_id st);
     res \<leftarrow> decrypt_node (pe_kv env) node;
     b \<leftarrow> add_key 1 b (nd_key node) (size_of (nd_key node));
     b \<leftarrow> add_key 8 b (lamport_bytes clock) 1;
     b \<leftarrow> add_value 1 b (deref (rv_value res)) (rv_size res);
     st \<leftarrow> abd_send_msg env ev st put_cid (node_span node) PutReplica AckPutTime (builder_finish b);
     let node = node\<lparr>nd_meta := Some (meta\<lparr>md_clock := clock\<rparr>)\<rparr>;
     st \<leftarrow> set_ctx_data st cid node;
     Some (st, node)
   }"

lemma cont_get_time_split:
  "cont_get_time env ev st cid = do {
     (st, n) \<leftarrow> cont_get_time_send env ev st cid;
     (kv, res) \<leftarrow> kv_put (pe_kv env) (ev_attempts ev) (ab_kv st) n;
     Some (st\<lparr>ab_kv := kv\<rparr>)
   }"
  by (simp add: cont_get_time_def cont_get_time_send_def Let_def case_prod_unfold)

lemma cont_get_time_send_spec:
  fixes st :: "'s abd"
  assumes ok: "penv_ok env cap" "abd_wf env st" "ev_ok env ev"
    and ctx: "ctx_at st cid = Some c" "holds env c k v l0" "rc_wf c" "clock_responses env st c ls"
    and key: "k \<noteq> []" "length k + length v + 52 < 2 ^ 64"
    and reps: "ab_replicas st \<noteq> []" "key_group st k \<noteq> []"
    and clock: "clock = Lamport (top_count (get_count (old_clock (look env st k))) ls + 1) (ab_m_id st)"
  obtains st1 st' m where
    "cont_get_time_send env ev st cid = Some (st', \<lparr>nd_key = k, nd_meta = Some m\<rparr>)"
    "meta_value (pe_kv env) m = Some v" "md_clock m = clock" "meta_ok (pe_kv env) m"
    "sends env (fst (create_rep_context st (rc_handle c))) (rc_create (ab_max_package_size st) (rc_handle c))
       (length (ab_ctxs st)) (key_group st k) PutReplica AckPutTime (k @ lamport_bytes clock) v st1"
    "st' = set_ctx st1 cid (c\<lparr>rc_data := \<lparr>nd_key = k, nd_meta = Some m\<rparr>\<rparr>)" "ab_kv st1 = ab_kv st" "abd_wf env st1"
proof -
  obtain m where m: "rc_data c = \<lparr>nd_key = k, nd_meta = Some m\<rparr>" "meta_value (pe_kv env) m = Some v"
    "md_data_size m = size_of v" "meta_ok (pe_kv env) m"
    using ctx(2) by (auto simp: holds_def)
  let ?st1 = "fst (create_rep_context st (rc_handle c))" and ?cid = "length (ab_ctxs st)"
    and ?c1 = "rc_create (ab_max_package_size st) (rc_handle c)"
  have wf1: "abd_wf env ?st1" using ok(2) by (simp add: abd_wf_def)
  have len: "length k < 2 ^ 64" "length (k @ lamport_bytes clock) + length v + 44 < 2 ^ 64" using key by simp_all
  have "ab_replicas ?st1 \<noteq> []" "key_group ?st1 k \<noteq> []" using reps by simp_all
  then obtain st1 where st1:
    "abd_send_msg env ev ?st1 ?cid \<lparr>span_size = size_of k, span_buf = Some (k @ [])\<rparr> PutReplica AckPutTime
       (encoded (k @ lamport_bytes clock) v []) = Some st1"
    "sends env ?st1 ?c1 ?cid (key_group ?st1 k) PutReplica AckPutTime (k @ lamport_bytes clock) v st1"
    by (rule abd_send_msg_spec [OF ok(1) wf1 ok(3) key(1) len(1) _ _ ctx_at_new len(2)]) (rule that)
  let ?m = "m\<lparr>md_clock := clock\<rparr>"
  have "map_option (\<lambda>r. get_count (rv_lamport r)) (kv_get (pe_kv env) (ab_kv st) (rc_data c)) =
      Some (get_count (old_clock (look env st k)))"
    using ok kv_get_look [of "pe_kv env" cap "ab_kv st" "rc_data c"] m(1)
    by (auto simp: penv_okD abd_wf_def split: option.splits prod.splits)
  then obtain res where res: "kv_get (pe_kv env) (ab_kv st) \<lparr>nd_key = k, nd_meta = Some m\<rparr> = Some res"
    "get_count (rv_lamport res) = get_count (old_clock (look env st k))"
    by (auto simp: m(1))
  note red = reduce_max_count [OF ok(1,2) ctx(4,3), of "get_count (old_clock (look env st k))"]
  have dec: "decrypt_node (pe_kv env) \<lparr>nd_key = k, nd_meta = Some m\<rparr> =
      Some \<lparr>rv_lamport = md_clock m, rv_size = size_of v, rv_value = Some v\<rparr>"
    using m by (simp add: decrypt_node_ok)
  have build: "do {
      b \<leftarrow> builder_new (add_meta_size (size_of k) + size_of v);
      b \<leftarrow> add_key 1 b k (size_of k);
      b \<leftarrow> add_key 8 b (lamport_bytes clock) 1;
      add_value 1 b v (size_of v)
    } = Some (encoded (k @ lamport_bytes clock) v [])"
    using build_key_clock_value [of k v "[]" clock "[]"] key by simp
  have cid: "cid < length (ab_ctxs st)" "ab_ctxs st ! cid = c" by (rule ctx_atD [OF ctx(1)])+
  have ctx1: "ctx_at st1 cid = Some c" and kv1: "ab_kv st1 = ab_kv st"
    using sendsD [OF st1(2)] cid by (auto simp: ctx_at_def nth_append)
  have "cont_get_time_send env ev st cid =
      Some (set_ctx st1 cid (c\<lparr>rc_data := \<lparr>nd_key = k, nd_meta = Some ?m\<rparr>\<rparr>), \<lparr>nd_key = k, nd_meta = Some ?m\<rparr>)"
    using st1(1) res red build dec ctx1
    by (auto simp: cont_get_time_send_def ctx(1) m(1,3) Let_def node_span_def builder_finish_def deref_def
        set_ctx_data_def create_rep_context_def clock bind_eq_Some_conv)
  moreover have "meta_value (pe_kv env) ?m = Some v" "meta_ok (pe_kv env) ?m" "md_clock ?m = clock"
    using m(2,4) by (simp_all add: meta_value_def meta_ok_def)
  ultimately show ?thesis
    using st1(2) kv1 sendsD(1) [OF st1(2) wf1] by (intro that [of _ ?m st1]) simp_all
qed

lemma cont_get_time_spec:
  fixes st :: "'s abd"
  assumes ok: "penv_ok env cap" "abd_wf env st" "ev_ok env ev" "ev_attempts ev = []"
    and ctx: "ctx_at st cid = Some c" "holds env c k v l0" "rc_wf c" "clock_responses env st c ls"
    and key: "k \<noteq> []" "length k + length v + 52 < 2 ^ 64"
    and reps: "ab_replicas st \<noteq> []" "key_group st k \<noteq> []"
    and clock: "clock = Lamport (top_count (get_count (old_clock (look env st k))) ls + 1) (ab_m_id st)"
  obtains st1 st' where "cont_get_time env ev st cid = Some st'"
    "sends env (fst (create_rep_context st (rc_handle c))) (rc_create (ab_max_package_size st) (rc_handle c))
       (length (ab_ctxs st)) (key_group st k) PutReplica AckPutTime (k @ lamport_bytes clock) v st1"
    "abd_wf env st'" "ab_out st' = ab_out st1" "ab_cipher st' = ab_cipher st1"
    "length (ab_ctxs st') = length (ab_ctxs st1)"
    "\<forall>i < length (ab_ctxs st1). i \<noteq> cid \<longrightarrow> ab_ctxs st' ! i = ab_ctxs st1 ! i"
    "look env st' = (look env st)(k \<mapsto> newer (look env st k) (clock, v))"
proof -
  obtain st1 st2 m where S: "cont_get_time_send env ev st cid = Some (st2, \<lparr>nd_key = k, nd_meta = Some m\<rparr>)"
    "meta_value (pe_kv env) m = Some v" "md_clock m = clock" "meta_ok (pe_kv env) m"
    "sends env (fst (create_rep_context st (rc_handle c))) (rc_create (ab_max_package_size st) (rc_handle c))
       (length (ab_ctxs st)) (key_group st k) PutReplica AckPutTime (k @ lamport_bytes clock) v st1"
    "st2 = set_ctx st1 cid (c\<lparr>rc_data := \<lparr>nd_key = k, nd_meta = Some m\<rparr>\<rparr>)" "ab_kv st1 = ab_kv st" "abd_wf env st1"
    by (rule cont_get_time_send_spec [OF ok(1-3) ctx key reps clock]) (rule that)
  have "kv_wf (pe_kv env) (ab_kv st)" using ok(2) by (simp add: abd_wf_def)
  then obtain kv b where kv: "kv_put (pe_kv env) [] (ab_kv st) \<lparr>nd_key = k, nd_meta = Some m\<rparr> = Some (kv, b)"
    "kv_wf (pe_kv env) kv" "kv_look (pe_kv env) kv = (look env st)(k \<mapsto> newer (look env st k) (md_clock m, v))"
    by (elim kv_put_alone [OF penv_okD(1) [OF ok(1)] _ S(2,4), of "ab_kv st" k]) (auto intro: that)
  then show ?thesis
    using S by (intro that [of "st2\<lparr>ab_kv := kv\<rparr>" st1]) (simp_all add: cont_get_time_split ok(4) abd_wf_def)
qed

section \<open>The end of a get\<close>

text \<open>The answers of a value query: clock and value of each replica, in the order of arrival.\<close>

definition value_responses ::
  "('s, 'p) penv \<Rightarrow> 's abd \<Rightarrow> replica_context \<Rightarrow> bytes \<Rightarrow> (lamport \<times> bytes) list \<Rightarrow> bool" where
  "value_responses env st c k lws \<longleftrightarrow>
     list_all2 (\<lambda>r lw. packet_of env st r (k @ lamport_bytes (fst lw)) (snd lw)) (rc_cache c) lws"

text \<open>The step of the fold as a function of the answer.\<close>

definition read_step :: "bytes \<Rightarrow> read_fold \<Rightarrow> lamport \<times> bytes \<Rightarrow> read_fold" where
  "read_step k f lw =
     (let f' = f\<lparr>rf_counts := count_clock (fst lw) (rf_counts f)\<rparr>;
          n = length k + 8 + length (snd lw);
          tmp = take n (encoded (k @ lamport_bytes (fst lw)) (snd lw) []) @ drop n (rf_tmp f)
      in if fst lw > fst (rf_max f)
         then f'\<lparr>rf_max := (fst lw, \<lparr>span_size = size_of k + 8, span_buf = Some (drop 16 tmp)\<rparr>), rf_tmp := tmp\<rparr>
         else f')"

lemma ret_value_step_encoded:
  assumes fit: "length k + length w + 24 < 2 ^ 64" and tmp: "length k + 8 + length w \<le> length (rf_tmp f)"
  shows "ret_value_step (add_meta_size (size_of k)) f (encoded (k @ lamport_bytes l) w rest) = Some (read_step k f (l, w))"
proof -
  let ?kl = "k @ lamport_bytes l" and ?n = "length k + 8 + length w"
  let ?m = "encoded ?kl w rest" and ?tmp = "take ?n (encoded ?kl w []) @ drop ?n (rf_tmp f)"
  have fits: "fits ?kl w" using fit by simp
  have lam: "get_lamport (add_meta_size (size_of k)) (Some (k @ lamport_bytes l @ w @ rest)) = Some l"
    using fit get_lamport_appended [of k "length k + 8" l "w @ rest"]
    by (simp add: add_meta_size_def meta_size_def)
  have n: "unat (of_nat (length ?kl + length w) :: u64) = ?n"
    using fit unat_of_nat_eq [of ?n, where 'a = 64] by simp
  have rd: "mem_read ?m 0 ?n = Some (take ?n (encoded ?kl w []))"
    by (simp add: mem_read_def encoded_rest [of ?kl w rest])
  have wr: "mem_write (rf_tmp f) 0 (take ?n (encoded ?kl w [])) = Some ?tmp"
    using tmp by (simp add: mem_write_def)
  have "take 8 ?tmp = le_enc 8 (length ?kl)"
    by (simp add: encoded_def take_append)
  then have "get_key_size ?tmp = Some (size_of ?kl)"
    using fit by (simp add: get_key_size_def read_u64_def mem_read_def le_val_le_enc)
  then have key: "get_key ?tmp = Some \<lparr>span_size = size_of k + 8, span_buf = Some (drop 16 ?tmp)\<rparr>"
    by (simp add: get_key_def)
  show ?thesis
    using get_key_encoded [OF fits, of rest] read_size_encoded [OF fits, of rest] lam n rd wr key
    by (simp add: ret_value_step_def read_step_def Let_def del: of_nat_add length_append)
qed

definition read_init :: "lamport \<Rightarrow> span \<Rightarrow> u64 \<Rightarrow> read_fold" where
  "read_init l s n = \<lparr>rf_max = (l, s), rf_counts = [], rf_tmp = msg_new n\<rparr>"

lemma length_read_tmp:
  "length k + 8 + length (snd lw) \<le> length (rf_tmp f) \<Longrightarrow> length (rf_tmp (read_step k f lw)) = length (rf_tmp f)"
  by (simp add: read_step_def Let_def)

lemma reduce_read:
  assumes ok: "penv_ok env cap" "abd_wf env st" and rs: "value_responses env st c k lws" and wf: "rc_wf c"
    and fit: "\<forall>(l, w) \<in> set lws. length k + 8 + length w \<le> unat n"
  shows "reduce_resp (pe_evp env) (ab_cipher st) c (ret_value_step (add_meta_size (size_of k))) (read_init l s n) =
    Some (foldl (read_step k) (read_init l s n) lws)"
proof -
  let ?e = "\<lambda>lw. encoded (k @ lamport_bytes (fst lw)) (snd lw) []"
    and ?d = "\<lambda>m. (lamport_of_bytes (drop (16 + length k) m), drop (16 + length k + 8) m)"
  have d: "?d (?e lw) = lw" for lw by (simp add: encoded_def)
  have "list_all2 (carries (pe_evp env) (ab_cipher st)) (rc_cache c) (map ?e lws)"
    using rs by (simp add: value_responses_def list_all2_map2)
  moreover have "evp_ok (pe_evp env)" "key_iv_wf (ab_cipher st)" using ok by (auto simp: penv_okD abd_wf_def)
  moreover have "ret_value_step (add_meta_size (size_of k)) f (m @ rest) = Some (read_step k f (?d m)) \<and>
      length (rf_tmp (read_step k f (?d m))) = unat n"
    if m: "m \<in> set (map ?e lws)" and f: "length (rf_tmp f) = unat n" for f m rest
  proof -
    obtain lw where lw: "lw \<in> set lws" "m = ?e lw" using m by auto
    then obtain i where "i < length lws" "lw = lws ! i" by (auto simp: in_set_conv_nth)
    then have "packet_of env st (rc_cache c ! i) (k @ lamport_bytes (fst lw)) (snd lw)"
      using rs by (auto simp: value_responses_def list_all2_conv_all_nth)
    from carries_fits [OF this] have "length k + length (snd lw) + 24 < 2 ^ 64" by simp
    moreover have "length k + 8 + length (snd lw) \<le> length (rf_tmp f)" using fit lw f by auto
    ultimately show ?thesis
      using ret_value_step_encoded [of k "snd lw" f "fst lw" rest] length_read_tmp [of k lw f] lw(2) d [of lw] f
      by (simp add: encoded_rest [of _ _ rest])
  qed
  ultimately have "reduce_resp (pe_evp env) (ab_cipher st) c (ret_value_step (add_meta_size (size_of k))) (read_init l s n) =
    Some (foldl (\<lambda>f m. read_step k f (?d m)) (read_init l s n) (map ?e lws))"
    using wf by (intro reduce_resp_carries(1) [where P = "\<lambda>f. length (rf_tmp f) = unat n"])
      (simp_all add: read_init_def msg_new_def)
  then show ?thesis by (simp only: foldl_map d)
qed

text \<open>Multiplicities.\<close>

lemma count_clock_val:
  "distinct (map fst cs) \<Longrightarrow> map_of (count_clock l cs) = (map_of cs)(l \<mapsto> Suc (case map_of cs l of None \<Rightarrow> 0 | Some n \<Rightarrow> n))
     \<and> distinct (map fst (count_clock l cs)) \<and> set (map fst (count_clock l cs)) = insert l (set (map fst cs))"
  by (induction l cs rule: count_clock.induct) (auto simp: fun_eq_iff)

lemma rf_counts_foldl: "rf_counts (foldl (read_step k) f lws) = foldl (\<lambda>cs lw. count_clock (fst lw) cs) (rf_counts f) lws"
  by (induction lws arbitrary: f) (simp_all add: read_step_def Let_def)

lemma counts_foldl:
  "distinct (map fst (foldl (\<lambda>cs lw. count_clock (fst lw) cs) [] lws)) \<and>
   map_of (foldl (\<lambda>cs lw. count_clock (fst lw) cs) [] lws) =
     (\<lambda>l. if l \<in> fst ` set lws then Some (count_list (map fst lws) l) else None)"
proof (induction lws rule: rev_induct)
  case Nil
  then show ?case by (simp add: fun_eq_iff)
next
  case (snoc lw lws)
  then show ?case
    using count_clock_val [of "foldl (\<lambda>cs lw. count_clock (fst lw) cs) [] lws" "fst lw"]
    by (auto simp: fun_eq_iff)
qed

lemma consens_iff:
  "(\<exists>x \<in> set (rf_counts (foldl (read_step k) (read_init l s n) lws)). snd x > q) \<longleftrightarrow>
   (\<exists>x \<in> fst ` set lws. count_list (map fst lws) x > q)"
proof -
  let ?cs = "foldl (\<lambda>cs lw. count_clock (fst lw) cs) [] lws"
  have "(\<exists>x \<in> set ?cs. snd x > q) \<longleftrightarrow> (\<exists>y m. map_of ?cs y = Some m \<and> m > q)"
    unfolding map_of_eq_Some_iff [OF conjunct1 [OF counts_foldl]] by force
  then show ?thesis
    using counts_foldl [of lws] by (auto simp: rf_counts_foldl read_init_def)
qed

text \<open>The best clock, and the span that goes with it.\<close>

lemma read_max_clock:
  "fst (rf_max (foldl (read_step k) f lws)) = foldl max (fst (rf_max f)) (map fst lws)"
  by (induction lws arbitrary: f) (auto simp: read_step_def Let_def max_def)

lemma read_max_local:
  "\<forall>(l, w) \<in> set lws. l \<le> fst (rf_max f) \<Longrightarrow> rf_max (foldl (read_step k) f lws) = rf_max f"
  by (induction lws arbitrary: f) (auto simp: read_step_def Let_def not_less [symmetric])

lemma read_max_remote:
  assumes "(l, w) \<in> set lws" "fst (rf_max f) < l" "\<forall>(l, w) \<in> set lws. 16 \<le> length w \<and> length k + 8 < 2 ^ 64"
  obtains l' s where "rf_max (foldl (read_step k) f lws) = (l', s)" "l' \<in> fst ` set lws"
    "\<forall>(l, w) \<in> set lws. l \<le> l'" "span_bytes s = Some (k @ lamport_bytes l')"
  using assms
proof (induction lws arbitrary: l w thesis rule: rev_induct)
  case Nil
  then show ?case by simp
next
  case (snoc lw lws)
  let ?f = "foldl (read_step k) f lws"
  have mx: "\<forall>(l, w) \<in> set lws. l \<le> fst (rf_max ?f)"
    unfolding read_max_clock by (force intro: foldl_max_ge)
  show ?case
  proof (cases "fst lw > fst (rf_max ?f)")
    case True
    let ?n = "length k + 8 + length (snd lw)"
    let ?tmp = "take ?n (encoded (k @ lamport_bytes (fst lw)) (snd lw) []) @ drop ?n (rf_tmp ?f)"
    let ?s = "\<lparr>span_size = size_of k + 8, span_buf = Some (drop 16 ?tmp)\<rparr>"
    have w: "16 \<le> length (snd lw)" "length k + 8 < 2 ^ 64" using snoc.prems(4) by (cases lw, auto)+
    then have "unat (size_of k + 8 :: u64) = length k + 8"
      using unat_of_nat_eq [of "length k + 8", where 'a = 64] by simp
    moreover have "take (length k + 8) (drop 16 ?tmp) = k @ lamport_bytes (fst lw)"
      using w by (simp add: encoded_def)
    ultimately have "span_bytes ?s = Some (k @ lamport_bytes (fst lw))"
      using w by (simp add: span_bytes_def mem_read_def)
    moreover have "rf_max (read_step k ?f lw) = (fst lw, ?s)" using True by (simp add: read_step_def Let_def)
    ultimately show ?thesis
      using mx True by (intro snoc.prems(1) [of "fst lw" ?s]) (auto intro: order_trans less_imp_le)
  next
    case False
    have step: "rf_max (read_step k ?f lw) = rf_max ?f" using False by (simp add: read_step_def Let_def)
    have "\<exists>l w. (l, w) \<in> set lws \<and> fst (rf_max f) < l"
    proof (rule ccontr)
      assume none: "\<not> ?thesis"
      then have "rf_max ?f = rf_max f" by (intro read_max_local) (auto simp: not_less)
      with snoc.prems(2,3) none False show False by auto
    qed
    then obtain l1 w1 where "(l1, w1) \<in> set lws" "fst (rf_max f) < l1" by blast
    then obtain l' s where "rf_max ?f = (l', s)" "l' \<in> fst ` set lws" "\<forall>(l, w) \<in> set lws. l \<le> l'"
      "span_bytes s = Some (k @ lamport_bytes l')"
      using snoc.IH snoc.prems(4) by (metis Un_iff set_append)
    with step False show ?thesis by (intro snoc.prems(1) [of l' s]) auto
  qed
qed

text \<open>
  What the continuation of a get does, in terms of the fold \<open>f\<close>: without a consensus on one clock it
  writes the best entry back, and in any case it returns the best span.
\<close>

definition ret_span :: "(lamport \<times> bytes) option \<Rightarrow> span" where
  "ret_span e = (case e of None \<Rightarrow> \<lparr>span_size = 0, span_buf = None\<rparr>
     | Some cv \<Rightarrow> \<lparr>span_size = size_of (snd cv), span_buf = Some (snd cv)\<rparr>)"

lemma kv_get_ret_span:
  assumes "penv_ok env cap" "abd_wf env st"
  obtains res where "kv_get (pe_kv env) (ab_kv st) n = Some res"
    "rv_lamport res = old_clock (look env st (nd_key n))"
    "\<lparr>span_size = rv_size res, span_buf = rv_value res\<rparr> = ret_span (look env st (nd_key n))"
  using kv_get_look [of "pe_kv env" cap "ab_kv st" n] assms
  by (intro that [of "case look env st (nd_key n) of
      None \<Rightarrow> \<lparr>rv_lamport = lamport_min, rv_size = 0, rv_value = None\<rparr>
    | Some (c, v) \<Rightarrow> \<lparr>rv_lamport = c, rv_size = size_of v, rv_value = Some v\<rparr>"])
    (auto simp: penv_okD abd_wf_def ret_span_def split: option.splits)

lemma cont_ret_value_fold:
  assumes ok: "penv_ok env cap" "abd_wf env st" and ctx: "ctx_at st cid = Some c" "holds env c k v l0" "rc_wf c"
    and rs: "value_responses env st c k lws"
    and fit: "\<forall>(l, w) \<in> set lws. length k + 8 + length w \<le> unat (rc_max_package_size c)"
    and f: "f = foldl (read_step k)
      (read_init (old_clock (look env st k)) (ret_span (look env st k)) (rc_max_package_size c)) lws"
    and best: "rf_max f = (clock, s)"
    and cons: "consens = (\<exists>x \<in> fst ` set lws. count_list (map fst lws) x > rc_n_msgs c div 2)"
  shows "cont_ret_value env ev st cid = do {
     st \<leftarrow> (if \<not> consens \<and> span_size s > 0 then do {
              b \<leftarrow> builder_new (add_meta_size (size_of k) + span_size s);
              b \<leftarrow> add_key 1 b k (size_of k);
              b \<leftarrow> add_key 8 b (lamport_bytes clock) 1;
              b \<leftarrow> add_value 1 b (deref (span_buf s)) (span_size s);
              abd_send_msg env ev (fst (create_rep_context st (rc_handle c))) (length (ab_ctxs st))
                \<lparr>span_size = size_of k, span_buf = Some k\<rparr> PutReplica RetGetPutUpdate b
            }
            else Some st);
     Some (emit (Get_ret s) (decrement_traces st))
   }"
proof -
  obtain m where m: "rc_data c = \<lparr>nd_key = k, nd_meta = Some m\<rparr>" using ctx(2) by (auto simp: holds_def)
  obtain res where res: "kv_get (pe_kv env) (ab_kv st) (rc_data c) = Some res"
    "rv_lamport res = old_clock (look env st k)"
    "\<lparr>span_size = rv_size res, span_buf = rv_value res\<rparr> = ret_span (look env st k)"
    using kv_get_ret_span [OF ok, of "rc_data c"] by (auto simp: m)
  have red: "reduce_resp (pe_evp env) (ab_cipher st) c (ret_value_step (add_meta_size (size_of k)))
      \<lparr>rf_max = (rv_lamport res, \<lparr>span_size = rv_size res, span_buf = rv_value res\<rparr>), rf_counts = [],
       rf_tmp = msg_new (rc_max_package_size c)\<rparr> = Some f"
    unfolding res(2,3) using reduce_read [OF ok rs ctx(3) fit] by (simp only: read_init_def f)
  have cs: "(\<exists>x \<in> set (rf_counts f). snd x > rc_n_msgs c div 2) \<longleftrightarrow> consens"
    unfolding f cons by (rule consens_iff)
  show ?thesis
    using res(1) red cs best
    by (cases consens)
      (auto simp: cont_ret_value_def ctx(1) m Let_def create_rep_context_def node_span_def builder_finish_def)
qed

lemma span_bytesD:
  assumes "span_bytes s = Some bs"
  shows "span_size s = size_of bs" "\<exists>rest. deref (span_buf s) = bs @ rest"
proof -
  show "span_size s = size_of bs"
    using assms by (auto simp: span_bytes_def mem_read_def split: option.splits if_splits)
  show "\<exists>rest. deref (span_buf s) = bs @ rest"
    using assms by (auto simp: span_bytes_def mem_read_def deref_def split: option.splits if_splits)
      (metis append_take_drop_id)
qed

lemma cont_ret_value_best:
  assumes ok: "penv_ok env cap" "abd_wf env st" "ev_ok env ev"
    and ctx: "ctx_at st cid = Some c" "holds env c k v l0" "rc_wf c"
    and rs: "value_responses env st c k lws"
    and fit: "\<forall>(l, w) \<in> set lws. length k + 8 + length w \<le> unat (rc_max_package_size c)"
    and key: "k \<noteq> []" and reps: "ab_replicas st \<noteq> []" "key_group st k \<noteq> []"
    and best: "rf_max (foldl (read_step k)
      (read_init (old_clock (look env st k)) (ret_span (look env st k)) (rc_max_package_size c)) lws) = (clock, s)"
      "span_bytes s = Some bs" "length k + length bs + 52 < 2 ^ 64"
  obtains st1 where
    "cont_ret_value env ev st cid = Some (emit (Get_ret s) (decrement_traces st1))"
    "if bs \<noteq> [] \<and> \<not> (\<exists>x \<in> fst ` set lws. count_list (map fst lws) x > rc_n_msgs c div 2)
     then sends env (fst (create_rep_context st (rc_handle c))) (rc_create (ab_max_package_size st) (rc_handle c))
            (length (ab_ctxs st)) (key_group st k) PutReplica RetGetPutUpdate (k @ lamport_bytes clock) bs st1
     else st1 = st"
proof -
  let ?consens = "\<exists>x \<in> fst ` set lws. count_list (map fst lws) x > rc_n_msgs c div 2"
  note fold = cont_ret_value_fold [OF ok(1,2) ctx rs fit refl best(1) refl, where ev = ev]
  obtain rest where s: "span_size s = size_of bs" "deref (span_buf s) = bs @ rest"
    using span_bytesD [OF best(2)] by blast
  have bs: "span_size s > 0 \<longleftrightarrow> bs \<noteq> []"
    using best(3) by (simp add: s word_less_nat_alt unat_of_nat_eq)
  show ?thesis
  proof (cases "bs \<noteq> [] \<and> \<not> ?consens")
    case True
    let ?st1 = "fst (create_rep_context st (rc_handle c))" and ?kl = "k @ lamport_bytes clock"
    have wf1: "abd_wf env ?st1" using ok(2) by (simp add: abd_wf_def)
    have len: "length k < 2 ^ 64" "length ?kl + length bs + 44 < 2 ^ 64" using best(3) by simp_all
    have "ab_replicas ?st1 \<noteq> []" "key_group ?st1 k \<noteq> []" using reps by simp_all
    then obtain st1 where st1:
      "abd_send_msg env ev ?st1 (length (ab_ctxs st)) \<lparr>span_size = size_of k, span_buf = Some (k @ [])\<rparr>
         PutReplica RetGetPutUpdate (encoded ?kl bs []) = Some st1"
      "sends env ?st1 (rc_create (ab_max_package_size st) (rc_handle c)) (length (ab_ctxs st)) (key_group ?st1 k)
         PutReplica RetGetPutUpdate ?kl bs st1"
      by (rule abd_send_msg_spec [OF ok(1) wf1 ok(3) key len(1) _ _ ctx_at_new len(2)]) (rule that)
    have "do {
        b \<leftarrow> builder_new (add_meta_size (size_of k) + size_of bs);
        b \<leftarrow> add_key 1 b k (size_of k);
        b \<leftarrow> add_key 8 b (lamport_bytes clock) 1;
        add_value 1 b (bs @ rest) (size_of bs)
      } = Some (encoded ?kl bs [])"
      using build_key_clock_value [of k bs "[]" clock rest] best(3) by simp
    then have "cont_ret_value env ev st cid = Some (emit (Get_ret s) (decrement_traces st1))"
      using fold bs True st1(1) by (auto simp: bind_eq_Some_conv s)
    with st1(2) True show ?thesis by (intro that [of st1]) simp_all
  next
    case False
    then have "cont_ret_value env ev st cid = Some (emit (Get_ret s) (decrement_traces st))"
      using fold bs by auto
    with False show ?thesis by (intro that [of st]) auto
  qed
qed

text \<open>When no answer is newer than the local store, the value of the local store is the best one.\<close>

lemma best_local:
  assumes "look env st k = Some (lc, lv)" "\<forall>(l, w) \<in> set lws. l \<le> lc" "length lv < 2 ^ 64"
  shows "rf_max (foldl (read_step k) (read_init (old_clock (look env st k)) (ret_span (look env st k)) n) lws) =
      (lc, \<lparr>span_size = size_of lv, span_buf = Some lv\<rparr>)"
    "span_bytes \<lparr>span_size = size_of lv, span_buf = Some lv\<rparr> = Some lv"
proof -
  show "rf_max (foldl (read_step k) (read_init (old_clock (look env st k)) (ret_span (look env st k)) n) lws) =
      (lc, \<lparr>span_size = size_of lv, span_buf = Some lv\<rparr>)"
    using assms by (subst read_max_local) (auto simp: read_init_def ret_span_def)
  show "span_bytes \<lparr>span_size = size_of lv, span_buf = Some lv\<rparr> = Some lv"
    using assms(3) span_bytes_prefix [of lv "[]"] by simp
qed

end
