(* ===== verification/Registers.thy ===== *)
theory Registers
  imports Memtable
begin

text \<open>
  The abstract specification of the replicated store: every node has a register per key, and the only
  thing that ever happens is that a register takes the larger of its entry and a new one.  It holds
  the abstract steps, what runs of them keep, and the interface of a refinement mapping
  (\<open>refinement_mapping\<close>) through which \<open>Cluster\<close> and \<open>Process\<close> relate the code to it.
\<close>

section \<open>Steps that are simulated by an abstract system\<close>

text \<open>
  \<open>inv\<close> is the invariant of the concrete system, \<open>abs\<close> reads the abstract state off the concrete one.
\<close>

locale refinement_mapping =
  fixes inv :: "'s \<Rightarrow> bool"
    and abs :: "'s \<Rightarrow> 'a"
    and cstep :: "'s \<Rightarrow> 's \<Rightarrow> bool"
    and astep :: "'a \<Rightarrow> 'a \<Rightarrow> bool"
  assumes inv_step: "inv s \<Longrightarrow> cstep s t \<Longrightarrow> inv t"
    and sim_step: "inv s \<Longrightarrow> cstep s t \<Longrightarrow> astep\<^sup>*\<^sup>* (abs s) (abs t)"
begin

lemma run_inv: "cstep\<^sup>*\<^sup>* s t \<Longrightarrow> inv s \<Longrightarrow> inv t"
  by (induction rule: rtranclp_induct) (auto intro: inv_step)

lemma run_sim: "cstep\<^sup>*\<^sup>* s t \<Longrightarrow> inv s \<Longrightarrow> astep\<^sup>*\<^sup>* (abs s) (abs t)"
proof (induction rule: rtranclp_induct)
  case (step t u)
  have "astep\<^sup>*\<^sup>* (abs t) (abs u)" using step.hyps step.prems by (blast intro: run_inv sim_step)
  with step.IH step.prems show ?case by (meson rtranclp_trans)
qed simp

text \<open>Whatever the abstract steps preserve, the concrete runs preserve.\<close>

lemma transfer:
  assumes "cstep\<^sup>*\<^sup>* s t" "inv s" "P (abs s)" "\<And>a b. P a \<Longrightarrow> astep a b \<Longrightarrow> P b"
  shows "P (abs t)"
  using run_sim [OF assms(1,2)] assms(3,4) by (induction rule: rtranclp_induct) auto

end

section \<open>One node's registers\<close>

type_synonym registers = "bytes \<Rightarrow> (lamport \<times> bytes) option"

inductive reg_write :: "registers \<Rightarrow> registers \<Rightarrow> bool" where
  max_write: "reg_write f (f(k \<mapsto> newer (f k) (c, v)))"

inductive_cases reg_writeE: "reg_write f g"

text \<open>What a sequence of writes may do to a register: nothing, or fill it, or raise its clock.\<close>

definition evolves :: "(lamport \<times> bytes) option \<Rightarrow> (lamport \<times> bytes) option \<Rightarrow> bool" where
  "evolves e e' \<longleftrightarrow> e' = e \<or> (case e of None \<Rightarrow> True | Some (c, v) \<Rightarrow> (\<exists>c' v'. e' = Some (c', v') \<and> c < c'))"

lemma evolves_refl [simp]: "evolves e e"
  by (simp add: evolves_def)

lemma evolves_trans: "evolves a b \<Longrightarrow> evolves b c \<Longrightarrow> evolves a c"
  by (auto simp: evolves_def split: option.splits)

lemma evolves_newer: "evolves e (Some (newer e (c, v)))"
  by (cases e) (auto simp: evolves_def)

lemma evolves_clock: "evolves e e' \<Longrightarrow> old_clock e \<le> old_clock e'"
  by (auto simp: evolves_def split: option.splits)

lemma evolvesD:
  "evolves (Some (c, v)) e' \<Longrightarrow> \<exists>c' v'. e' = Some (c', v') \<and> (c' = c \<and> v' = v \<or> c < c')"
  by (auto simp: evolves_def)

lemma reg_write_evolves: "reg_write f g \<Longrightarrow> evolves (f k) (g k)"
  by (auto elim!: reg_writeE intro: evolves_newer)

lemma reg_writes_evolve: "reg_write\<^sup>*\<^sup>* f g \<Longrightarrow> evolves (f k) (g k)"
  by (induction rule: rtranclp_induct) (auto intro: evolves_trans reg_write_evolves)

lemma reg_writes_clock: "reg_write\<^sup>*\<^sup>* f g \<Longrightarrow> old_clock (f k) \<le> old_clock (g k)"
  by (rule evolves_clock [OF reg_writes_evolve])

section \<open>The registers of all nodes\<close>

inductive reg_step :: "(nat \<Rightarrow> registers) \<Rightarrow> (nat \<Rightarrow> registers) \<Rightarrow> bool" where
  at_node: "reg_write (R i) r \<Longrightarrow> reg_step R (R(i := r))"

inductive_cases reg_stepE: "reg_step R S"

lemma reg_steps_at: "reg_write\<^sup>*\<^sup>* (R i) r \<Longrightarrow> reg_step\<^sup>*\<^sup>* R (R(i := r))"
proof (induction rule: rtranclp_induct)
  case base
  then show ?case by simp
next
  case (step r s)
  have "reg_step (R(i := r)) (R(i := s))"
    using reg_step.at_node [of "R(i := r)" i s] step.hyps(2) by simp
  with step.IH show ?case by (rule rtranclp.rtrancl_into_rtrancl [where r = reg_step])
qed

lemma reg_steps_node: "reg_step\<^sup>*\<^sup>* R S \<Longrightarrow> reg_write\<^sup>*\<^sup>* (R i) (S i)"
  by (induction rule: rtranclp_induct)
    (auto elim!: reg_stepE intro: rtranclp.rtrancl_into_rtrancl)

lemma reg_steps_evolve: "reg_step\<^sup>*\<^sup>* R S \<Longrightarrow> evolves (R i k) (S i k)"
  by (rule reg_writes_evolve [OF reg_steps_node])

end
