(* ===== verification/Cluster.thy ===== *)
theory Cluster
  imports Protocol_Conts Registers
begin

text \<open>
  A cluster of nodes that run the protocol, under a network that may deliver any bytes to any handler
  at any time (so it loses, repeats, reorders and forges packets).  The steps are exactly the entry points
  of \<open>Protocol\<close>.

  Shown here: every event keeps every node well-formed and never moves the clock of a key backwards
  (interface \<open>monotone_system\<close>), and is on the stores a sequence of atomic writes to registers (interface
  \<open>refinement_mapping\<close> of \<open>Registers\<close>); the responses a fan-out waits for make quorums that intersect (interface
  \<open>quorum_system\<close>); hence a clock that reached a quorum is seen by every later quorum.
\<close>

section \<open>Interfaces\<close>

text \<open>A system whose steps keep an invariant and never lower a measure.\<close>

locale monotone_system =
  fixes inv :: "'s \<Rightarrow> bool"
    and level :: "'s \<Rightarrow> 'k \<Rightarrow> 'c :: order"
    and step :: "'s \<Rightarrow> 's \<Rightarrow> bool"
  assumes step_inv: "inv s \<Longrightarrow> step s t \<Longrightarrow> inv t"
    and step_mono: "inv s \<Longrightarrow> step s t \<Longrightarrow> level s k \<le> level t k"
begin

lemma run_mono: "step\<^sup>*\<^sup>* s t \<Longrightarrow> inv s \<Longrightarrow> inv t \<and> level s k \<le> level t k"
proof (induction rule: rtranclp_induct)
  case base
  then show ?case by simp
next
  case (step t u)
  then show ?case using step_inv [of t u] step_mono [of t u k] by (auto intro: order_trans)
qed

end

text \<open>A quorum system, and what it gives for values that never go back.\<close>

locale quorum_system =
  fixes is_quorum :: "'n set \<Rightarrow> bool"
  assumes intersect: "is_quorum A \<Longrightarrow> is_quorum B \<Longrightarrow> A \<inter> B \<noteq> {}"
begin

lemma later_quorum_sees:
  fixes before after :: "'n \<Rightarrow> 'c :: order"
  assumes "is_quorum A" "is_quorum B" "\<forall>i \<in> A. c \<le> before i" "\<forall>i. before i \<le> after i"
  shows "\<exists>i \<in> B. c \<le> after i"
proof -
  obtain i where "i \<in> A" "i \<in> B" using intersect [OF assms(1,2)] by blast
  then show ?thesis using assms(3,4) by (blast intro: order_trans)
qed

end

text \<open>
  The node that starts an operation and the replicas whose responses it waits for, among itself and
  \<open>n = 2 * m\<close> others.
\<close>

definition majority :: "nat \<Rightarrow> nat set \<Rightarrow> bool" where
  "majority n A \<longleftrightarrow> A \<subseteq> {..n} \<and> quorum n + 1 \<le> card A"

lemma majority_intersect:
  assumes "even n" "majority n A" "majority n B"
  shows "A \<inter> B \<noteq> {}"
proof
  assume disj: "A \<inter> B = {}"
  have fin: "finite A" "finite B" using assms by (auto simp: majority_def intro: finite_subset)
  have "card (A \<union> B) \<le> card {..n}" using assms by (intro card_mono) (auto simp: majority_def)
  then have "card A + card B \<le> n + 1" using disj fin by (simp add: card_Un_disjoint)
  moreover have "2 * (quorum n + 1) > n + 1" using assms(1) by (auto simp: quorum_def)
  ultimately show False using assms(2,3) by (simp add: majority_def)
qed

interpretation group_quorum: quorum_system "majority (2 * m)" for m
  by unfold_locales (rule majority_intersect [of "2 * m"]; simp)

section \<open>What every event keeps\<close>

definition abd_inv :: "('s, 'p) penv \<Rightarrow> 's abd \<Rightarrow> bool" where
  "abd_inv env st \<longleftrightarrow> abd_wf env st \<and>
     (\<forall>c \<in> set (ab_ctxs st). \<forall>m. nd_meta (rc_data c) = Some m \<longrightarrow> meta_ok (pe_kv env) m)"

definition clock_of :: "('s, 'p) penv \<Rightarrow> 's abd \<Rightarrow> bytes \<Rightarrow> lamport" where
  "clock_of env st k = old_clock (look env st k)"

text \<open>
  \<open>keeps env st st'\<close>: if the invariant held before the step it holds after it, and the step did nothing to
  the registers but write larger entries.
\<close>

definition keeps :: "('s, 'p) penv \<Rightarrow> 's abd \<Rightarrow> 's abd \<Rightarrow> bool" where
  "keeps env st st' \<longleftrightarrow> (abd_inv env st \<longrightarrow> abd_inv env st' \<and> reg_write\<^sup>*\<^sup>* (look env st) (look env st'))"

lemma keeps_refl [simp]: "keeps env st st"
  by (simp add: keeps_def)

lemma keeps_trans: "keeps env a b \<Longrightarrow> keeps env b c \<Longrightarrow> keeps env a c"
  by (auto simp: keeps_def)

lemma keeps_clock: "keeps env a b \<Longrightarrow> abd_inv env a \<Longrightarrow> clock_of env a k \<le> clock_of env b k"
  using reg_writes_clock by (auto simp: keeps_def clock_of_def)

text \<open>Steps that leave the store's list alone.\<close>

lemma keepsI:
  assumes "kv_skip (ab_kv st') = kv_skip (ab_kv st)" "key_iv_wf (ab_cipher st) \<Longrightarrow> key_iv_wf (ab_cipher st')"
    and "\<And>c m. c \<in> set (ab_ctxs st') \<Longrightarrow> nd_meta (rc_data c) = Some m \<Longrightarrow> meta_ok (pe_kv env) m \<or>
       (\<exists>c' \<in> set (ab_ctxs st). nd_meta (rc_data c') = Some m)"
  shows "keeps env st st'"
proof -
  have "look env st' = look env st" using assms(1) by (simp add: kv_look_def fun_eq_iff)
  then show ?thesis
    using assms by (fastforce simp: keeps_def abd_inv_def abd_wf_def kv_wf_def)
qed

lemma keeps_emit [simp]: "keeps env st (emit a st)"
  by (rule keepsI) auto

lemma keeps_traces [simp]: "keeps env st (increment_traces st)" "keeps env st (decrement_traces st)"
  by (rule keepsI; auto)+

lemma keeps_create_rep_context [simp]:
  "keeps env st (st\<lparr>ab_ctxs := ab_ctxs st @ [rc_create (ab_max_package_size st) h]\<rparr>)"
  by (rule keepsI) (auto simp: rc_create_def)

lemma keeps_set_ctx:
  assumes "\<And>m. nd_meta (rc_data c) = Some m \<Longrightarrow> meta_ok (pe_kv env) m \<or> (\<exists>c' \<in> set (ab_ctxs st). nd_meta (rc_data c') = Some m)"
  shows "keeps env st (set_ctx st cid c)"
  by (rule keepsI) (use assms in \<open>auto dest!: set_update_subset_insert [THEN subsetD]\<close>)

section \<open>Encryption and sending\<close>

lemma packet_encrypt_ki:
  assumes "packet_encrypt e ki g dst src sz = Some (ok, ki', buf)"
  obtains old iv where "get_packet_iv ki g old = (ki', iv)"
proof -
  obtain old where "mem_read dst 0 16 = Some old" using assms by (auto simp: packet_encrypt_def bind_eq_Some_conv)
  moreover obtain ki1 iv where iv: "get_packet_iv ki g old = (ki1, iv)" by fastforce
  ultimately have "ki' = ki1"
    using assms by (auto simp: packet_encrypt_def bind_eq_Some_conv Let_def split: if_splits option.splits)
  then show ?thesis using iv that by blast
qed

lemma packet_encrypt_wf:
  "packet_encrypt e ki g dst src sz = Some (ok, ki', buf) \<Longrightarrow> ig_ok g \<Longrightarrow> key_iv_wf ki \<Longrightarrow> key_iv_wf ki'"
  by (erule packet_encrypt_ki) (rule get_packet_iv_wf(1))

lemma packet_encrypt_key: "packet_encrypt e ki g dst src sz = Some (ok, ki', buf) \<Longrightarrow> ki_key ki' = ki_key ki"
  by (erule packet_encrypt_ki) (auto simp: get_packet_iv_def get_packet_iv_aligned_def Let_def split: if_splits prod.splits)

lemma encrypt_resp_msg_wf:
  "encrypt_resp_msg e fresh g ki m = Some (ki', kind, r) \<Longrightarrow> ig_ok g \<Longrightarrow> key_iv_wf ki \<Longrightarrow> key_iv_wf ki'"
  by (auto simp: encrypt_resp_msg_def encrypt_resp_def bind_eq_Some_conv Let_def dest: packet_encrypt_wf)

lemma fill_req_buffers_wf:
  "fill_req_buffers e ki g reqs buf sz = Some (ki', rs) \<Longrightarrow> ig_ok g \<Longrightarrow> key_iv_wf ki \<Longrightarrow> key_iv_wf ki'"
  by (cases reqs) (auto simp: fill_req_buffers_def bind_eq_Some_conv dest: packet_encrypt_wf)

lemma rc_send_msg_wf:
  assumes "rc_send_msg e fresh g ki cid c reps rt cont m = Some (ki', c', reqs)"
  shows "ig_ok g \<Longrightarrow> key_iv_wf ki \<Longrightarrow> key_iv_wf ki'" "rc_data c' = rc_data c"
  using assms
  by (auto simp: rc_send_msg_def rc_send_and_encrypt_msg_def bind_eq_Some_conv Let_def dest: fill_req_buffers_wf)

lemma abd_respond_keeps:
  "abd_respond env ev st h m = Some st' \<Longrightarrow> ev_ok env ev \<Longrightarrow> keeps env st st'"
  by (intro keepsI) (auto simp: abd_respond_def bind_eq_Some_conv ev_ok_def dest: encrypt_resp_msg_wf)

lemma abd_send_msg_keeps:
  assumes "abd_send_msg env ev st cid key rt cont m = Some st'" "ev_ok env ev"
  shows "keeps env st st'"
proof -
  obtain idx where idx: "get_idx st key = Some idx" using assms(1) by (auto simp: abd_send_msg_def bind_eq_Some_conv)
  show ?thesis
  proof (cases "ab_replicas st ! idx = []")
    case True
    then have "st' = emit Skip_ret (decrement_traces st)" using assms(1) idx by (simp add: abd_send_msg_def)
    then show ?thesis using keeps_trans [OF keeps_traces(2) keeps_emit] by simp
  next
    case False
    then obtain c ki c' reqs where c: "ctx_at st cid = Some c"
      "rc_send_msg (pe_evp env) (pe_fresh env) (ev_iv ev) (ab_cipher st) cid c (ab_replicas st ! idx) rt cont m =
         Some (ki, c', reqs)"
      "st' = (set_ctx st cid c')\<lparr>ab_cipher := ki, ab_out := ab_out st @ map Enqueue_request reqs\<rparr>"
      using assms(1) idx by (auto simp: abd_send_msg_def bind_eq_Some_conv Let_def)
    have "c \<in> set (ab_ctxs st)" using ctx_atD [OF c(1)] by (metis nth_mem)
    then show ?thesis
      using c(3) rc_send_msg_wf [OF c(2)] assms(2)
      by (intro keepsI) (auto simp: ev_ok_def dest!: set_update_subset_insert [THEN subsetD])
  qed
qed

section \<open>The store under arbitrary arguments\<close>

lemma create_node_any:
  assumes "env_ok env cap" "create_node env st ks key vs val c = Some (st1, n)"
  obtains m where "nd_meta n = Some m" "meta_ok env m" "kv_skip st1 = kv_skip st"
proof -
  obtain m where m: "meta_new env (kv_next st) vs val c = Some m" "nd_meta n = Some m" "kv_skip st1 = kv_skip st"
    using assms(2) by (auto simp: create_node_def bind_eq_Some_conv)
  then obtain v where v: "mem_read (deref val) 0 (unat vs) = Some v"
    by (auto simp: meta_new_def cipher_encrypt_def bind_eq_Some_conv)
  then have len: "length v = unat vs" and size: "size_of v = vs" by (auto dest: mem_read_length)
  obtain rest where rest: "deref val = v @ rest"
    using v by (auto simp: mem_read_def split: if_splits) (metis append_take_drop_id)
  have val: "val = (if v = [] then None else Some (v @ rest)) \<or> val = Some (v @ rest)"
    using rest by (cases val) (auto simp: deref_def)
  have "length v < 2 ^ 64" using len unat_u64_bound [of vs] by simp
  have "length v \<le> cap"
  proof (rule ccontr)
    assume "\<not> length v \<le> cap"
    then have "meta_new env (kv_next st) (size_of v) (Some (v @ rest)) c = None"
      using \<open>length v < 2 ^ 64\<close> by (intro meta_new_too_large [OF assms(1)]) simp_all
    moreover have "meta_new env (kv_next st) vs (Some (v @ rest)) c = meta_new env (kv_next st) vs val c"
      by (simp add: meta_new_def rest) (simp add: deref_def)
    ultimately show False using m(1) size by simp
  qed
  then obtain m' where "meta_new env (kv_next st) (size_of v) val c = Some m'" "meta_ok env m'"
    by (rule meta_new_value [OF assms(1) _ val]) (rule that)
  with m size show ?thesis by (intro that [of m]) simp_all
qed

lemma kv_put_reg_write:
  assumes env: "env_ok env cap" and wf: "kv_wf env st" and m: "nd_meta n = Some m" "meta_ok env m"
    and put: "kv_put env [] st n = Some (st', b)"
  shows "kv_wf env st'" "reg_write (kv_look env st) (kv_look env st')"
proof -
  obtain v where v: "meta_value env m = Some v" using m(2) by (auto simp: meta_ok_def)
  have n: "n = \<lparr>nd_key = nd_key n, nd_meta = Some m\<rparr>" using m(1) by simp
  obtain st1 where st1: "kv_put env [] st \<lparr>nd_key = nd_key n, nd_meta = Some m\<rparr> =
       Some (st1, kv_look env st (nd_key n) = None \<or> old_clock (kv_look env st (nd_key n)) < md_clock m)"
    "kv_wf env st1"
    "kv_look env st1 = (kv_look env st)(nd_key n \<mapsto> newer (kv_look env st (nd_key n)) (md_clock m, v))"
    by (rule kv_put_alone [OF env wf v m(2)]) (rule that)
  have st': "st' = st1" using put st1(1) unfolding n [symmetric] by simp
  show "kv_wf env st'" using st' st1(2) by simp
  show "reg_write (kv_look env st) (kv_look env st')" unfolding st' st1(3) by (rule max_write)
qed

lemma keeps_put:
  assumes ok: "penv_ok env cap" and put: "kv_put (pe_kv env) [] (ab_kv st) n = Some (kv, b)"
    and m: "nd_meta n = Some m" "abd_inv env st \<Longrightarrow> meta_ok (pe_kv env) m"
  shows "keeps env st (st\<lparr>ab_kv := kv\<rparr>)"
proof -
  have "kv_wf (pe_kv env) kv \<and> reg_write (look env st) (kv_look (pe_kv env) kv)" if "abd_inv env st"
  proof -
    have "kv_wf (pe_kv env) (ab_kv st)" using that by (simp add: abd_inv_def abd_wf_def)
    then show ?thesis using kv_put_reg_write [OF penv_okD(1) [OF ok] _ m(1) m(2) [OF that] put] by blast
  qed
  then show ?thesis by (auto simp: keeps_def abd_inv_def abd_wf_def)
qed

section \<open>Every entry point keeps the invariant and the clocks\<close>

lemma create_ctx_node_keeps:
  assumes "penv_ok env cap" "create_ctx_node env st cid key val = Some st'"
  shows "keeps env st st'"
proof -
  obtain kv n c where c: "create_node (pe_kv env) (ab_kv st) (span_size key) (deref (span_buf key))
      (span_size val) (span_buf val) lamport_min = Some (kv, n)"
    "ctx_at (st\<lparr>ab_kv := kv\<rparr>) cid = Some c" "st' = set_ctx (st\<lparr>ab_kv := kv\<rparr>) cid (c\<lparr>rc_data := n\<rparr>)"
    using assms(2) by (auto simp: create_ctx_node_def set_ctx_data_def bind_eq_Some_conv)
  obtain m where m: "nd_meta n = Some m" "meta_ok (pe_kv env) m" "kv_skip kv = kv_skip (ab_kv st)"
    by (rule create_node_any [OF penv_okD(1) [OF assms(1)] c(1)]) (rule that)
  show ?thesis
    by (rule keepsI) (use c(3) m in \<open>auto dest!: set_update_subset_insert [THEN subsetD]\<close>)
qed

lemma start_keeps:
  assumes "penv_ok env cap" "ev_ok env ev"
    and "create_ctx_node env (st\<lparr>ab_ctxs := ab_ctxs st @ [rc_create (ab_max_package_size st) h]\<rparr>) cid key val = Some st1"
    and "abd_send_msg env ev st1 cid key' rt cont m = Some st'"
  shows "keeps env st st'"
  by (rule keeps_trans [OF keeps_create_rep_context keeps_trans])
    (rule create_ctx_node_keeps [OF assms(1,3)], rule abd_send_msg_keeps [OF assms(4,2)])

lemma benchmark_keeps:
  assumes "penv_ok env cap" "ev_ok env ev"
  shows "benchmark_put env ev st m = Some st' \<Longrightarrow> keeps env st st'"
    and "benchmark_get env ev st m = Some st' \<Longrightarrow> keeps env st st'"
proof -
  assume "benchmark_put env ev st m = Some st'"
  then have "keeps env (increment_traces st) st'"
    by (auto simp: benchmark_put_def Let_def bind_eq_Some_conv create_rep_context_def simp del: traces_sel
        dest: start_keeps [OF assms])
  then show "keeps env st st'" by (rule keeps_trans [OF keeps_traces(1)])
next
  assume "benchmark_get env ev st m = Some st'"
  then have "keeps env (increment_traces st) st'"
    by (auto simp: benchmark_get_def Let_def bind_eq_Some_conv create_rep_context_def simp del: traces_sel
        dest: start_keeps [OF assms])
  then show "keeps env st st'" by (rule keeps_trans [OF keeps_traces(1)])
qed

lemma handle_start_keeps:
  assumes "penv_ok env cap" "ev_ok env ev"
  shows "handle_put env ev st h req = Some st' \<Longrightarrow> keeps env st st'"
    and "handle_get env ev st h req = Some st' \<Longrightarrow> keeps env st st'"
  by (auto simp: handle_put_def handle_get_def Let_def bind_eq_Some_conv create_rep_context_def
      dest: start_keeps [OF assms])

lemma handle_queries_keep:
  assumes "ev_ok env ev"
  shows "handle_get_time_stamp env ev st h req = Some st' \<Longrightarrow> keeps env st st'"
    and "handle_get_value_time_stamp env ev st h req = Some st' \<Longrightarrow> keeps env st st'"
    and "handle_cmd env ev st h req = Some st' \<Longrightarrow> keeps env st st'"
  using assms
  by (auto simp: handle_get_time_stamp_def handle_get_value_time_stamp_def handle_cmd_def bind_eq_Some_conv
      split: option.splits elim: abd_respond_keeps)

lemma handle_put_replica_keeps:
  assumes ok: "penv_ok env cap" "ev_ok env ev" "ev_attempts ev = []"
    and h: "handle_put_replica env ev st h req = Some st'"
  shows "keeps env st st'"
proof -
  obtain ks key vs val clock kv b bld where put:
    "kv_put_value (pe_kv env) [] (ab_kv st) ks key vs val clock = Some (kv, b)"
    "abd_respond env ev (st\<lparr>ab_kv := kv\<rparr>) (Some h) bld = Some st'"
    using h ok(3) by (auto simp: handle_put_replica_def bind_eq_Some_conv Let_def)
  obtain kv1 n where n: "create_node (pe_kv env) (ab_kv st) ks key vs val clock = Some (kv1, n)"
    "kv_put (pe_kv env) [] kv1 n = Some (kv, b)"
    using put(1) by (auto simp: kv_put_value_def bind_eq_Some_conv)
  obtain m where m: "nd_meta n = Some m" "meta_ok (pe_kv env) m" "kv_skip kv1 = kv_skip (ab_kv st)"
    by (rule create_node_any [OF penv_okD(1) [OF ok(1)] n(1)]) (rule that)
  have 1: "keeps env st (st\<lparr>ab_kv := kv1\<rparr>)" by (rule keepsI) (use m(3) in auto)
  have 2: "keeps env (st\<lparr>ab_kv := kv1\<rparr>) (st\<lparr>ab_kv := kv\<rparr>)"
    using keeps_put [OF ok(1), of "st\<lparr>ab_kv := kv1\<rparr>" n kv b m] n(2) m by simp
  show ?thesis by (rule keeps_trans [OF keeps_trans [OF 1 2] abd_respond_keeps [OF put(2) ok(2)]])
qed

lemma keeps_if_inv: "(abd_inv env st \<Longrightarrow> keeps env st st') \<Longrightarrow> keeps env st st'"
  by (auto simp: keeps_def)

lemma ctx_at_meta_ok:
  assumes "abd_inv env st" "ctx_at st cid = Some c" "nd_meta (rc_data c) = Some m"
  shows "meta_ok (pe_kv env) m"
proof -
  have "c \<in> set (ab_ctxs st)" using ctx_atD [OF assms(2)] by (metis nth_mem)
  then show ?thesis using assms(1,3) by (auto simp: abd_inv_def)
qed

lemma cont_get_time_keeps:
  assumes ok: "penv_ok env cap" "ev_ok env ev" "ev_attempts ev = []" and c: "cont_get_time env ev st cid = Some st'"
  shows "keeps env st st'"
proof (rule keeps_if_inv)
  assume inv: "abd_inv env st"
  obtain c meta clock bld st2 st3 kv b where D: "ctx_at st cid = Some c" "nd_meta (rc_data c) = Some meta"
    "abd_send_msg env ev (st\<lparr>ab_ctxs := ab_ctxs st @ [rc_create (ab_max_package_size st) (rc_handle c)]\<rparr>)
       (length (ab_ctxs st)) (node_span (rc_data c)) PutReplica AckPutTime bld = Some st2"
    "set_ctx_data st2 cid ((rc_data c)\<lparr>nd_meta := Some (meta\<lparr>md_clock := clock\<rparr>)\<rparr>) = Some st3"
    "kv_put (pe_kv env) [] (ab_kv st3) ((rc_data c)\<lparr>nd_meta := Some (meta\<lparr>md_clock := clock\<rparr>)\<rparr>) = Some (kv, b)"
    "st' = st3\<lparr>ab_kv := kv\<rparr>"
    using c ok(3) by (auto simp: cont_get_time_def Let_def bind_eq_Some_conv create_rep_context_def)
  have m: "meta_ok (pe_kv env) (meta\<lparr>md_clock := clock\<rparr>)"
    using ctx_at_meta_ok [OF inv D(1,2)] by (simp add: meta_ok_def meta_value_def)
  have 1: "keeps env st st2" by (rule keeps_trans [OF keeps_create_rep_context abd_send_msg_keeps [OF D(3) ok(2)]])
  have 2: "keeps env st2 st3"
    using D(4) m by (auto simp: set_ctx_data_def intro!: keeps_set_ctx)
  have 3: "keeps env st3 st'" unfolding D(6) by (rule keeps_put [OF ok(1) D(5)]) (use m in simp_all)
  show "keeps env st st'" by (rule keeps_trans [OF keeps_trans [OF 1 2] 3])
qed

lemma cont_ret_value_keeps:
  assumes "ev_ok env ev" "cont_ret_value env ev st cid = Some st'"
  shows "keeps env st st'"
proof -
  have send: "keeps env st st2"
    if "abd_send_msg env ev (st\<lparr>ab_ctxs := ab_ctxs st @ [rc_create (ab_max_package_size st) h]\<rparr>) i key rt cont m = Some st2"
    for h i key rt cont m st2
    by (rule keeps_trans [OF keeps_create_rep_context abd_send_msg_keeps [OF that assms(1)]])
  have fin: "keeps env st st2 \<Longrightarrow> keeps env st (emit a (decrement_traces st2))" for st2 a
    using keeps_trans [OF keeps_trans [OF _ keeps_traces(2)] keeps_emit] by blast
  show ?thesis
    using assms(2)
    by (auto simp: cont_ret_value_def Let_def bind_eq_Some_conv create_rep_context_def case_prod_unfold
        split: if_splits intro!: fin dest: send)
qed

lemma req_conts_impl_keeps:
  assumes ok: "penv_ok env cap" "ev_ok env ev" "ev_attempts ev = []"
    and c: "req_conts_impl env ev st call n cid = Some st'"
  shows "keeps env st st'"
proof (cases call)
  case GetTime
  then show ?thesis using c cont_get_time_keeps [OF ok] by simp
next
  case AckPutTime
  then show ?thesis
    using c keeps_trans [OF keeps_traces(2) keeps_emit] by (auto simp: cont_ack_put_time_def)
next
  case RetValue
  then show ?thesis using c cont_ret_value_keeps [OF ok(2)] by simp
next
  case CmdRet
  then show ?thesis using c by (auto simp: cont_cmd_ret_def bind_eq_Some_conv split: if_splits)
qed (use c in auto)

lemma req_conts_keeps:
  assumes ok: "penv_ok env cap" "ev_ok env ev" "ev_attempts ev = []"
    and c: "req_conts env ev st call cid resp = Some st'"
  shows "keeps env st st'"
proof -
  obtain c0 c1 where c1: "ctx_at st cid = Some c0" "add_to_cache c0 resp = Some c1"
    using c by (auto simp: req_conts_def bind_eq_Some_conv)
  have data: "rc_data c1 = rc_data c0" using c1(2) by (auto simp: add_to_cache_def bind_eq_Some_conv)
  have mem: "c0 \<in> set (ab_ctxs st)" using ctx_atD [OF c1(1)] by (metis nth_mem)
  have set: "keeps env st (set_ctx st cid (c1\<lparr>rc_n_resp := n, rc_done := d\<rparr>))" for n d
    using data mem by (intro keeps_set_ctx) auto
  have done_same: "c1\<lparr>rc_n_resp := n\<rparr> = c1\<lparr>rc_n_resp := n, rc_done := rc_done c1\<rparr>" for n by simp
  have impl: "keeps env st st'" if "req_conts_impl env ev (set_ctx st cid (c1\<lparr>rc_n_resp := n, rc_done := d\<rparr>)) cl k cid = Some st'"
    for n d k cl
    by (rule keeps_trans [OF set req_conts_impl_keeps [OF ok that]])
  have set': "keeps env st (set_ctx st cid (c1\<lparr>rc_n_resp := n\<rparr>))" for n
    using set [where n = n and d = "rc_done c1"] unfolding done_same [symmetric] .
  have impl': "keeps env st st'" if "req_conts_impl env ev (set_ctx st cid (c1\<lparr>rc_n_resp := n\<rparr>)) cl k cid = Some st'"
    for n k cl
    by (rule keeps_trans [OF set' req_conts_impl_keeps [OF ok that]])
  show ?thesis
    using c c1 set' by (auto simp: req_conts_def Let_def simp del: req_conts_impl.simps split: if_splits dest: impl impl')
qed

lemma abd_request_keeps:
  assumes ok: "penv_ok env cap" "ev_ok env ev" "ev_attempts ev = []"
    and c: "abd_request env ev st rt h req = Some st'"
  shows "keeps env st st'"
  using c by (cases rt) (auto dest: handle_start_keeps [OF ok(1,2)] handle_queries_keep [OF ok(2)] handle_put_replica_keeps [OF ok])

lemma send_cmd_keeps:
  assumes "ev_ok env ev" "send_cmd env ev st cmd = Some st'"
  shows "keeps env st st'"
proof -
  let ?st = "st\<lparr>ab_ctxs := ab_ctxs st @ [rc_create (ab_max_package_size st) None]\<rparr>"
  obtain c ki c' reqs bld where D: "ctx_at ?st (length (ab_ctxs st)) = Some c"
    "rc_send_msg (pe_evp env) (pe_fresh env) (ev_iv ev) (ab_cipher st) (length (ab_ctxs st)) c
       (map ri_session_id (ab_replicas_infos st)) Cmd CmdRet bld = Some (ki, c', reqs)"
    "st' = (set_ctx ?st (length (ab_ctxs st)) c')\<lparr>ab_cipher := ki, ab_out := ab_out st @ map Enqueue_request reqs\<rparr>"
    using assms(2) by (auto simp: send_cmd_def bind_eq_Some_conv Let_def create_rep_context_def)
  have "c = rc_create (ab_max_package_size st) None" using D(1) by (simp add: ctx_at_def)
  then show ?thesis
    using D(3) rc_send_msg_wf [OF D(2)] assms(1)
    by (intro keepsI) (auto simp: ev_ok_def rc_create_def dest!: set_update_subset_insert [THEN subsetD])
qed

section \<open>The cluster\<close>

text \<open>
  One event at one node.  The bytes of requests and responses, the request types, contexts and
  messages are arbitrary.
\<close>

inductive node_event :: "('s, 'p) penv \<Rightarrow> 's abd \<Rightarrow> 's abd \<Rightarrow> bool" for env where
  request: "ev_ok env ev \<Longrightarrow> ev_attempts ev = [] \<Longrightarrow> abd_request env ev st rt h req = Some st' \<Longrightarrow> node_event env st st'"
| response: "ev_ok env ev \<Longrightarrow> ev_attempts ev = [] \<Longrightarrow> req_conts env ev st call cid resp = Some st' \<Longrightarrow> node_event env st st'"
| start_put: "ev_ok env ev \<Longrightarrow> benchmark_put env ev st m = Some st' \<Longrightarrow> node_event env st st'"
| start_get: "ev_ok env ev \<Longrightarrow> benchmark_get env ev st m = Some st' \<Longrightarrow> node_event env st st'"
| command: "ev_ok env ev \<Longrightarrow> send_cmd env ev st cmd = Some st' \<Longrightarrow> node_event env st st'"

inductive_cases node_eventE: "node_event env st st'"

lemma node_event_keeps:
  assumes "penv_ok env cap" "node_event env st st'"
  shows "keeps env st st'"
  using assms(2)
proof (cases rule: node_event.cases)
  case (request ev rt h req)
  then show ?thesis using abd_request_keeps [OF assms(1)] by blast
next
  case (response ev call cid resp)
  then show ?thesis using req_conts_keeps [OF assms(1)] by blast
next
  case (start_put ev m)
  then show ?thesis using benchmark_keeps(1) [OF assms(1)] by blast
next
  case (start_get ev m)
  then show ?thesis using benchmark_keeps(2) [OF assms(1)] by blast
next
  case (command ev cmd)
  then show ?thesis using send_cmd_keeps by blast
qed

inductive cluster_step :: "('s, 'p) penv \<Rightarrow> (nat \<Rightarrow> 's abd) \<Rightarrow> (nat \<Rightarrow> 's abd) \<Rightarrow> bool" for env where
  at_node: "node_event env (s i) st \<Longrightarrow> cluster_step env s (s(i := st))"

inductive_cases cluster_stepE: "cluster_step env s t"

lemma cluster_step_node:
  assumes "penv_ok env cap" "cluster_step env s t"
  obtains i st where "t = s(i := st)" "keeps env (s i) st"
  using assms by (auto elim!: cluster_stepE intro: node_event_keeps)

definition cluster_inv :: "nat \<times> ('s, 'p) penv \<times> (nat \<Rightarrow> 's abd) \<Rightarrow> bool" where
  "cluster_inv = (\<lambda>(cap, env, s). penv_ok env cap \<and> (\<forall>i. abd_inv env (s i)))"

definition cluster_clock :: "nat \<times> ('s, 'p) penv \<times> (nat \<Rightarrow> 's abd) \<Rightarrow> nat \<times> bytes \<Rightarrow> lamport" where
  "cluster_clock = (\<lambda>(cap, env, s) (i, k). clock_of env (s i) k)"

definition cluster_next ::
  "nat \<times> ('s, 'p) penv \<times> (nat \<Rightarrow> 's abd) \<Rightarrow> nat \<times> ('s, 'p) penv \<times> (nat \<Rightarrow> 's abd) \<Rightarrow> bool" where
  "cluster_next = (\<lambda>(cap, env, s) (cap', env', t). cap' = cap \<and> env' = env \<and> cluster_step env s t)"

interpretation cluster: monotone_system cluster_inv cluster_clock cluster_next
proof unfold_locales
  fix a b :: "nat \<times> ('s, 'p) penv \<times> (nat \<Rightarrow> 's abd)"
  assume inv: "cluster_inv a" and step: "cluster_next a b"
  obtain cap env s t where ab: "a = (cap, env, s)" "b = (cap, env, t)" "cluster_step env s t" "penv_ok env cap"
    using inv step by (auto simp: cluster_inv_def cluster_next_def)
  obtain i st where "t = s(i := st)" "keeps env (s i) st" by (rule cluster_step_node [OF ab(4,3)])
  then show "cluster_inv b" "\<And>k. cluster_clock a k \<le> cluster_clock b k"
    using inv ab(1,2) keeps_clock [of env "s i" st] by (auto simp: cluster_inv_def cluster_clock_def keeps_def)
qed

lemma cluster_run_next:
  "(cluster_step env)\<^sup>*\<^sup>* s t \<Longrightarrow> cluster_next\<^sup>*\<^sup>* (cap, env, s) (cap, env, t)"
proof (induction rule: rtranclp_induct)
  case (step t u)
  then have "cluster_next (cap, env, t) (cap, env, u)" by (simp add: cluster_next_def)
  with step.IH show ?case by (rule rtranclp.rtrancl_into_rtrancl)
qed simp

lemma cluster_run_mono:
  assumes "penv_ok env cap" "\<forall>i. abd_inv env (s i)" "(cluster_step env)\<^sup>*\<^sup>* s t"
  shows "abd_inv env (t i)" "clock_of env (s i) k \<le> clock_of env (t i) k"
  using cluster.run_mono [OF cluster_run_next [OF assms(3), of cap], of "(i, k)"] assms(1,2)
  by (auto simp: cluster_inv_def cluster_clock_def)

section \<open>The cluster implements the registers\<close>

definition cluster_regs :: "nat \<times> ('s, 'p) penv \<times> (nat \<Rightarrow> 's abd) \<Rightarrow> nat \<Rightarrow> registers" where
  "cluster_regs = (\<lambda>(cap, env, s) i. look env (s i))"

interpretation cluster_sim: refinement_mapping cluster_inv cluster_regs cluster_next reg_step
proof unfold_locales
  fix a b :: "nat \<times> ('s, 'p) penv \<times> (nat \<Rightarrow> 's abd)"
  assume inv: "cluster_inv a" and step: "cluster_next a b"
  show "cluster_inv b" by (rule cluster.step_inv [OF inv step])
  obtain cap env s t where ab: "a = (cap, env, s)" "b = (cap, env, t)" "cluster_step env s t" "penv_ok env cap"
    using inv step by (auto simp: cluster_inv_def cluster_next_def)
  obtain i st where i: "t = s(i := st)" "keeps env (s i) st" by (rule cluster_step_node [OF ab(4,3)])
  have "abd_inv env (s i)" using inv ab(1) by (simp add: cluster_inv_def)
  then have "reg_write\<^sup>*\<^sup>* (cluster_regs a i) (look env st)"
    using i(2) ab(1) by (simp add: keeps_def cluster_regs_def)
  then have "reg_step\<^sup>*\<^sup>* (cluster_regs a) ((cluster_regs a)(i := look env st))" by (rule reg_steps_at)
  moreover have "cluster_regs b = (cluster_regs a)(i := look env st)"
    using ab i(1) by (auto simp: cluster_regs_def)
  ultimately show "reg_step\<^sup>*\<^sup>* (cluster_regs a) (cluster_regs b)" by simp
qed

lemma cluster_run_registers:
  assumes "penv_ok env cap" "\<forall>i. abd_inv env (s i)" "(cluster_step env)\<^sup>*\<^sup>* s t"
  shows "reg_step\<^sup>*\<^sup>* (\<lambda>i. look env (s i)) (\<lambda>i. look env (t i))"
  using cluster_sim.run_sim [OF cluster_run_next [OF assms(3), of cap]] assms(1,2)
  by (simp add: cluster_inv_def cluster_regs_def)

end
