(* ===== verification/Ordered_List.thy ===== *)
theory Ordered_List
  imports Memtable
begin

text \<open>
  A concrete ordered list with the calls of the skip list that the memtable uses: it keeps the nodes
  sorted by the node comparison of \<open>src/include/memtable/meta_data.h\<close> and navigates with nothing else, as
  a skip list does.  It satisfies \<open>skiplist_ok\<close>, so the assumptions of the memtable about folly's list
  can hold together, and they hold because the node comparison is a strict total order on keys.  The
  witnesses of the properties evaluate the memtable on it.
\<close>

fun ol_insert :: "node list \<Rightarrow> node \<Rightarrow> node list \<times> bool" where
  "ol_insert [] n = ([n], True)"
| "ol_insert (x # xs) n =
     (if node_less n x then (n # x # xs, True)
      else if node_less x n then (let (ys, added) = ol_insert xs n in (x # ys, added))
      else (x # xs, False))"

fun ol_find :: "node list \<Rightarrow> node \<Rightarrow> bytes option" where
  "ol_find [] n = None"
| "ol_find (x # xs) n =
     (if node_less x n then ol_find xs n
      else if node_less n x then None else Some (nd_key x))"

definition ol_view :: "node list \<Rightarrow> bytes \<Rightarrow> node option" where
  "ol_view xs k = find (\<lambda>x. nd_key x = k) xs"

definition ol_get :: "node list \<Rightarrow> bytes \<Rightarrow> node" where
  "ol_get xs k = (case ol_view xs k of Some x \<Rightarrow> x | None \<Rightarrow> \<lparr>nd_key = k, nd_meta = None\<rparr>)"

definition ol_set_meta :: "node list \<Rightarrow> bytes \<Rightarrow> meta_data option \<Rightarrow> node list" where
  "ol_set_meta xs k m = map (\<lambda>x. if nd_key x = k then x\<lparr>nd_meta := m\<rparr> else x) xs"

definition ordered_list :: "(node list, bytes) skiplist" where
  "ordered_list = \<lparr>
     sl_add = (\<lambda>xs n. let (ys, added) = ol_insert xs n in (ys, nd_key n, added)),
     sl_find = ol_find, sl_get = ol_get, sl_set_meta = ol_set_meta,
     sl_view = ol_view, sl_inv = sorted_wrt node_less\<rparr>"

lemma ol_view_simps [simp]:
  "ol_view [] k = None"
  "ol_view (x # xs) k = (if nd_key x = k then Some x else ol_view xs k)"
  by (simp_all add: ol_view_def)

lemma ol_view_None_iff: "ol_view xs k = None \<longleftrightarrow> k \<notin> nd_key ` set xs"
  by (induction xs) auto

lemma ol_view_less:
  "sorted_wrt node_less xs \<Longrightarrow> \<forall>x \<in> set xs. node_less n x \<Longrightarrow> ol_view xs (nd_key n) = None"
  by (auto simp: ol_view_None_iff) (metis node_equiv_iff)

lemma ol_find_key: "ol_find xs n = Some k \<Longrightarrow> k = nd_key n"
proof (induction xs)
  case (Cons x xs)
  then show ?case
    using node_equiv_iff [of x n] by (cases "node_less x n"; cases "node_less n x") simp_all
qed simp

lemma ol_find_view:
  "sorted_wrt node_less xs \<Longrightarrow> ol_view xs (nd_key n) = map_option (ol_get xs) (ol_find xs n)"
proof (induction xs)
  case Nil
  then show ?case by simp
next
  case (Cons x xs)
  consider "node_less x n" | "node_less n x" "\<not> node_less x n" | "nd_key x = nd_key n"
    using node_less_total by blast
  then show ?case
  proof cases
    case 1
    then have ne: "nd_key x \<noteq> nd_key n" using node_less_neq by blast
    have "ol_get (x # xs) k = ol_get xs k" if "ol_find xs n = Some k" for k
    proof -
      have "\<exists>y. ol_view xs (nd_key n) = Some y" using Cons that by simp
      moreover have "k = nd_key n" using that by (rule ol_find_key)
      ultimately show ?thesis using ne by (simp add: ol_get_def)
    qed
    then show ?thesis using 1 ne Cons by (cases "ol_find xs n") auto
  next
    case 2
    then have "\<forall>y \<in> set (x # xs). node_less n y"
      using Cons.prems node_less_trans by auto
    then have "ol_view (x # xs) (nd_key n) = None" using Cons.prems by (intro ol_view_less)
    then show ?thesis using 2 by simp
  next
    case 3
    then show ?thesis using node_less_neq [of x n] node_less_neq [of n x] by (simp add: ol_get_def)
  qed
qed

lemma ol_insert_set: "ol_insert xs n = (ys, b) \<Longrightarrow> set ys \<subseteq> insert n (set xs)"
  by (induction xs arbitrary: ys) (auto simp: Let_def split: if_splits prod.splits)

lemma ol_insert_sorted:
  "sorted_wrt node_less xs \<Longrightarrow> ol_insert xs n = (ys, b) \<Longrightarrow> sorted_wrt node_less ys"
proof (induction xs arbitrary: ys)
  case Nil
  then show ?case by auto
next
  case (Cons x xs)
  show ?case
  proof (cases "node_less x n \<and> \<not> node_less n x")
    case True
    then obtain zs where zs: "ol_insert xs n = (zs, b)" "ys = x # zs"
      using Cons.prems by (auto simp: Let_def split: prod.splits)
    have "\<forall>y \<in> set zs. node_less x y"
      using ol_insert_set [OF zs(1)] Cons.prems(1) True by auto
    then show ?thesis using Cons.IH [OF _ zs(1)] Cons.prems(1) zs(2) by simp
  next
    case False
    then show ?thesis
      using Cons.prems node_less_trans by (fastforce split: if_splits)
  qed
qed

lemma ol_insert_view:
  assumes "sorted_wrt node_less xs" "ol_insert xs n = (ys, b)"
  shows "b \<longleftrightarrow> ol_view xs (nd_key n) = None"
    and "b \<Longrightarrow> ol_view ys = (ol_view xs)(nd_key n \<mapsto> n)" and "\<not> b \<Longrightarrow> ys = xs"
proof -
  have "(b \<longleftrightarrow> ol_view xs (nd_key n) = None) \<and> (b \<longrightarrow> ol_view ys = (ol_view xs)(nd_key n \<mapsto> n)) \<and> (\<not> b \<longrightarrow> ys = xs)"
    using assms
  proof (induction xs arbitrary: ys)
    case Nil
    then show ?case by (auto simp: fun_eq_iff)
  next
    case (Cons x xs)
    consider "node_less n x" | "node_less x n" "\<not> node_less n x" | "nd_key x = nd_key n"
      using node_less_total by blast
    then show ?case
    proof cases
      case 1
      then have "\<forall>y \<in> set (x # xs). node_less n y"
        using Cons.prems(1) node_less_trans by auto
      then have "ol_view (x # xs) (nd_key n) = None" using Cons.prems(1) by (intro ol_view_less)
      then show ?thesis using 1 Cons.prems(2) by (auto simp: fun_eq_iff split: if_splits)
    next
      case 2
      then obtain zs where zs: "ol_insert xs n = (zs, b)" "ys = x # zs"
        using Cons.prems by (auto simp: Let_def split: prod.splits)
      have "nd_key x \<noteq> nd_key n" using 2 node_less_neq by blast
      then show ?thesis using Cons.IH [OF _ zs(1)] Cons.prems(1) zs(2) by (auto simp: fun_eq_iff)
    next
      case 3
      then show ?thesis
        using Cons.prems(2) node_less_neq [of x n] node_less_neq [of n x] by auto
    qed
  qed
  then show "b \<longleftrightarrow> ol_view xs (nd_key n) = None"
    and "b \<Longrightarrow> ol_view ys = (ol_view xs)(nd_key n \<mapsto> n)" and "\<not> b \<Longrightarrow> ys = xs" by auto
qed

lemma node_less_set_meta [simp]:
  "node_less (x\<lparr>nd_meta := m\<rparr>) y = node_less x y" "node_less x (y\<lparr>nd_meta := m\<rparr>) = node_less x y"
  by (simp_all add: node_less_def)

lemma ol_set_meta_sorted: "sorted_wrt node_less xs \<Longrightarrow> sorted_wrt node_less (ol_set_meta xs k m)"
  by (induction xs) (auto simp: ol_set_meta_def)

lemma ol_set_meta_view:
  "ol_view xs k = Some x \<Longrightarrow> ol_view (ol_set_meta xs k m) = (ol_view xs)(k \<mapsto> x\<lparr>nd_meta := m\<rparr>)"
proof (induction xs)
  case (Cons y xs)
  have rest: "ol_view (ol_set_meta xs k m) j = ol_view xs j" if "j \<noteq> k" for j
    using that by (induction xs) (auto simp: ol_set_meta_def)
  have split: "ol_set_meta (y # xs) k m = (if nd_key y = k then y\<lparr>nd_meta := m\<rparr> else y) # ol_set_meta xs k m"
    by (simp add: ol_set_meta_def)
  show ?case
    using Cons rest by (auto simp: fun_eq_iff split split: if_splits)
qed simp

lemma ordered_list_ok [simp]: "skiplist_ok ordered_list"
proof -
  have "sl_view ordered_list s (nd_key n) = map_option (sl_get ordered_list s) (sl_find ordered_list s n)"
    if "sl_inv ordered_list s" for s n
    using that ol_find_view by (simp add: ordered_list_def)
  moreover have "sl_inv ordered_list s' \<and> (added \<longleftrightarrow> sl_view ordered_list s (nd_key n) = None) \<and>
      (added \<longrightarrow> sl_view ordered_list s' = (sl_view ordered_list s)(nd_key n \<mapsto> n)) \<and>
      (\<not> added \<longrightarrow> sl_view ordered_list s' = sl_view ordered_list s \<and>
         sl_view ordered_list s (nd_key n) = Some (sl_get ordered_list s' p) \<and>
         (\<forall>m. sl_inv ordered_list (sl_set_meta ordered_list s' p m) \<and>
            sl_view ordered_list (sl_set_meta ordered_list s' p m) =
            (sl_view ordered_list s')(nd_key n \<mapsto> (sl_get ordered_list s' p)\<lparr>nd_meta := m\<rparr>)))"
    if inv: "sl_inv ordered_list s" and add: "sl_add ordered_list s n = (s', p, added)" for s n s' p added
  proof -
    from add have ins: "ol_insert s n = (s', added)" and p: "p = nd_key n"
      by (auto simp: ordered_list_def split: prod.splits)
    from inv have sorted: "sorted_wrt node_less s" by (simp add: ordered_list_def)
    note V = ol_insert_view [OF sorted ins]
    show ?thesis
    proof (cases added)
      case True
      then show ?thesis
        using V ol_insert_sorted [OF sorted ins] by (simp add: ordered_list_def)
    next
      case False
      then obtain x where "ol_view s (nd_key n) = Some x" using V by auto
      then show ?thesis
        using False V sorted p
        by (simp add: ordered_list_def ol_get_def ol_set_meta_sorted ol_set_meta_view)
    qed
  qed
  ultimately show ?thesis unfolding skiplist_ok_def by blast
qed

text \<open>An environment for the witnesses: slab elements of 32 bytes, the key of \<open>main\<close> in \<open>server.cpp\<close>.\<close>

definition demo_key :: bytes where
  "demo_key = [0, 1, 2, 3, 4, 5, 6, 7, 8, 9, 10, 11, 12, 13, 14, 15]"

definition demo_cipher :: cipher_ssl where
  "demo_cipher = \<lparr>cs_key = demo_key, cs_iv = take 12 demo_key\<rparr>"

definition demo_env :: "(node list, bytes) kv_env" where
  "demo_env = \<lparr>ke_sl = ordered_list, ke_evp = xor_evp, ke_cipher = demo_cipher,
     ke_elem = (\<lambda>_. replicate 32 0), ke_mac0 = (\<lambda>_. replicate 16 0)\<rparr>"

definition demo_store :: "node list kv_store" where
  "demo_store = \<lparr>kv_skip = [], kv_next = 0\<rparr>"

lemma demo_env_sl [simp]: "ke_sl demo_env = ordered_list"
  by (simp add: demo_env_def)

lemma demo_env_ok [simp]: "env_ok demo_env 32"
  by (simp add: env_ok_def demo_env_def cipher_wf_def demo_cipher_def demo_key_def)

lemma demo_store_wf [simp]: "kv_wf env \<lparr>kv_skip = [], kv_next = n\<rparr>" if "ke_sl env = ordered_list"
  using that by (simp add: kv_wf_def ordered_list_def)

section \<open>Properties\<close>

text \<open>
  The node comparison that the skip list navigates with (shorter keys first, then bytes) is a strict
  total order, and two nodes are equivalent for the list exactly when their keys are equal.
\<close>

lemma node_order_total:
  "\<not> node_less a a \<and> (node_less a b \<longrightarrow> node_less b c \<longrightarrow> node_less a c) \<and>
   (node_less a b \<or> nd_key a = nd_key b \<or> node_less b a) \<and>
   (\<not> node_less a b \<and> \<not> node_less b a \<longleftrightarrow> nd_key a = nd_key b)"
  using node_less_trans [of a b c] node_less_total [of a b] node_equiv_iff [of a b] by simp

lemma node_order_total_example:
  "node_less \<lparr>nd_key = [9], nd_meta = None\<rparr> \<lparr>nd_key = [1, 1], nd_meta = None\<rparr> \<and>
   node_less \<lparr>nd_key = [1, 1], nd_meta = None\<rparr> \<lparr>nd_key = [1, 2], nd_meta = None\<rparr> \<and>
   node_less \<lparr>nd_key = [9], nd_meta = None\<rparr> \<lparr>nd_key = [1, 2], nd_meta = None\<rparr>"
  using node_order_total [of "\<lparr>nd_key = [9], nd_meta = None\<rparr>" "\<lparr>nd_key = [1, 1], nd_meta = None\<rparr>"
      "\<lparr>nd_key = [1, 2], nd_meta = None\<rparr>"]
  by (simp add: node_less_def)

text \<open>
  C13. Functional behaviour of the memtable: a put with a clock returns whether the key was absent or had a
  smaller clock, and exactly then replaces the entry; a following get returns the entry with the
  larger clock, and the gets of all other keys return what they returned before.
\<close>

theorem put_then_get:
  assumes "env_ok env cap" "kv_wf env st" "length k < 2 ^ 64" "length v \<le> cap" "length j < 2 ^ 64"
  shows "\<exists>st'. kv_put_value env [] st (size_of k) k (size_of v) (Some v) c =
      Some (st', kv_look env st k = None \<or> old_clock (kv_look env st k) < c) \<and>
    kv_wf env st' \<and>
    kv_get_key env st' (size_of k) k =
      (case newer (kv_look env st k) (c, v) of (c', v') \<Rightarrow>
         Some \<lparr>rv_lamport = c', rv_size = size_of v', rv_value = Some v'\<rparr>) \<and>
    (j \<noteq> k \<longrightarrow> kv_get_key env st' (size_of j) j = kv_get_key env st (size_of j) j)"
proof -
  obtain st' where st': "kv_put_value env [] st (size_of k) (k @ []) (size_of v) (Some v) c =
       Some (st', kv_look env st k = None \<or> old_clock (kv_look env st k) < c)"
    "kv_wf env st'" "kv_look env st' = (kv_look env st)(k \<mapsto> newer (kv_look env st k) (c, v))"
    by (rule kv_put_value_spec [OF assms(1-4), where p = "Some v" and vrest = "[]" and krest = "[]" and c = c]) auto
  show ?thesis
    using st' kv_get_key_spec [OF assms(1) st'(2) assms(3), of "[]"]
      kv_get_key_spec [OF assms(1) st'(2) assms(5), of "[]"] kv_get_key_spec [OF assms(1,2,5), of "[]"]
    by (intro exI [of _ st']) (simp split: prod.split)
qed

theorem put_then_get_witness:
  "\<exists>st'. kv_put_value demo_env [] \<lparr>kv_skip = [], kv_next = 0\<rparr> (size_of [1 :: u8]) [1] (size_of [2 :: u8]) (Some [2])
       (Lamport 5 1) = Some (st', True) \<and>
     kv_get_key demo_env st' (size_of [1 :: u8]) [1] =
       Some \<lparr>rv_lamport = Lamport 5 1, rv_size = size_of [2 :: u8], rv_value = Some [2]\<rparr>"
proof -
  have "kv_look demo_env \<lparr>kv_skip = [], kv_next = 0\<rparr> k = None" for k
    by (simp add: kv_look_def) (simp add: ordered_list_def)
  then show ?thesis
    using put_then_get [of demo_env 32 "\<lparr>kv_skip = [], kv_next = 0\<rparr>" "[1]" "[2]" "[3]" "Lamport 5 1"]
    by auto
qed

text \<open>
  C11. Concurrent puts: whatever other threads store into the node between the attempts of the
  compare-and-exchange loop, and however often an attempt fails spuriously, the put ends with a
  clock in the store that is at least its own, a returned \<open>true\<close> means that its own value is there,
  and no other key changes.
\<close>

theorem put_concurrent:
  assumes "env_ok env cap" "kv_wf env st" "length k < 2 ^ 64" "length v \<le> cap"
    and "\<And>a x. a \<in> set as \<Longrightarrow> at_store a = Some x \<Longrightarrow> meta_ok env x"
  shows "\<exists>st' b c' v'. kv_put_value env as st (size_of k) k (size_of v) (Some v) c = Some (st', b) \<and>
    kv_wf env st' \<and> kv_look env st' = (kv_look env st)(k \<mapsto> (c', v')) \<and> c \<le> c' \<and>
    (b \<longrightarrow> (c', v') = (c, v))"
proof -
  obtain m where m: "create_node env st (size_of k) (k @ []) (size_of v) (Some v) c =
       Some (st\<lparr>kv_next := Suc (kv_next st)\<rparr>, \<lparr>nd_key = k, nd_meta = Some m\<rparr>)"
    "meta_value env m = Some v" "md_clock m = c" "meta_ok env m"
    by (rule create_node_ok [OF assms(1,4,3), where p = "Some v" and vrest = "[]" and krest = "[]"]) auto
  let ?st = "st\<lparr>kv_next := Suc (kv_next st)\<rparr>" and ?n = "\<lparr>nd_key = k, nd_meta = Some m\<rparr>"
  have wf: "kv_wf env ?st" and look: "kv_look env ?st = kv_look env st"
    using assms(2) by (simp_all add: kv_wf_def kv_look_def fun_eq_iff)
  obtain st' b m' where put: "kv_put env as ?st ?n = Some (st', b)" "kv_wf env st'"
    "kv_look env st' = (kv_look env st)(k := map_option (\<lambda>v. (md_clock m', v)) (meta_value env m'))"
    "meta_ok env m'" "c \<le> md_clock m'" "b \<longrightarrow> m' = m"
    by (rule kv_put_general [OF assms(1) wf _ m(4), of ?n as])
      (use assms(5) look m(3) in \<open>auto intro: that\<close>)
  obtain v' where v': "meta_value env m' = Some v'" using put(4) by (auto simp: meta_ok_def)
  show ?thesis
    using put m v' by (intro exI [of _ st'] exI [of _ b] exI [of _ "md_clock m'"] exI [of _ v'])
      (auto simp: kv_put_value_def)
qed

theorem put_concurrent_witness:
  "\<exists>st' b c' v'. kv_put_value demo_env [\<lparr>at_store = None, at_spurious = True\<rparr>] \<lparr>kv_skip = [], kv_next = 0\<rparr>
       (size_of [1 :: u8]) [1] (size_of [2 :: u8]) (Some [2]) (Lamport 5 1) = Some (st', b) \<and>
     kv_look demo_env st' [1] = Some (c', v') \<and> Lamport 5 1 \<le> c'"
proof -
  have "\<exists>st' b c' v'. kv_put_value demo_env [\<lparr>at_store = None, at_spurious = True\<rparr>] \<lparr>kv_skip = [], kv_next = 0\<rparr>
       (size_of [1 :: u8]) [1] (size_of [2 :: u8]) (Some [2]) (Lamport 5 1) = Some (st', b) \<and>
    kv_wf demo_env st' \<and> kv_look demo_env st' = (kv_look demo_env \<lparr>kv_skip = [], kv_next = 0\<rparr>)([1] \<mapsto> (c', v')) \<and>
    Lamport 5 1 \<le> c' \<and> (b \<longrightarrow> (c', v') = (Lamport 5 1, [2]))"
    by (rule put_concurrent [OF demo_env_ok]) simp_all
  then show ?thesis by fastforce
qed

text \<open>
  C12. Replicas converge: two replicas that apply the same set of timestamped writes, in any order and with
  any repetitions, end with the same content, provided no two writes of a key share a clock but not
  the value.
\<close>

theorem replicas_converge:
  assumes "mem_inv s" "set xs = set ys" "\<forall>(k, c, v) \<in> set xs. mem_admits s k v"
    and "\<And>k c v v'. (c, v) \<in> candidates (mem_look s k) xs k \<Longrightarrow> (c, v') \<in> candidates (mem_look s k) xs k \<Longrightarrow> v = v'"
  shows "\<exists>s1 s2. put_all mem_put s xs = Some s1 \<and> put_all mem_put s ys = Some s2 \<and>
    mem_inv s1 \<and> mem_inv s2 \<and> mem_look s1 = mem_look s2"
proof -
  obtain s1 where s1: "put_all mem_put s xs = Some s1" "mem_inv s1"
    "\<And>k. case mem_look s1 k of
        None \<Rightarrow> candidates (mem_look s k) xs k = {}
      | Some (c, v) \<Rightarrow> (c, v) \<in> candidates (mem_look s k) xs k \<and>
          (\<forall>(c', v') \<in> candidates (mem_look s k) xs k. c' \<le> c)"
    by (rule kv.put_all_look [OF assms(1,3)]) (rule that)
  have "\<forall>(k, c, v) \<in> set ys. mem_admits s k v" using assms(2,3) by simp
  then obtain s2 where s2: "put_all mem_put s ys = Some s2" "mem_inv s2"
    "\<And>k. case mem_look s2 k of
        None \<Rightarrow> candidates (mem_look s k) ys k = {}
      | Some (c, v) \<Rightarrow> (c, v) \<in> candidates (mem_look s k) ys k \<and>
          (\<forall>(c', v') \<in> candidates (mem_look s k) ys k. c' \<le> c)"
    by (rule kv.put_all_look [OF assms(1)]) (rule that)
  have same: "candidates (mem_look s k) ys k = candidates (mem_look s k) xs k" for k
    using assms(2) by (simp add: candidates_def)
  have "mem_look s1 k = mem_look s2 k" for k
  proof (cases "mem_look s1 k")
    case None
    then show ?thesis using s1(3) [of k] s2(3) [of k] same by (auto split: option.splits)
  next
    case (Some cv)
    obtain c v where cv: "cv = (c, v)" by (cases cv)
    then have 1: "(c, v) \<in> candidates (mem_look s k) xs k" "\<forall>(c', v') \<in> candidates (mem_look s k) xs k. c' \<le> c"
      using s1(3) [of k] Some by simp_all
    then obtain c2 v2 where 2: "mem_look s2 k = Some (c2, v2)"
      using s2(3) [of k] same by (cases "mem_look s2 k") auto
    then have 3: "(c2, v2) \<in> candidates (mem_look s k) xs k" "\<forall>(c', v') \<in> candidates (mem_look s k) xs k. c' \<le> c2"
      using s2(3) [of k] same by simp_all
    have "c = c2" using 1 3 by (auto intro: order_antisym)
    with 1 3 have "v = v2" using assms(4) by blast
    with Some cv 2 \<open>c = c2\<close> show ?thesis by simp
  qed
  then show ?thesis using s1(1,2) s2(1,2) by (auto simp: fun_eq_iff)
qed

theorem replicas_converge_witness:
  "\<exists>s1 s2. put_all mem_put (demo_env, 32, \<lparr>kv_skip = [], kv_next = 0\<rparr>)
       [([1], Lamport 1 1, [7]), ([1], Lamport 2 1, [8])] = Some s1 \<and>
     put_all mem_put (demo_env, 32, \<lparr>kv_skip = [], kv_next = 0\<rparr>)
       [([1], Lamport 2 1, [8]), ([1], Lamport 1 1, [7]), ([1], Lamport 2 1, [8])] = Some s2 \<and>
     mem_look s1 = mem_look s2"
proof -
  have "mem_look (demo_env, 32, \<lparr>kv_skip = [], kv_next = 0\<rparr>) k = None" for k
    by (simp add: mem_look_def kv_look_def) (simp add: ordered_list_def)
  moreover have "mem_inv (demo_env, 32, \<lparr>kv_skip = [], kv_next = 0\<rparr>)"
    by (simp add: mem_inv_def)
  ultimately have "\<exists>s1 s2. put_all mem_put (demo_env, 32, \<lparr>kv_skip = [], kv_next = 0\<rparr>)
       [([1], Lamport 1 1, [7]), ([1], Lamport 2 1, [8])] = Some s1 \<and>
     put_all mem_put (demo_env, 32, \<lparr>kv_skip = [], kv_next = 0\<rparr>)
       [([1], Lamport 2 1, [8]), ([1], Lamport 1 1, [7]), ([1], Lamport 2 1, [8])] = Some s2 \<and>
     mem_inv s1 \<and> mem_inv s2 \<and> mem_look s1 = mem_look s2"
    by (intro replicas_converge) (auto simp: mem_admits_def candidates_def)
  then show ?thesis by blast
qed



end
