(* ===== verification/Protocol_Properties.thy ===== *)
theory Protocol_Properties
  imports Cluster Ordered_List
begin

text \<open>
  The properties of the protocol, stated over the handlers and continuations of \<open>Protocol\<close>, each with a
  concrete node on which its hypotheses hold.
\<close>

section \<open>A concrete node\<close>

definition demo_packet :: "msg \<Rightarrow> bytes" where
  "demo_packet m = replicate 12 0 @ map (\<lambda>b. b XOR 0x5A) m @ replicate 16 (foldr (+) m 0)"

definition demo_penv :: "(node list, bytes) penv" where
  "demo_penv = \<lparr>pe_kv = demo_env, pe_fresh = (\<lambda>n. replicate n 0), pe_cmd = None, pe_cmd_ret = False\<rparr>"

definition demo_abd :: "node list abd" where
  "demo_abd = (abd_new 32 7 \<lparr>kv_skip = [], kv_next = 0\<rparr> [] 0
     \<lparr>ki_key = demo_key, ki_iv = replicate 16 0\<rparr>)\<lparr>ab_replicas := [[1, 2]]\<rparr>"

definition demo_event :: event where
  "demo_event = \<lparr>ev_iv = \<lparr>ig_aligned = True, ig_local = replicate 16 0, ig_raw = replicate 16 0, ig_others = []\<rparr>,
     ev_attempts = []\<rparr>"

lemma demo_penv_ok [simp]: "penv_ok demo_penv 32"
  by (simp add: penv_ok_def demo_penv_def fresh_ok_def)

lemma demo_evp [simp]: "pe_evp demo_penv = xor_evp"
  by (simp add: demo_penv_def demo_env_def)

lemma demo_look [simp]: "look demo_penv demo_abd k = None"
  by (simp add: kv_look_def demo_penv_def demo_abd_def abd_new_def) (simp add: ordered_list_def)

lemma demo_abd_inv [simp]: "abd_inv demo_penv demo_abd" "abd_wf demo_penv demo_abd"
  by (simp_all add: abd_inv_def abd_wf_def demo_penv_def demo_abd_def abd_new_def key_iv_wf_def demo_key_def)

lemma demo_event_ok [simp]: "ev_ok demo_penv demo_event" "ev_attempts demo_event = []"
  by (simp_all add: ev_ok_def demo_event_def ig_ok_def)

lemma demo_replicas [simp]: "ab_replicas demo_abd = [[1, 2]]"
  by (simp add: demo_abd_def)

lemma demo_packet_carries:
  assumes "length k + length v + 44 < 2 ^ 64"
  shows "packet_of demo_penv st (demo_packet (encoded k v [])) k v"
proof -
  let ?m = "encoded k v []"
  have "sealed xor_evp (ki_key (ab_cipher st)) ?m (demo_packet ?m) []"
    unfolding sealed_def demo_packet_def
    by (intro exI [of _ "replicate 12 0"] exI [of _ "map (\<lambda>b. b XOR 0x5A) ?m"]
        exI [of _ "replicate 16 (foldr (+) ?m 0)"]) (simp add: xor_evp_def)
  then show ?thesis using assms by (simp add: carries_def demo_packet_def)
qed

text \<open>A pending node, a node state with one fan-out of which the given responses have arrived.\<close>

definition demo_node :: "bytes \<Rightarrow> bytes \<Rightarrow> node" where
  "demo_node k v = snd (the (create_node demo_env \<lparr>kv_skip = [], kv_next = 0\<rparr> (size_of k) k (size_of v) (Some v) lamport_min))"

definition demo_ctx :: "bytes \<Rightarrow> bytes \<Rightarrow> bytes list \<Rightarrow> replica_context" where
  "demo_ctx k v rs = (rc_create 68 None)\<lparr>rc_n_msgs := 2, rc_n_resp := length rs, rc_cache := rs,
     rc_max_resp_size := 1000, rc_data := demo_node k v\<rparr>"

lemma demo_ctx_holds:
  assumes "length v \<le> 32" "length k < 2 ^ 64"
  shows "holds demo_penv (demo_ctx k v rs) k v lamport_min"
proof -
  obtain m where "create_node demo_env \<lparr>kv_skip = [], kv_next = 0\<rparr> (size_of k) (k @ []) (size_of v) (Some v) lamport_min =
       Some (\<lparr>kv_skip = [], kv_next = 0\<rparr>\<lparr>kv_next := Suc (kv_next \<lparr>kv_skip = [], kv_next = 0\<rparr>)\<rparr>,
         \<lparr>nd_key = k, nd_meta = Some m\<rparr>)"
    "meta_value demo_env m = Some v" "md_clock m = lamport_min" "md_data_size m = size_of v" "meta_ok demo_env m"
    by (rule create_node_ok [OF demo_env_ok assms, where p = "Some v" and vrest = "[]" and krest = "[]"
          and st = "\<lparr>kv_skip = [], kv_next = 0\<rparr>" and c = lamport_min]) (auto intro: that)
  then show ?thesis by (simp add: holds_def demo_ctx_def demo_node_def demo_penv_def)
qed

lemma demo_ctx_wf:
  assumes "\<forall>r \<in> set rs. 28 < length r \<and> length r < 1000"
  shows "rc_wf (demo_ctx k v rs)"
proof -
  have "28 < length r \<and> length r < 2 ^ 64 \<and> length r - 28 \<le> unat (1000 :: u64)" if "r \<in> set rs" for r
    using assms that by (auto dest!: bspec)
  then show ?thesis by (simp add: rc_wf_def demo_ctx_def)
qed

definition demo_run :: "bytes \<Rightarrow> bytes \<Rightarrow> bytes list \<Rightarrow> node list abd" where
  "demo_run k v rs = demo_abd\<lparr>ab_ctxs := [demo_ctx k v rs]\<rparr>"

lemma demo_run_simps [simp]:
  "ctx_at (demo_run k v rs) 0 = Some (demo_ctx k v rs)" "ab_replicas (demo_run k v rs) = [[1, 2]]"
  "abd_wf demo_penv (demo_run k v rs)" "look demo_penv (demo_run k v rs) j = None"
  "ab_cipher (demo_run k v rs) = ab_cipher demo_abd"
  using demo_abd_inv(2) demo_look [of j]
  by (simp_all add: demo_run_def ctx_at_def abd_wf_def del: demo_look demo_abd_inv)

section \<open>Properties\<close>

text \<open>
  A timestamp query is answered, with the clock of the key in the store, or the minimal clock if the key
  is absent; the store does not change.
\<close>

lemma timestamp_query_answered:
  assumes "penv_ok env cap" "abd_wf env st" "ev_ok env ev" "packet_of env st req k v"
  shows "\<exists>st'. abd_request env ev st GetTimeStamp h req = Some st' \<and>
    answers env st (Some h) (lamport_bytes (old_clock (look env st k))) [] st'"
  using handle_get_time_stamp_spec [OF assms, of h] by auto

lemma timestamp_query_answered_example:
  "\<exists>st'. abd_request demo_penv demo_event demo_abd GetTimeStamp 0 (demo_packet (encoded [1] [] [])) = Some st' \<and>
     answers demo_penv demo_abd (Some 0) (lamport_bytes lamport_min) [] st'"
  using timestamp_query_answered [OF demo_penv_ok demo_abd_inv(2) demo_event_ok(1) demo_packet_carries, of "[1]" "[]" 0]
  by simp

text \<open>
  A value query is answered with the key, the clock and the value of the store (minimal clock and no
  value for an absent key); the store does not change.
\<close>

lemma value_query_answered:
  assumes "penv_ok env cap" "abd_wf env st" "ev_ok env ev" "packet_of env st req k v"
    and "length k + 52 < 2 ^ 64" "\<And>c w. look env st k = Some (c, w) \<Longrightarrow> length k + length w + 52 < 2 ^ 64"
  shows "\<exists>st'. abd_request env ev st GetValueTimeStamp h req = Some st' \<and>
    answers env st (Some h) (k @ lamport_bytes (old_clock (look env st k)))
      (case look env st k of None \<Rightarrow> [] | Some cv \<Rightarrow> snd cv) st'"
  by (rule handle_get_value_time_stamp_spec [OF assms(1-4) _ assms(5), where h = h]) (use assms(6) in auto)

lemma value_query_answered_example:
  "\<exists>st'. abd_request demo_penv demo_event demo_abd GetValueTimeStamp 0 (demo_packet (encoded [1] [] [])) = Some st' \<and>
     answers demo_penv demo_abd (Some 0) ([1] @ lamport_bytes lamport_min) [] st'"
  using value_query_answered [OF demo_penv_ok demo_abd_inv(2) demo_event_ok(1) demo_packet_carries, of "[1]" "[]" 0]
  by simp

text \<open>
  C10. A replicated put stores the value under its key if the clock in the packet is larger than the clock of
  the store, leaves the entry and all other keys alone otherwise, and is acknowledged in both cases.
\<close>

theorem replicated_put:
  assumes "penv_ok env cap" "abd_wf env st" "ev_ok env ev" "ev_attempts ev = []"
    and "packet_of env st req (k @ lamport_bytes c) v" "length v \<le> cap"
  shows "\<exists>kv st'. abd_request env ev st PutReplica h req = Some st' \<and>
    answers env (st\<lparr>ab_kv := kv\<rparr>) (Some h) [65] [] st' \<and> abd_wf env st' \<and>
    look env st' = (look env st)(k \<mapsto> newer (look env st k) (c, v))"
proof -
  obtain kv st' where st': "handle_put_replica env ev st h req = Some st'"
    "answers env (st\<lparr>ab_kv := kv\<rparr>) (Some h) [65] [] st'" "kv_wf (pe_kv env) kv"
    "kv_look (pe_kv env) kv = (look env st)(k \<mapsto> newer (look env st k) (c, v))"
    by (rule handle_put_replica_spec [OF assms(1-3,5,6,4)])
  have "abd_wf env (st\<lparr>ab_kv := kv\<rparr>)" using assms(2) st'(3) by (simp add: abd_wf_def)
  with st' answersD [OF st'(2)] show ?thesis by (intro exI [of _ kv] exI [of _ st']) simp
qed

theorem replicated_put_witness:
  "\<exists>kv st'. abd_request demo_penv demo_event demo_abd PutReplica 0
       (demo_packet (encoded ([1] @ lamport_bytes (Lamport 3 1)) [9] [])) = Some st' \<and>
     answers demo_penv (demo_abd\<lparr>ab_kv := kv\<rparr>) (Some 0) [65] [] st' \<and> abd_wf demo_penv st' \<and>
     look demo_penv st' = (look demo_penv demo_abd)([1] \<mapsto> newer (look demo_penv demo_abd [1]) (Lamport 3 1, [9]))"
  by (rule replicated_put [OF demo_penv_ok demo_abd_inv(2) demo_event_ok demo_packet_carries]) simp_all

text \<open>
  A client's put goes out as a timestamp query, in one and the same sealed packet, to every replica of
  the group that the last bytes of the key select; the new context holds key and value.  A key whose group
  does not contain this node is skipped.
\<close>

lemma put_first_phase:
  assumes "penv_ok env cap" "abd_wf env st" "ev_ok env ev" "k \<noteq> []" "length v \<le> cap"
    and "length k + length v + 44 < 2 ^ 64" "ab_replicas st \<noteq> []" "key_group st k \<noteq> []"
  shows "\<exists>st' n c. benchmark_put env ev st (encoded k v []) = Some st' \<and>
    c = (rc_create (ab_max_package_size st) None)\<lparr>rc_data := n\<rparr> \<and> holds env c k v lamport_min \<and>
    sends env (with_ctx (increment_traces st) None n) c (length (ab_ctxs st)) (key_group st k)
      GetTimeStamp GetTime k [] st'"
  using benchmark_put_spec [OF assms] by metis

lemma put_first_phase_example:
  "\<exists>st' n c. benchmark_put demo_penv demo_event demo_abd (encoded [1] [9] []) = Some st' \<and>
    c = (rc_create (ab_max_package_size demo_abd) None)\<lparr>rc_data := n\<rparr> \<and> holds demo_penv c [1] [9] lamport_min \<and>
    sends demo_penv (with_ctx (increment_traces demo_abd) None n) c (length (ab_ctxs demo_abd)) (key_group demo_abd [1])
      GetTimeStamp GetTime [1] [] st'"
  by (rule put_first_phase [OF demo_penv_ok]) simp_all

text \<open>
  A client's get goes out as a value query to every replica of the key's group.
\<close>

lemma get_first_phase:
  assumes "penv_ok env cap" "abd_wf env st" "ev_ok env ev" "k \<noteq> []"
    and "length k + length v + 44 < 2 ^ 64" "ab_replicas st \<noteq> []" "key_group st k \<noteq> []"
  shows "\<exists>st' n c. benchmark_get env ev st (encoded k v []) = Some st' \<and>
    c = (rc_create (ab_max_package_size st) None)\<lparr>rc_data := n\<rparr> \<and> holds env c k [] lamport_min \<and>
    sends env (with_ctx (increment_traces st) None n) c (length (ab_ctxs st)) (key_group st k)
      GetValueTimeStamp RetValue k v st'"
  using benchmark_get_spec [OF assms] by metis

lemma get_first_phase_example:
  "\<exists>st' n c. benchmark_get demo_penv demo_event demo_abd (encoded [1] [] []) = Some st' \<and>
    c = (rc_create (ab_max_package_size demo_abd) None)\<lparr>rc_data := n\<rparr> \<and> holds demo_penv c [1] [] lamport_min \<and>
    sends demo_penv (with_ctx (increment_traces demo_abd) None n) c (length (ab_ctxs demo_abd)) (key_group demo_abd [1])
      GetValueTimeStamp RetValue [1] [] st'"
  by (rule get_first_phase [OF demo_penv_ok]) simp_all

text \<open>
  C14. A fan-out to \<open>n\<close> replicas acts on exactly one response, number \<open>max 1 (n div 2)\<close>; every other response,
  earlier or later, is cached and counted and changes nothing else.
\<close>

theorem fan_out_acts_once:
  assumes "call \<noteq> CmdRet" "\<forall>r \<in> set rs. 28 < length r \<and> length r < 2 ^ 64" "rc_n_resp c = 0" "\<not> rc_done c"
  shows "(\<exists>c'. gate_run c rs = Some (c', map (\<lambda>i. Suc i = quorum (rc_n_msgs c)) [0..<length rs]) \<and>
      rc_n_resp c' = length rs \<and> rc_cache c' = rc_cache c @ rs) \<and>
    (ctx_at st cid = Some cx \<longrightarrow> gate cx r = Some (cy, fires) \<longrightarrow>
       req_conts env ev st call cid r =
         (if fires then req_conts_impl env ev (set_ctx st cid cy) call (rc_n_resp cy) cid
          else Some (set_ctx st cid cy)))"
proof -
  have "rc_done c \<longleftrightarrow> quorum (rc_n_msgs c) \<le> rc_n_resp c" using assms(3,4) by (simp add: quorum_def)
  from gate_run_fires [OF assms(2) this] obtain c' where
    "gate_run c rs = Some (c', map (\<lambda>i. Suc i = quorum (rc_n_msgs c)) [0..<length rs])"
    "rc_n_resp c' = length rs" "rc_cache c' = rc_cache c @ rs"
    using assms(3) by auto
  then show ?thesis using req_conts_gate [OF assms(1)] by blast
qed

theorem fan_out_acts_once_witness:
  "\<exists>c'. gate_run ((rc_create 68 None)\<lparr>rc_n_msgs := 2\<rparr>) [replicate 40 0, replicate 40 1] = Some (c', [True, False])"
proof -
  have "(\<exists>c'. gate_run ((rc_create 68 None)\<lparr>rc_n_msgs := 2\<rparr>) [replicate 40 0, replicate 40 1] =
        Some (c', map (\<lambda>i. Suc i = quorum (rc_n_msgs ((rc_create 68 None)\<lparr>rc_n_msgs := 2\<rparr>)))
          [0..<length [replicate 40 0, replicate 40 (1 :: u8)]]) \<and>
      rc_n_resp c' = length [replicate 40 0, replicate 40 (1 :: u8)] \<and>
      rc_cache c' = rc_cache ((rc_create 68 None)\<lparr>rc_n_msgs := 2\<rparr>) @ [replicate 40 0, replicate 40 1])"
    by (rule conjunct1 [OF fan_out_acts_once [where call = GetTime and env = demo_penv and ev = demo_event
          and st = demo_abd and cid = 0 and cx = "rc_create 68 None" and r = "[]" and cy = "rc_create 68 None"
          and fires = False]]) (simp_all add: rc_create_def)
  then show ?thesis by (auto simp: quorum_def)
qed

text \<open>
  Two operations on a group with an even number \<open>n\<close> of other replicas (the compiled configuration
  has two) that both act have a node in common: their own node and the responders they counted are
  subsets of the \<open>n + 1\<close> nodes that intersect.
\<close>

lemma acting_quorums_intersect:
  assumes "gate c1 r1 = Some (c1', True)" "gate c2 r2 = Some (c2', True)" "rc_n_msgs c1 = n" "rc_n_msgs c2 = n"
    and "even n" "A \<subseteq> {..n}" "card A = rc_n_resp c1' + 1" "B \<subseteq> {..n}" "card B = rc_n_resp c2' + 1"
    and "28 < length r1" "length r1 < 2 ^ 64" "28 < length r2" "length r2 < 2 ^ 64"
  shows "A \<inter> B \<noteq> {}"
proof -
  have "quorum n \<le> rc_n_resp c1'" using gate_total [OF assms(10,11), of c1] assms(1,3) by force
  moreover have "quorum n \<le> rc_n_resp c2'" using gate_total [OF assms(12,13), of c2] assms(2,4) by force
  ultimately have "majority n A" "majority n B" using assms(6-9) by (simp_all add: majority_def)
  then show ?thesis using group_quorum.intersect [of "n div 2" A B] assms(5) by simp
qed

lemma acting_quorums_intersect_example:
  "\<exists>c. gate ((rc_create 68 None)\<lparr>rc_n_msgs := 2\<rparr>) (replicate 40 0) = Some (c, True) \<and> {0, 1} \<inter> {0, 2 :: nat} \<noteq> {}"
proof -
  obtain c where c: "gate ((rc_create 68 None)\<lparr>rc_n_msgs := 2\<rparr>) (replicate 40 0) = Some (c, True)" "rc_n_resp c = 1"
    using gate_total [of "replicate 40 0" "(rc_create 68 None)\<lparr>rc_n_msgs := 2\<rparr>"] by (auto simp: quorum_def rc_create_def)
  have "{0, 1} \<inter> {0, 2 :: nat} \<noteq> {}"
    by (rule acting_quorums_intersect [OF c(1) c(1), of 2]) (use c(2) in auto)
  with c(1) show ?thesis by blast
qed



text \<open>
  C9. Second phase of a put: from the clocks of the responses and the local clock the continuation takes
  the largest counter, sends the pending value with the next counter and its own machine id to every
  replica of the group, and stores it locally.  Unless the 32-bit counter is exhausted, the new clock
  is above every clock it saw.
\<close>

theorem put_second_phase:
  fixes st :: "'s abd"
  assumes "penv_ok env cap" "abd_wf env st" "ev_ok env ev" "ev_attempts ev = []"
    and "ctx_at st cid = Some c" "holds env c k v l0" "rc_wf c" "clock_responses env st c ls"
    and "k \<noteq> []" "length k + length v + 52 < 2 ^ 64" "ab_replicas st \<noteq> []" "key_group st k \<noteq> []"
    and "clock = Lamport (top_count (get_count (old_clock (look env st k))) ls + 1) (ab_m_id st)"
  shows "\<exists>st1 st'. req_conts_impl env ev st GetTime n cid = Some st' \<and>
    sends env (fst (create_rep_context st (rc_handle c))) (rc_create (ab_max_package_size st) (rc_handle c))
      (length (ab_ctxs st)) (key_group st k) PutReplica AckPutTime (k @ lamport_bytes clock) v st1 \<and>
    ab_out st' = ab_out st1 \<and> abd_wf env st' \<and>
    look env st' = (look env st)(k \<mapsto> newer (look env st k) (clock, v)) \<and>
    (top_count (get_count (old_clock (look env st k))) ls < - 1 \<longrightarrow>
       (\<forall>l \<in> insert (old_clock (look env st k)) (set ls). l < clock) \<and> look env st' k = Some (clock, v))"
proof -
  obtain st1 st' where st': "cont_get_time env ev st cid = Some st'"
    "sends env (fst (create_rep_context st (rc_handle c))) (rc_create (ab_max_package_size st) (rc_handle c))
       (length (ab_ctxs st)) (key_group st k) PutReplica AckPutTime (k @ lamport_bytes clock) v st1"
    "abd_wf env st'" "ab_out st' = ab_out st1"
    "look env st' = (look env st)(k \<mapsto> newer (look env st k) (clock, v))"
    by (rule cont_get_time_spec [OF assms]) (rule that)
  have above: "\<forall>l \<in> insert (old_clock (look env st k)) (set ls). l < clock"
    if "top_count (get_count (old_clock (look env st k))) ls < - 1"
    unfolding assms(13) using next_clock_greater [OF that] by blast
  have "newer (look env st k) (clock, v) = (clock, v)"
    if "top_count (get_count (old_clock (look env st k))) ls < - 1"
    using above [OF that] by (cases "look env st k") auto
  with st' above show ?thesis by (intro exI [of _ st1] exI [of _ st']) simp
qed

theorem put_second_phase_witness:
  "\<exists>st1 st'. req_conts_impl demo_penv demo_event
      (demo_run [1] [9] [demo_packet (encoded (lamport_bytes (Lamport 4 2)) [] [])]) GetTime 1 0 = Some st' \<and>
    sends demo_penv (fst (create_rep_context (demo_run [1] [9] [demo_packet (encoded (lamport_bytes (Lamport 4 2)) [] [])]) None))
      (rc_create 68 None) 1 [1, 2] PutReplica AckPutTime ([1] @ lamport_bytes (Lamport 5 7)) [9] st1 \<and>
    look demo_penv st' [1] = Some (Lamport 5 7, [9])"
proof -
  let ?r = "demo_packet (encoded (lamport_bytes (Lamport 4 2)) [] [])"
  let ?st = "demo_run [1] [9] [?r]" and ?c = "demo_ctx [1] [9] [?r]"
  have r: "28 < length ?r" "length ?r < 1000" by (simp_all add: demo_packet_def)
  have resp: "clock_responses demo_penv ?st ?c [Lamport 4 2]"
    using demo_packet_carries [of "lamport_bytes (Lamport 4 2)" "[]" ?st] by (simp add: clock_responses_def demo_ctx_def)
  have top: "top_count (get_count lamport_min) [Lamport 4 2] = 4" by (simp add: top_count_def lamport_min_def)
  have hold: "holds demo_penv ?c [1] [9] lamport_min" by (rule demo_ctx_holds) simp_all
  have wf: "rc_wf ?c" by (rule demo_ctx_wf) (use r in simp)
  have sel: "ab_m_id ?st = 7" "ab_max_package_size ?st = 68" "length (ab_ctxs ?st) = 1" "rc_handle ?c = None"
    by (simp_all add: demo_run_def demo_abd_def abd_new_def MetaDataSize_def demo_ctx_def rc_create_def)
  show ?thesis
    using put_second_phase [OF demo_penv_ok _ demo_event_ok _ hold wf resp _ _ _ _ refl, of 0 1] top sel
    by (simp add: demo_run_simps) blast
qed

text \<open>
  C16. End of a get when no replica has a newer entry: the value of the local store is returned; it is
  written back with its clock to the group unless one clock has more than half of the responses.
\<close>

theorem get_returns_local:
  assumes "penv_ok env cap" "abd_wf env st" "ev_ok env ev"
    and "ctx_at st cid = Some c" "holds env c k v l0" "rc_wf c" "value_responses env st c k lws"
    and "\<forall>(l, w) \<in> set lws. length k + 8 + length w \<le> unat (rc_max_package_size c)"
    and "k \<noteq> []" "ab_replicas st \<noteq> []" "key_group st k \<noteq> []"
    and "look env st k = Some (lc, lv)" "\<forall>(l, w) \<in> set lws. l \<le> lc" "length k + length lv + 52 < 2 ^ 64"
  shows "\<exists>st1. req_conts_impl env ev st RetValue n cid =
      Some (emit (Get_ret \<lparr>span_size = size_of lv, span_buf = Some lv\<rparr>) (decrement_traces st1)) \<and>
    (if lv \<noteq> [] \<and> \<not> (\<exists>x \<in> fst ` set lws. count_list (map fst lws) x > rc_n_msgs c div 2)
     then sends env (fst (create_rep_context st (rc_handle c))) (rc_create (ab_max_package_size st) (rc_handle c))
            (length (ab_ctxs st)) (key_group st k) PutReplica RetGetPutUpdate (k @ lamport_bytes lc) lv st1
     else st1 = st)"
proof -
  have "length lv < 2 ^ 64" using assms(14) by simp
  note best = best_local [OF assms(12,13) this]
  obtain st1 where
    "cont_ret_value env ev st cid = Some (emit (Get_ret \<lparr>span_size = size_of lv, span_buf = Some lv\<rparr>) (decrement_traces st1))"
    "if lv \<noteq> [] \<and> \<not> (\<exists>x \<in> fst ` set lws. count_list (map fst lws) x > rc_n_msgs c div 2)
     then sends env (fst (create_rep_context st (rc_handle c))) (rc_create (ab_max_package_size st) (rc_handle c))
            (length (ab_ctxs st)) (key_group st k) PutReplica RetGetPutUpdate (k @ lamport_bytes lc) lv st1
     else st1 = st"
    by (rule cont_ret_value_best [OF assms(1-11) best assms(14)]) (rule that)
  then show ?thesis unfolding req_conts_impl.simps by (intro exI conjI)
qed

text \<open>A store with one entry, for the witness.\<close>

definition demo_kv :: "node list kv_store" where
  "demo_kv = fst (the (kv_put_value demo_env [] \<lparr>kv_skip = [], kv_next = 0\<rparr> (size_of [1 :: u8]) [1]
     (size_of [9 :: u8]) (Some [9]) (Lamport 6 1)))"

lemma demo_kv: "kv_wf demo_env demo_kv" "kv_look demo_env demo_kv [1] = Some (Lamport 6 1, [9])"
proof -
  have none: "kv_look demo_env \<lparr>kv_skip = [], kv_next = 0\<rparr> k = None" for k
    by (simp add: kv_look_def) (simp add: ordered_list_def)
  have "kv_wf demo_env \<lparr>kv_skip = [], kv_next = 0\<rparr>" "length [1 :: u8] < 2 ^ 64" "length [9 :: u8] \<le> 32" by simp_all
  then obtain st' where st': "kv_put_value demo_env [] \<lparr>kv_skip = [], kv_next = 0\<rparr> (size_of [1 :: u8]) ([1] @ [])
       (size_of [9 :: u8]) (Some [9]) (Lamport 6 1) =
       Some (st', kv_look demo_env \<lparr>kv_skip = [], kv_next = 0\<rparr> [1] = None \<or>
         old_clock (kv_look demo_env \<lparr>kv_skip = [], kv_next = 0\<rparr> [1]) < Lamport 6 1)"
    "kv_wf demo_env st'" "kv_look demo_env st' = (kv_look demo_env \<lparr>kv_skip = [], kv_next = 0\<rparr>)
       ([1] \<mapsto> newer (kv_look demo_env \<lparr>kv_skip = [], kv_next = 0\<rparr> [1]) (Lamport 6 1, [9]))"
    by (rule kv_put_value_spec [OF demo_env_ok, where p = "Some [9]" and vrest = "[]" and krest = "[]" and c = "Lamport 6 1"])
      (auto intro: that)
  then have "demo_kv = st'" by (simp add: demo_kv_def)
  with st' none show "kv_wf demo_env demo_kv" "kv_look demo_env demo_kv [1] = Some (Lamport 6 1, [9])" by simp_all
qed

theorem get_returns_local_witness:
  "\<exists>st1. req_conts_impl demo_penv demo_event
      ((demo_run [1] [] [demo_packet (encoded ([1] @ lamport_bytes (Lamport 4 2)) [8] [])])\<lparr>ab_kv := demo_kv\<rparr>) RetValue 1 0 =
        Some (emit (Get_ret \<lparr>span_size = size_of [9 :: u8], span_buf = Some [9]\<rparr>) (decrement_traces st1))"
proof -
  let ?r = "demo_packet (encoded ([1] @ lamport_bytes (Lamport 4 2)) [8] [])"
  let ?st = "(demo_run [1] [] [?r])\<lparr>ab_kv := demo_kv\<rparr>" and ?c = "demo_ctx [1] [] [?r]"
  have resp: "value_responses demo_penv ?st ?c [1] [(Lamport 4 2, [8])]"
    using demo_packet_carries [of "[1] @ lamport_bytes (Lamport 4 2)" "[8]" ?st]
    by (simp add: value_responses_def demo_ctx_def)
  have hold: "holds demo_penv ?c [1] [] lamport_min" by (rule demo_ctx_holds) simp_all
  have wf: "rc_wf ?c" by (rule demo_ctx_wf) (simp add: demo_packet_def)
  have st: "abd_wf demo_penv ?st" "ctx_at ?st 0 = Some ?c" "look demo_penv ?st [1] = Some (Lamport 6 1, [9])"
    "ab_replicas ?st = [[1, 2]]"
    using demo_kv demo_run_simps(1,3) [of "[1]" "[]" "[?r]"]
    by (simp_all add: abd_wf_def demo_penv_def ctx_at_def split: if_splits)
  have "Lamport 4 2 \<le> Lamport 6 1" by (simp add: lamport_le_iff)
  then show ?thesis
    using get_returns_local [OF demo_penv_ok st(1) demo_event_ok(1) st(2) hold wf resp _ _ _ _ st(3), of 1] st(4)
    by (auto simp: demo_ctx_def rc_create_def)
qed

text \<open>
  C26. End of a get when a replica has a newer entry: what is returned is not the value.  The continuation
  returns the key part of the newest response, that is the key followed by the eight bytes of its
  clock, and writes these bytes back to the group as the value.
\<close>

theorem get_returns_key_of_remote:
  assumes "penv_ok env cap" "abd_wf env st" "ev_ok env ev"
    and "ctx_at st cid = Some c" "holds env c k v l0" "rc_wf c" "value_responses env st c k lws"
    and "\<forall>(l, w) \<in> set lws. length k + 8 + length w \<le> unat (rc_max_package_size c)"
    and "k \<noteq> []" "ab_replicas st \<noteq> []" "key_group st k \<noteq> []"
    and "(l, w) \<in> set lws" "old_clock (look env st k) < l" "\<forall>(l, w) \<in> set lws. 16 \<le> length w"
    and "2 * length k + 60 < 2 ^ 64"
  shows "\<exists>s l' st1. req_conts_impl env ev st RetValue n cid = Some (emit (Get_ret s) (decrement_traces st1)) \<and>
    l' \<in> fst ` set lws \<and> (\<forall>(l, w) \<in> set lws. l \<le> l') \<and> span_bytes s = Some (k @ lamport_bytes l') \<and>
    (\<not> (\<exists>x \<in> fst ` set lws. count_list (map fst lws) x > rc_n_msgs c div 2) \<longrightarrow>
     sends env (fst (create_rep_context st (rc_handle c))) (rc_create (ab_max_package_size st) (rc_handle c))
       (length (ab_ctxs st)) (key_group st k) PutReplica RetGetPutUpdate (k @ lamport_bytes l') (k @ lamport_bytes l') st1)"
proof -
  let ?f = "read_init (old_clock (look env st k)) (ret_span (look env st k)) (rc_max_package_size c)"
  have "fst (rf_max ?f) < l" using assms(13) by (simp add: read_init_def)
  moreover have "\<forall>(l, w) \<in> set lws. 16 \<le> length w \<and> length k + 8 < 2 ^ 64" using assms(14,15) by auto
  ultimately obtain l' s where s: "rf_max (foldl (read_step k) ?f lws) = (l', s)" "l' \<in> fst ` set lws"
    "\<forall>(l, w) \<in> set lws. l \<le> l'" "span_bytes s = Some (k @ lamport_bytes l')"
    by (rule read_max_remote [OF assms(12)]) (rule that)
  have "length k + length (k @ lamport_bytes l') + 52 < 2 ^ 64" using assms(15) by simp
  then obtain st1 where
    "cont_ret_value env ev st cid = Some (emit (Get_ret s) (decrement_traces st1))"
    "if k @ lamport_bytes l' \<noteq> [] \<and> \<not> (\<exists>x \<in> fst ` set lws. count_list (map fst lws) x > rc_n_msgs c div 2)
     then sends env (fst (create_rep_context st (rc_handle c))) (rc_create (ab_max_package_size st) (rc_handle c))
            (length (ab_ctxs st)) (key_group st k) PutReplica RetGetPutUpdate (k @ lamport_bytes l')
            (k @ lamport_bytes l') st1
     else st1 = st"
    by (rule cont_ret_value_best [OF assms(1-11) s(1,4)]) (rule that)
  with s assms(9) show ?thesis by (intro exI [of _ s] exI [of _ l'] exI [of _ st1]) auto
qed

text \<open>The response to a value query as the witness has it.\<close>

lemma demo_value_responses:
  assumes "length k + length w + 52 < 2 ^ 64"
  shows "value_responses demo_penv st (demo_ctx k v [demo_packet (encoded (k @ lamport_bytes l) w [])]) k [(l, w)]"
  using demo_packet_carries [of "k @ lamport_bytes l" w st] assms by (simp add: value_responses_def demo_ctx_def)

theorem get_returns_key_of_remote_witness:
  "\<exists>s st1. req_conts_impl demo_penv demo_event
      (demo_run [1] [] [demo_packet (encoded ([1] @ lamport_bytes (Lamport 4 2)) (replicate 16 9) [])]) RetValue 1 0 =
        Some (emit (Get_ret s) (decrement_traces st1)) \<and> span_bytes s = Some ([1] @ lamport_bytes (Lamport 4 2))"
proof -
  let ?r = "demo_packet (encoded ([1] @ lamport_bytes (Lamport 4 2)) (replicate 16 9) [])"
  let ?st = "demo_run [1] [] [?r]" and ?c = "demo_ctx [1] [] [?r]"
  have resp: "value_responses demo_penv ?st ?c [1] [(Lamport 4 2, replicate 16 9)]"
    by (rule demo_value_responses) simp
  have hold: "holds demo_penv ?c [1] [] lamport_min" by (rule demo_ctx_holds) simp_all
  have wf: "rc_wf ?c" by (rule demo_ctx_wf) (simp add: demo_packet_def)
  have "lamport_min < Lamport 4 2" by (simp add: lamport_min_def lamport_less_iff)
  then show ?thesis
    using get_returns_key_of_remote [OF demo_penv_ok _ demo_event_ok(1) _ hold wf resp, of 0 "Lamport 4 2" "replicate 16 9" 1]
    by (auto simp: demo_ctx_def rc_create_def)
qed

text \<open>
  C27. Nothing looks at the result of a decryption: a packet whose tag does not belong to its ciphertext is
  handed to the request handlers with exactly the plaintext its ciphertext decrypts to.
\<close>

theorem forged_request_processed:
  assumes "penv_ok env cap" "abd_wf env st" "length iv = 12"
    and "evp_enc_update (pe_evp env) (ki_key (ab_cipher st)) iv m = Some ct"
    and "length t = 16" "evp_enc_final (pe_evp env) (ki_key (ab_cipher st)) iv m \<noteq> Some t"
    and "0 < length m" "length m + 28 < 2 ^ 64"
  shows "get_data env st (iv @ ct @ t) = Some m"
proof -
  have key: "length (ki_key (ab_cipher st)) = 16" using assms(2) by (simp add: abd_wf_def key_iv_wf_def)
  have ct: "length ct = length m"
    using evp_okE [OF penv_okD(3) [OF assms(1)] key assms(3), of m] assms(4) by (metis option.inject)
  have len: "length (iv @ ct @ t) = 28 + length m" using assms(3,5) ct by simp
  have n: "unat (size_of m) = length m" using assms(8) by (simp add: unat_of_nat_eq)
  have sz: "get_message_size (of_nat (28 + length m)) = Some (size_of m)"
    using message_size_of_buffer [of "size_of m"] n assms(7,8)
    by (simp add: get_buffer_size_def MetaDataSize_def add.commute)
  have "packet_decrypt (pe_evp env) (ab_cipher st) (msg_new (size_of m)) (iv @ ct @ t @ []) (of_nat (28 + length m)) =
      Some (False, m @ drop (length m) (msg_new (size_of m)))"
    using assms by (intro packet_decrypt_forged [OF penv_okD(3) [OF assms(1)] key])
      (simp_all add: msg_new_def n)
  then show ?thesis
    using len sz by (simp add: get_data_def msg_new_def n del: length_append of_nat_add)
qed

theorem forged_request_processed_witness:
  "get_data demo_penv demo_abd (replicate 12 0 @ map (\<lambda>b. b XOR 0x5A) [1, 2] @ replicate 16 0) = Some [1, 2]"
  by (rule forged_request_processed [OF demo_penv_ok demo_abd_inv(2)]) (simp_all add: xor_evp_def)



text \<open>
  C2. The whole cluster refines an abstract one with nothing but a register per node and key: every run of
  the handlers and continuations, under an arbitrary network, is on the stores a sequence of
  atomic writes that each keep the larger clock.  So an entry stays, or is replaced under a
  strictly larger clock; a value under the same clock is never replaced by another one.
\<close>

theorem cluster_refines_registers:
  assumes "penv_ok env cap" "\<forall>i. abd_inv env (s i)" "(cluster_step env)\<^sup>*\<^sup>* s t"
  shows "reg_step\<^sup>*\<^sup>* (\<lambda>i. look env (s i)) (\<lambda>i. look env (t i)) \<and>
    (look env (s i) k = Some (c, v) \<longrightarrow>
       look env (t i) k = Some (c, v) \<or> (\<exists>c' v'. look env (t i) k = Some (c', v') \<and> c < c'))"
proof -
  note run = cluster_run_registers [OF assms]
  with evolvesD reg_steps_evolve [OF run, of i k] show ?thesis by fastforce
qed

theorem cluster_refines_registers_witness:
  "\<exists>t. cluster_step demo_penv (\<lambda>_. demo_abd) t \<and> reg_step\<^sup>*\<^sup>* (\<lambda>i. look demo_penv demo_abd) (\<lambda>i. look demo_penv (t i))"
proof -
  let ?req = "demo_packet (encoded ([1] @ lamport_bytes (Lamport 3 1)) [9] [])"
  obtain st where "handle_put_replica demo_penv demo_event demo_abd 0 ?req = Some st"
    by (rule handle_put_replica_spec [OF demo_penv_ok demo_abd_inv(2) demo_event_ok(1) demo_packet_carries,
          of "[1]" "Lamport 3 1" "[9]" 0]) simp_all
  then have step: "cluster_step demo_penv (\<lambda>_. demo_abd) ((\<lambda>_. demo_abd)(0 := st))"
    by (intro cluster_step.at_node node_event.request [OF demo_event_ok, where rt = PutReplica and h = 0 and req = ?req]) simp
  have "\<forall>i :: nat. abd_inv demo_penv demo_abd" by simp
  then show ?thesis
    using cluster_refines_registers [OF demo_penv_ok, of "\<lambda>_. demo_abd" "(\<lambda>_. demo_abd)(0 := st)"] step by blast
qed



end
