(* ===== verification/Linked_List.thy ===== *)
theory Linked_List
  imports Avocado_Prelude
begin

text \<open>
  The singly linked list of \<open>src/include/list.h\<close>: nodes on a heap, linked by shared pointers, with
  forward iterators that have an extra position before the first node.  The heap is a map from
  addresses to nodes and the null pointer is \<open>None\<close>; an access through a null or dangling pointer has no
  result.  Freed nodes are not removed from the heap (nothing can reach them).

  The theory refines the heap to the sequence of its values: the abstraction \<open>chain\<close>, the interface
  \<open>sequence\<close> of the operations the hash table uses, and its interpretation on the heap operations.
\<close>

section \<open>Nodes, iterators, lists\<close>

record 'a list_node =
  ln_val :: 'a
  ln_next :: "nat option"

record 'a linked_list =
  ll_heap :: "nat \<Rightarrow> 'a list_node option"
  ll_head :: "nat option"
  ll_count :: u64
  ll_fresh :: nat

text \<open>\<open>ll_fresh\<close> is the address the allocator returns next.\<close>

record iter =
  it_ptr :: "nat option"
  it_before :: bool

definition list_new :: "'a linked_list" where
  "list_new = \<lparr>ll_heap = (\<lambda>_. None), ll_head = None, ll_count = 0, ll_fresh = 0\<rparr>"

definition node_at :: "'a linked_list \<Rightarrow> nat option \<Rightarrow> 'a list_node option" where
  "node_at l p = (case p of None \<Rightarrow> None | Some a \<Rightarrow> ll_heap l a)"

definition it_inc :: "'a linked_list \<Rightarrow> iter \<Rightarrow> iter option" where
  "it_inc l it =
     (if it_before it then Some (it\<lparr>it_before := False\<rparr>)
      else case it_ptr it of
        None \<Rightarrow> Some it
      | Some a \<Rightarrow> map_option (\<lambda>n. it\<lparr>it_ptr := ln_next n\<rparr>) (ll_heap l a))"

text \<open>The postfix increments return a copy of the iterator from before; \<open>Iterator\<close> repeats the code of \<open>ConstIterator\<close>.\<close>

definition it_inc_post :: "'a linked_list \<Rightarrow> iter \<Rightarrow> (iter \<times> iter) option" where
  "it_inc_post l it = do {
     let tmp = it;
     it \<leftarrow> it_inc l it;
     Some (tmp, it)
   }"

definition mit_inc :: "'a linked_list \<Rightarrow> iter \<Rightarrow> iter option" where
  "mit_inc l it =
     (if it_before it then Some (it\<lparr>it_before := False\<rparr>)
      else case it_ptr it of
        None \<Rightarrow> Some it
      | Some a \<Rightarrow> map_option (\<lambda>n. it\<lparr>it_ptr := ln_next n\<rparr>) (ll_heap l a))"

definition mit_inc_post :: "'a linked_list \<Rightarrow> iter \<Rightarrow> (iter \<times> iter) option" where
  "mit_inc_post l it = do {
     let tmp = it;
     it \<leftarrow> mit_inc l it;
     Some (tmp, it)
   }"

lemma mit_inc_post_same: "mit_inc_post = it_inc_post"
  by (intro ext) (simp add: mit_inc_post_def it_inc_post_def mit_inc_def it_inc_def)

definition it_eq :: "iter \<Rightarrow> iter \<Rightarrow> bool" where
  "it_eq a b \<longleftrightarrow> (it_before a \<and> it_before b) \<or>
     (\<not> it_before a \<and> \<not> it_before b \<and> it_ptr a = it_ptr b)"

text \<open>\<open>operator*\<close> does not look at \<open>before_head\<close>; \<open>operator->\<close> is the null pointer there.\<close>

definition it_deref :: "'a linked_list \<Rightarrow> iter \<Rightarrow> 'a option" where
  "it_deref l it = map_option ln_val (node_at l (it_ptr it))"

definition it_arrow :: "'a linked_list \<Rightarrow> iter \<Rightarrow> 'a option" where
  "it_arrow l it = (if it_before it then None else map_option ln_val (node_at l (it_ptr it)))"

definition it_get_ptr :: "iter \<Rightarrow> nat option" where
  "it_get_ptr it = (if it_before it then None else it_ptr it)"

definition list_begin :: "'a linked_list \<Rightarrow> iter" where
  "list_begin l = \<lparr>it_ptr = ll_head l, it_before = False\<rparr>"

definition list_before_begin :: "'a linked_list \<Rightarrow> iter" where
  "list_before_begin l = \<lparr>it_ptr = ll_head l, it_before = True\<rparr>"

definition list_end :: iter where
  "list_end = \<lparr>it_ptr = None, it_before = False\<rparr>"

definition list_front :: "'a linked_list \<Rightarrow> 'a option" where
  "list_front l = map_option ln_val (node_at l (ll_head l))"

definition list_empty :: "'a linked_list \<Rightarrow> bool" where
  "list_empty l \<longleftrightarrow> ll_head l = None"

definition list_max_size :: u64 where
  "list_max_size = NOT 0"

definition list_clear :: "'a linked_list \<Rightarrow> 'a linked_list" where
  "list_clear l = l\<lparr>ll_head := None, ll_count := 0\<rparr>"

section \<open>Modifiers\<close>

text \<open>Allocating and constructing a node.\<close>

definition alloc_node :: "'a linked_list \<Rightarrow> 'a \<Rightarrow> 'a linked_list \<times> nat" where
  "alloc_node l v =
     (l\<lparr>ll_heap := (ll_heap l)(ll_fresh l \<mapsto> \<lparr>ln_val = v, ln_next = None\<rparr>), ll_fresh := Suc (ll_fresh l)\<rparr>, ll_fresh l)"

definition set_next :: "'a linked_list \<Rightarrow> nat \<Rightarrow> nat option \<Rightarrow> 'a linked_list option" where
  "set_next l a p = map_option (\<lambda>n. l\<lparr>ll_heap := (ll_heap l)(a \<mapsto> n\<lparr>ln_next := p\<rparr>)\<rparr>) (ll_heap l a)"

definition emplace_after :: "'a linked_list \<Rightarrow> iter \<Rightarrow> 'a \<Rightarrow> ('a linked_list \<times> iter) option" where
  "emplace_after l pos v = do {
     let (l, new_node) = alloc_node l v;
     if \<not> it_eq pos (list_before_begin l) then do {
       p \<leftarrow> it_get_ptr pos;
       n \<leftarrow> ll_heap l p;
       l \<leftarrow> set_next l new_node (ln_next n);
       l \<leftarrow> set_next l p (Some new_node);
       it \<leftarrow> it_inc l pos;
       Some (l, it)
     }
     else do {
       let l = l\<lparr>ll_head := Some new_node\<rparr>;
       Some (l, list_begin l)
     }
   }"

definition insert_after :: "'a linked_list \<Rightarrow> iter \<Rightarrow> 'a \<Rightarrow> ('a linked_list \<times> iter) option" where
  "insert_after l pos v = emplace_after l pos v"

definition erase_after :: "'a linked_list \<Rightarrow> iter \<Rightarrow> ('a linked_list \<times> iter) option" where
  "erase_after l pos =
     (if \<not> it_eq pos (list_before_begin l) then do {
        p \<leftarrow> it_get_ptr pos;
        n \<leftarrow> ll_heap l p;
        m \<leftarrow> node_at l (ln_next n);
        l \<leftarrow> set_next l p (ln_next m);
        Some (l, pos)
      }
      else do {
        h \<leftarrow> node_at l (ll_head l);
        let l = l\<lparr>ll_head := ln_next h\<rparr>;
        Some (l, list_before_begin l)
      })"

definition emplace_front :: "'a linked_list \<Rightarrow> 'a \<Rightarrow> 'a linked_list option" where
  "emplace_front l v = do {
     let (l, new_node) = alloc_node l v;
     l \<leftarrow> set_next l new_node (ll_head l);
     Some (l\<lparr>ll_head := Some new_node\<rparr>)
   }"

definition push_front :: "'a linked_list \<Rightarrow> 'a \<Rightarrow> 'a linked_list option" where
  "push_front l v = emplace_front l v"

section \<open>The sequence of a list\<close>

text \<open>\<open>chain h p as xs\<close>: from \<open>p\<close> the heap has nodes at \<open>as\<close> with values \<open>xs\<close>, the last one without successor.\<close>

fun chain :: "(nat \<Rightarrow> 'a list_node option) \<Rightarrow> nat option \<Rightarrow> nat list \<Rightarrow> 'a list \<Rightarrow> bool" where
  "chain h p [] [] \<longleftrightarrow> p = None"
| "chain h p (a # as) (x # xs) \<longleftrightarrow> p = Some a \<and>
     (case h a of None \<Rightarrow> False | Some n \<Rightarrow> ln_val n = x \<and> chain h (ln_next n) as xs)"
| "chain h p _ _ \<longleftrightarrow> False"

definition list_rep :: "'a linked_list \<Rightarrow> nat list \<Rightarrow> 'a list \<Rightarrow> bool" where
  "list_rep l as xs \<longleftrightarrow> chain (ll_heap l) (ll_head l) as xs \<and> distinct as \<and> (\<forall>a \<in> set as. a < ll_fresh l)"

lemma chain_length: "chain h p as xs \<Longrightarrow> length as = length xs"
  by (induction h p as xs rule: chain.induct) (auto split: option.splits)

lemma chain_cong: "(\<And>a. a \<in> set as \<Longrightarrow> h' a = h a) \<Longrightarrow> chain h' p as xs = chain h p as xs"
  by (induction h p as xs rule: chain.induct) (auto split: option.splits)

lemma chain_upd [simp]: "a \<notin> set as \<Longrightarrow> chain (h(a := n)) p as xs = chain h p as xs"
  by (rule chain_cong) auto

text \<open>The pointer to position \<open>i\<close>, the null pointer at the end.\<close>

definition ptr_at :: "nat list \<Rightarrow> nat \<Rightarrow> nat option" where
  "ptr_at as i = (if i < length as then Some (as ! i) else None)"

lemma ptr_at_simps [simp]:
  "ptr_at [] i = None" "ptr_at (a # as) 0 = Some a" "ptr_at (a # as) (Suc i) = ptr_at as i"
  by (simp_all add: ptr_at_def)

lemma chain_nth:
  "chain h p as xs \<Longrightarrow> i < length xs \<Longrightarrow> \<exists>n. h (as ! i) = Some n \<and> ln_val n = xs ! i \<and> ln_next n = ptr_at as (Suc i)"
proof (induction h p as xs arbitrary: i rule: chain.induct)
  case (2 h p a as x xs)
  then obtain n where n: "h a = Some n" "ln_val n = x" "chain h (ln_next n) as xs" by (auto split: option.splits)
  show ?case
  proof (cases i)
    case 0
    have "ln_next n = ptr_at as 0" using n(3) by (cases as; cases xs) auto
    with n 0 show ?thesis by simp
  next
    case (Suc j)
    then show ?thesis using 2 n by simp
  qed
qed auto

lemma chain_split:
  "chain h p as xs \<Longrightarrow> i \<le> length xs \<Longrightarrow> chain h (ptr_at as i) (drop i as) (drop i xs)"
proof (induction h p as xs arbitrary: i rule: chain.induct)
  case (2 h p a as x xs)
  then show ?case by (cases i) (auto split: option.splits)
qed auto

text \<open>Redirecting the successor of position \<open>i\<close> to another chain.\<close>

lemma chain_redirect:
  assumes "chain h p as xs" "i < length xs" "distinct as" "h (as ! i) = Some n"
    and "chain (h(as ! i \<mapsto> n\<lparr>ln_next := q\<rparr>)) q bs ys"
  shows "chain (h(as ! i \<mapsto> n\<lparr>ln_next := q\<rparr>)) p (take (Suc i) as @ bs) (take (Suc i) xs @ ys)"
  using assms
proof (induction h p as xs arbitrary: i rule: chain.induct)
  case (2 h p a as x xs)
  show ?case
  proof (cases i)
    case 0
    then show ?thesis using 2 by (auto split: option.splits)
  next
    case (Suc j)
    then have "as ! j \<noteq> a" using 2 chain_length by (fastforce simp: in_set_conv_nth split: option.splits)
    then show ?thesis using 2 Suc by (auto split: option.splits)
  qed
qed auto

section \<open>The operations on the sequence\<close>

abbreviation iter_at :: "nat list \<Rightarrow> nat \<Rightarrow> iter" where
  "iter_at as i \<equiv> \<lparr>it_ptr = ptr_at as i, it_before = False\<rparr>"

lemma list_rep_fresh: "list_rep l as xs \<Longrightarrow> ll_fresh l \<notin> set as"
  by (auto simp: list_rep_def)

lemma list_rep_length: "list_rep l as xs \<Longrightarrow> length as = length xs"
  by (auto simp: list_rep_def dest: chain_length)

lemma list_rep_nth:
  assumes "list_rep l as xs" "i < length xs"
  obtains n where "ll_heap l (as ! i) = Some n" "ln_val n = xs ! i" "ln_next n = ptr_at as (Suc i)"
  using assms chain_nth by (fastforce simp: list_rep_def)

lemma list_new_rep [simp]: "list_rep list_new [] []"
  by (simp add: list_rep_def list_new_def)

lemma list_begin_rep: "list_rep l as xs \<Longrightarrow> list_begin l = iter_at as 0"
  by (cases as; cases xs) (auto simp: list_rep_def list_begin_def)

lemma list_empty_rep: "list_rep l as xs \<Longrightarrow> list_empty l \<longleftrightarrow> xs = []"
  by (cases as; cases xs) (auto simp: list_rep_def list_empty_def)

lemma list_end_rep: "list_rep l as xs \<Longrightarrow> it_eq (iter_at as i) list_end \<longleftrightarrow> length xs \<le> i"
  by (auto simp: it_eq_def list_end_def ptr_at_def dest: list_rep_length)

lemma it_inc_rep: "list_rep l as xs \<Longrightarrow> i < length xs \<Longrightarrow> it_inc l (iter_at as i) = Some (iter_at as (Suc i))"
  by (auto simp: it_inc_def ptr_at_def dest: list_rep_length elim: list_rep_nth)

lemma it_inc_before: "list_rep l as xs \<Longrightarrow> it_inc l (list_before_begin l) = Some (iter_at as 0)"
  using list_begin_rep [of l as xs] by (simp add: it_inc_def list_before_begin_def list_begin_def)

lemma it_deref_rep: "list_rep l as xs \<Longrightarrow> i < length xs \<Longrightarrow> it_deref l (iter_at as i) = Some (xs ! i)"
  by (auto simp: it_deref_def node_at_def ptr_at_def dest: list_rep_length elim: list_rep_nth)

lemma it_arrow_rep: "list_rep l as xs \<Longrightarrow> i < length xs \<Longrightarrow> it_arrow l (iter_at as i) = Some (xs ! i)"
  using it_deref_rep [of l as xs i] by (simp add: it_arrow_def it_deref_def)

lemma emplace_after_rep:
  assumes rep: "list_rep l as xs" and i: "i < length xs"
  obtains l' where "emplace_after l (iter_at as i) v = Some (l', \<lparr>it_ptr = Some (ll_fresh l), it_before = False\<rparr>)"
    "list_rep l' (take (Suc i) as @ ll_fresh l # drop (Suc i) as) (take (Suc i) xs @ v # drop (Suc i) xs)"
proof -
  let ?f = "ll_fresh l" and ?a = "as ! i" and ?q = "ptr_at as (Suc i)"
  have len: "length as = length xs" by (rule list_rep_length [OF rep])
  obtain n where n: "ll_heap l ?a = Some n" "ln_val n = xs ! i" "ln_next n = ?q" by (rule list_rep_nth [OF rep i])
  have a: "?a \<in> set as" using i len by simp
  have f: "?f \<notin> set as" by (rule list_rep_fresh [OF rep])
  have ne: "?f \<noteq> ?a" using a f by auto
  let ?h1 = "(ll_heap l)(?f \<mapsto> \<lparr>ln_val = v, ln_next = ?q\<rparr>)"
  let ?h = "?h1(?a \<mapsto> n\<lparr>ln_next := Some ?f\<rparr>)"
  let ?l = "l\<lparr>ll_heap := ?h, ll_fresh := Suc ?f\<rparr>"
  have e: "emplace_after l (iter_at as i) v = Some (?l, \<lparr>it_ptr = Some ?f, it_before = False\<rparr>)"
    using n i len ne
    by (simp add: emplace_after_def alloc_node_def it_eq_def list_before_begin_def it_get_ptr_def ptr_at_def
        set_next_def it_inc_def)
  have chain: "chain (ll_heap l) (ll_head l) as xs" and dist: "distinct as" using rep by (simp_all add: list_rep_def)
  have "?a \<notin> set (drop (Suc i) as)"
    using dist i len by (metis id_take_nth_drop distinct_append distinct.simps(2))
  moreover have "?f \<notin> set (drop (Suc i) as)" using f by (auto dest: in_set_dropD)
  ultimately have "chain ?h ?q (drop (Suc i) as) (drop (Suc i) xs)"
    using chain_split [OF chain, of "Suc i"] i by simp
  then have tail: "chain ?h (Some ?f) (?f # drop (Suc i) as) (v # drop (Suc i) xs)" using ne by simp
  have "chain ?h1 (ll_head l) as xs" using chain f by simp
  then have "chain ?h (ll_head l) (take (Suc i) as @ ?f # drop (Suc i) as) (take (Suc i) xs @ v # drop (Suc i) xs)"
    using chain_redirect [of ?h1 "ll_head l" as xs i n "Some ?f"] i dist n(1) ne tail by simp
  moreover have "distinct (take (Suc i) as @ ?f # drop (Suc i) as)"
    using dist f by (auto simp: distinct_append [symmetric] dest: in_set_takeD in_set_dropD set_take_disj_set_drop_if_distinct)
  moreover have "\<forall>b \<in> set (take (Suc i) as @ ?f # drop (Suc i) as). b < ll_fresh ?l"
    using rep by (auto simp: list_rep_def less_Suc_eq dest: in_set_takeD in_set_dropD)
  ultimately show ?thesis by (intro that [OF e]) (simp add: list_rep_def)
qed

lemma erase_after_rep:
  assumes rep: "list_rep l as xs" and i: "Suc i < length xs"
  obtains l' where "erase_after l (iter_at as i) = Some (l', iter_at as i)"
    "list_rep l' (take (Suc i) as @ drop (Suc (Suc i)) as) (take (Suc i) xs @ drop (Suc (Suc i)) xs)"
    "ll_fresh l' = ll_fresh l"
proof -
  let ?a = "as ! i" and ?q = "ptr_at as (Suc (Suc i))"
  have len: "length as = length xs" by (rule list_rep_length [OF rep])
  have i': "i < length xs" using i by simp
  obtain n where n: "ll_heap l ?a = Some n" "ln_val n = xs ! i" "ln_next n = ptr_at as (Suc i)"
    by (rule list_rep_nth [OF rep i'])
  obtain m where m: "ll_heap l (as ! Suc i) = Some m" "ln_next m = ?q" by (rule list_rep_nth [OF rep i])
  let ?h = "(ll_heap l)(?a \<mapsto> n\<lparr>ln_next := ?q\<rparr>)" and ?l = "l\<lparr>ll_heap := (ll_heap l)(as ! i \<mapsto> n\<lparr>ln_next := ptr_at as (Suc (Suc i))\<rparr>)\<rparr>"
  have e: "erase_after l (iter_at as i) = Some (?l, iter_at as i)"
    using n m i len
    by (simp add: erase_after_def it_eq_def list_before_begin_def it_get_ptr_def node_at_def set_next_def ptr_at_def)
  have chain: "chain (ll_heap l) (ll_head l) as xs" and dist: "distinct as" using rep by (simp_all add: list_rep_def)
  have "?a \<notin> set (drop (Suc i) as)"
    using dist i len by (metis Suc_lessD id_take_nth_drop distinct_append distinct.simps(2))
  then have "?a \<notin> set (drop (Suc (Suc i)) as)" by (metis drop_Suc tl_drop in_set_dropD drop_drop add_Suc plus_1_eq_Suc One_nat_def)
  then have "chain ?h ?q (drop (Suc (Suc i)) as) (drop (Suc (Suc i)) xs)"
    using chain_split [OF chain, of "Suc (Suc i)"] i by simp
  then have "chain ?h (ll_head l) (take (Suc i) as @ drop (Suc (Suc i)) as) (take (Suc i) xs @ drop (Suc (Suc i)) xs)"
    using chain_redirect [OF chain i' dist n(1)] by simp
  moreover have "distinct (take (Suc i) as @ drop (Suc (Suc i)) as)"
    using dist set_take_disj_set_drop_if_distinct [OF dist, of "Suc i" "Suc (Suc i)"] by simp
  moreover have "\<forall>b \<in> set (take (Suc i) as @ drop (Suc (Suc i)) as). b < ll_fresh ?l"
    using rep by (auto simp: list_rep_def dest: in_set_takeD in_set_dropD)
  ultimately show ?thesis by (intro that [OF e]) (simp_all add: list_rep_def)
qed

lemma erase_first_rep:
  assumes "list_rep l (a # as) (x # xs)"
  obtains l' where "erase_after l (list_before_begin l) = Some (l', list_before_begin l')" "list_rep l' as xs"
proof -
  obtain n where n: "ll_heap l a = Some n" "ll_head l = Some a" "chain (ll_heap l) (ln_next n) as xs"
    using assms by (auto simp: list_rep_def split: option.splits)
  then show ?thesis
    using assms by (intro that [of "l\<lparr>ll_head := ln_next n\<rparr>"])
      (simp_all add: erase_after_def it_eq_def list_before_begin_def node_at_def list_rep_def)
qed

text \<open>
  An insertion before the first node makes the new node the only one: the old head is overwritten
  without being linked behind it.
\<close>

lemma emplace_first_rep:
  "it_before it \<Longrightarrow> \<exists>l'. emplace_after l it v = Some (l', list_begin l') \<and> list_rep l' [ll_fresh l] [v]"
  by (simp add: emplace_after_def alloc_node_def it_eq_def list_before_begin_def list_rep_def Let_def)

lemma emplace_front_rep:
  assumes "list_rep l as xs"
  obtains l' where "emplace_front l v = Some l'" "list_rep l' (ll_fresh l # as) (v # xs)"
  using assms list_rep_fresh [OF assms]
  by (intro that [of "l\<lparr>ll_heap := (ll_heap l)(ll_fresh l \<mapsto> \<lparr>ln_val = v, ln_next = ll_head l\<rparr>),
      ll_fresh := Suc (ll_fresh l), ll_head := Some (ll_fresh l)\<rparr>"])
    (auto simp: emplace_front_def alloc_node_def set_next_def list_rep_def less_Suc_eq)

text \<open>A loop over the list from an iterator on, collecting the values: \<open>for (; it != end; ++it)\<close>.\<close>

partial_function (option) iterate :: "'a linked_list \<Rightarrow> iter \<Rightarrow> 'a list option" where
  "iterate l it =
     (if it_eq it list_end then Some []
      else Option.bind (it_deref l it) (\<lambda>x.
        Option.bind (it_inc l it) (\<lambda>it'. Option.bind (iterate l it') (\<lambda>xs. Some (x # xs)))))"

lemma iterate_from:
  assumes "list_rep l as xs"
  shows "iterate l (iter_at as i) = Some (drop i xs)"
proof (induction "length xs - i" arbitrary: i)
  case 0
  then show ?case using list_end_rep [OF assms] by (subst iterate.simps) simp
next
  case (Suc n)
  then have i: "i < length xs" by simp
  have "iterate l (iter_at as i) = Option.bind (iterate l (iter_at as (Suc i))) (\<lambda>ys. Some (xs ! i # ys))"
    using i list_end_rep [OF assms] it_deref_rep [OF assms i] it_inc_rep [OF assms i] by (subst iterate.simps) simp
  also have "iterate l (iter_at as (Suc i)) = Some (drop (Suc i) xs)" using Suc(2) by (intro Suc(1)) simp
  finally show ?case using i by (simp add: Cons_nth_drop_Suc)
qed

section \<open>The interface of a sequence\<close>

text \<open>
  What the hash table relies on: positions are named by the nodes up to them, and an insertion or
  removal behind a position changes the sequence there and nowhere else.
\<close>

locale sequence =
  fixes rep :: "'l \<Rightarrow> 'p list \<Rightarrow> 'a list \<Rightarrow> bool"
    and pos :: "'p list \<Rightarrow> nat \<Rightarrow> 'i"
    and ins :: "'l \<Rightarrow> 'i \<Rightarrow> 'a \<Rightarrow> ('l \<times> 'i) option"
    and del :: "'l \<Rightarrow> 'i \<Rightarrow> ('l \<times> 'i) option"
  assumes rep_length: "rep l as xs \<Longrightarrow> length as = length xs"
    and pos_local: "i < length as \<Longrightarrow> pos (take (Suc i) as @ bs) i = pos as i"
    and pos_next: "i < length as \<Longrightarrow> pos (take (Suc i) as @ b # bs) (Suc i) = pos [b] 0"
    and ins_law: "rep l as xs \<Longrightarrow> i < length xs \<Longrightarrow>
      \<exists>l' a. ins l (pos as i) v = Some (l', pos [a] 0) \<and>
        rep l' (take (Suc i) as @ a # drop (Suc i) as) (take (Suc i) xs @ v # drop (Suc i) xs)"
    and del_law: "rep l as xs \<Longrightarrow> Suc i < length xs \<Longrightarrow>
      \<exists>l'. del l (pos as i) = Some (l', pos as i) \<and>
        rep l' (take (Suc i) as @ drop (Suc (Suc i)) as) (take (Suc i) xs @ drop (Suc (Suc i)) xs)"
begin

lemma append_last:
  assumes "rep l as xs" "xs \<noteq> []"
  shows "\<exists>l' a. ins l (pos as (length xs - 1)) v = Some (l', pos [a] 0) \<and> rep l' (as @ [a]) (xs @ [v])"
proof -
  have "length xs - 1 < length xs" "Suc (length xs - 1) = length xs" using assms(2) by simp_all
  then show ?thesis using ins_law [OF assms(1), of "length xs - 1" v] rep_length [OF assms(1)] by simp
qed

text \<open>Removing behind a position and inserting there again replaces the element.\<close>

lemma replace:
  assumes rep: "rep l as xs" and i: "Suc i < length xs"
  obtains l1 l2 a where "del l (pos as i) = Some (l1, pos as i)"
    "ins l1 (pos as i) v = Some (l2, pos (as[Suc i := a]) (Suc i))" "rep l2 (as[Suc i := a]) (xs[Suc i := v])"
proof -
  let ?as = "take (Suc i) as @ drop (Suc (Suc i)) as" and ?xs = "take (Suc i) xs @ drop (Suc (Suc i)) xs"
  have len: "length as = length xs" by (rule rep_length [OF rep])
  obtain l1 where l1: "del l (pos as i) = Some (l1, pos as i)" "rep l1 ?as ?xs" using del_law [OF rep i] by blast
  have i': "i < length ?xs" "i < length as" using i len by simp_all
  obtain l2 a where l2: "ins l1 (pos ?as i) v = Some (l2, pos [a] 0)"
    "rep l2 (take (Suc i) ?as @ a # drop (Suc i) ?as) (take (Suc i) ?xs @ v # drop (Suc i) ?xs)"
    using ins_law [OF l1(2) i'(1)] by blast
  have upd: "as[Suc i := a] = take (Suc i) as @ a # drop (Suc (Suc i)) as"
    "xs[Suc i := v] = take (Suc i) xs @ v # drop (Suc (Suc i)) xs"
    using i len by (simp_all add: upd_conv_take_nth_drop)
  have "pos ?as i = pos as i" using pos_local [OF i'(2)] by simp
  moreover have "pos (as[Suc i := a]) (Suc i) = pos [a] 0" using pos_next [OF i'(2)] upd by simp
  ultimately show ?thesis using l1(1) l2 upd i len by (intro that [of l1 l2 a]) (simp_all del: take_Suc)
qed

end

interpretation heap_list: sequence list_rep iter_at insert_after erase_after
proof unfold_locales
  fix l :: "'a linked_list" and as xs i v
  show "list_rep l as xs \<Longrightarrow> length as = length xs" by (rule list_rep_length)
  assume rep: "list_rep l as xs" and i: "i < length xs"
  obtain l' where "emplace_after l (iter_at as i) v = Some (l', \<lparr>it_ptr = Some (ll_fresh l), it_before = False\<rparr>)"
    "list_rep l' (take (Suc i) as @ ll_fresh l # drop (Suc i) as) (take (Suc i) xs @ v # drop (Suc i) xs)"
    by (rule emplace_after_rep [OF rep i])
  then show "\<exists>l' a. insert_after l (iter_at as i) v = Some (l', iter_at [a] 0) \<and>
      list_rep l' (take (Suc i) as @ a # drop (Suc i) as) (take (Suc i) xs @ v # drop (Suc i) xs)"
    by (auto simp: insert_after_def)
next
  fix l :: "'a linked_list" and as xs i
  assume "list_rep l as xs" "Suc i < length xs"
  then show "\<exists>l'. erase_after l (iter_at as i) = Some (l', iter_at as i) \<and>
      list_rep l' (take (Suc i) as @ drop (Suc (Suc i)) as) (take (Suc i) xs @ drop (Suc (Suc i)) xs)"
    by (metis erase_after_rep)
qed (auto simp: ptr_at_def nth_append)

section \<open>Properties\<close>

text \<open>
  C20. The list refines the sequence of its values: inserting behind a node, removing the node behind a
  node and inserting at the front all return and change the sequence exactly there, and a loop from
  \<open>begin\<close> to \<open>end\<close> visits the resulting sequence in order.
\<close>

theorem list_refines_sequence:
  assumes rep: "list_rep l as xs" and i: "Suc i < length xs"
  shows "(\<exists>li it. insert_after l (iter_at as i) v = Some (li, it) \<and>
      iterate li (list_begin li) = Some (take (Suc i) xs @ v # drop (Suc i) xs)) \<and>
    (\<exists>ld it. erase_after l (iter_at as i) = Some (ld, it) \<and>
      iterate ld (list_begin ld) = Some (take (Suc i) xs @ drop (Suc (Suc i)) xs)) \<and>
    (\<exists>lp. push_front l v = Some lp \<and> iterate lp (list_begin lp) = Some (v # xs))"
proof (intro conjI)
  have all: "iterate k (list_begin k) = Some ys" if "list_rep k bs ys" for k bs and ys :: "'a list"
    using iterate_from [OF that, of 0] list_begin_rep [OF that] by simp
  show "\<exists>li it. insert_after l (iter_at as i) v = Some (li, it) \<and>
      iterate li (list_begin li) = Some (take (Suc i) xs @ v # drop (Suc i) xs)"
    using heap_list.ins_law [OF rep Suc_lessD [OF i], of v] all by blast
  show "\<exists>ld it. erase_after l (iter_at as i) = Some (ld, it) \<and>
      iterate ld (list_begin ld) = Some (take (Suc i) xs @ drop (Suc (Suc i)) xs)"
    using heap_list.del_law [OF rep i] all by blast
  obtain lp where "emplace_front l v = Some lp" "list_rep lp (ll_fresh l # as) (v # xs)"
    by (rule emplace_front_rep [OF rep])
  then show "\<exists>lp. push_front l v = Some lp \<and> iterate lp (list_begin lp) = Some (v # xs)"
    using all by (auto simp: push_front_def)
qed

text \<open>A list of two values.\<close>

definition two_values :: "nat linked_list" where
  "two_values = \<lparr>ll_heap = [0 \<mapsto> \<lparr>ln_val = 20, ln_next = None\<rparr>, 1 \<mapsto> \<lparr>ln_val = 10, ln_next = Some 0\<rparr>],
     ll_head = Some 1, ll_count = 0, ll_fresh = 2\<rparr>"

lemma two_values_rep: "list_rep two_values [1, 0] [10, 20]"
  by (simp add: list_rep_def two_values_def)

lemma two_values_pushed: "Option.bind (push_front list_new 20) (\<lambda>l. push_front l 10) = Some two_values"
  by (simp add: two_values_def list_new_def push_front_def emplace_front_def alloc_node_def set_next_def fun_upd_twist)

theorem list_refines_sequence_witness:
  "\<exists>li it. insert_after two_values (iter_at [1, 0] 0) 15 = Some (li, it) \<and> iterate li (list_begin li) = Some [10, 15, 20]"
  using list_refines_sequence [OF two_values_rep, of 0 15] by simp

text \<open>
  An insertion at \<open>before_begin\<close> drops the list: whatever it held, the new value is afterwards its
  only element.
\<close>

lemma insert_before_begin_drops:
  assumes "list_rep l as xs"
  shows "\<exists>l' it. insert_after l (list_before_begin l) v = Some (l', it) \<and> iterate l' (list_begin l') = Some [v]"
proof -
  obtain l' where "emplace_after l (list_before_begin l) v = Some (l', list_begin l')" "list_rep l' [ll_fresh l] [v]"
    using emplace_first_rep [of "list_before_begin l" l v] by (auto simp: list_before_begin_def)
  then show ?thesis using iterate_from [of l' "[ll_fresh l]" "[v]" 0] list_begin_rep [of l'] by (auto simp: insert_after_def)
qed

end
