(* ===== verification/Hash_Ssl.thy ===== *)
theory Hash_Ssl
  imports Cipher
begin

text \<open>
  The streaming ciphers of \<open>src/include/crypt/release/encrypt_openssl.h\<close>: \<open>SplitCipherSsl\<close> and the hash
  \<open>HashSsl\<close> built on its encryption.  The OpenSSL context and the calls on it are the parameter record
  \<open>evp_stream\<close>; a call with a null context has no result.  The lengths given to OpenSSL are below
  \<open>2 ^ 31\<close>.

  The theory shows what the initialisation makes of the hash: it compares the null context with a new
  one where it means to assign it, so the object is never valid, the updates and the finalisation do
  nothing, and every hash value is sixteen zero bytes.
\<close>

section \<open>The parameter\<close>

text \<open>
  \<open>es_new\<close>: the context \<open>EVP_CIPHER_CTX_new\<close> returns, \<open>None\<close> for the null pointer; \<open>es_init\<close>, \<open>es_update\<close>,
  \<open>es_final\<close>: the result of the \<open>Init\<close>, \<open>Update\<close> and \<open>Final\<close> calls, with the changed context, the
  number of bytes an \<open>Update\<close> reports, and the tag buffer after the \<open>Final\<close> call.
\<close>

record 'c evp_stream =
  es_new :: "'c option"
  es_init :: "'c \<Rightarrow> bytes \<Rightarrow> bytes \<Rightarrow> bool \<times> 'c"
  es_update :: "'c \<Rightarrow> bytes \<Rightarrow> bool \<times> nat \<times> 'c"
  es_final :: "'c \<Rightarrow> bytes \<Rightarrow> bool \<times> bytes \<times> 'c"

section \<open>The split cipher\<close>

record 'c split_cipher =
  sc_valid :: bool
  sc_final :: bool
  sc_state :: "'c option"

definition sc_init ::
  "'c evp_stream \<Rightarrow> bytes \<Rightarrow> bytes \<Rightarrow> ('c, 'z) split_cipher_scheme \<Rightarrow> ('c, 'z) split_cipher_scheme option" where
  "sc_init e key iv s =
     (case (sc_state s, es_new e) of
        (None, None) \<Rightarrow> None
      | (None, Some c) \<Rightarrow> Some (s\<lparr>sc_valid := False\<rparr>)
      | (Some c, _) \<Rightarrow> Some (s\<lparr>sc_valid := False\<rparr>))"

text \<open>
  In \<open>valid = (pState == EVP_CIPHER_CTX_new()) && crypt_init(pState, ...)\<close> the two pointers are equal only
  if both are null, and then \<open>crypt_init\<close> is called on the null pointer; a new context differs from
  every context in use.
\<close>

definition sc_new :: "'c evp_stream \<Rightarrow> bytes \<Rightarrow> bytes \<Rightarrow> 'c split_cipher option" where
  "sc_new e key iv = sc_init e key iv \<lparr>sc_valid = False, sc_final = False, sc_state = None\<rparr>"

definition sc_copy :: "'c split_cipher \<Rightarrow> 'c split_cipher option" where
  "sc_copy other =
     (if \<not> sc_final other \<and> sc_state other \<noteq> None then None
      else Some \<lparr>sc_valid = sc_valid other, sc_final = sc_final other, sc_state = None\<rparr>)"

definition sc_move ::
  "('c, 'z) split_cipher_scheme \<Rightarrow> 'c split_cipher \<times> ('c, 'z) split_cipher_scheme" where
  "sc_move other =
     (\<lparr>sc_valid = sc_valid other, sc_final = sc_final other, sc_state = sc_state other\<rparr>,
      other\<lparr>sc_valid := False, sc_state := None\<rparr>)"

definition sc_assign ::
  "('c, 'z) split_cipher_scheme \<Rightarrow> ('c, 'z) split_cipher_scheme \<Rightarrow> ('c, 'z) split_cipher_scheme option" where
  "sc_assign s other =
     (let s = s\<lparr>sc_valid := sc_valid other, sc_final := sc_final other, sc_state := None\<rparr>
      in if sc_state other \<noteq> None then None else Some s)"

definition sc_move_assign ::
  "('c, 'z) split_cipher_scheme \<Rightarrow> ('c, 'z) split_cipher_scheme \<Rightarrow>
    ('c, 'z) split_cipher_scheme \<times> ('c, 'z) split_cipher_scheme" where
  "sc_move_assign s other =
     (s\<lparr>sc_valid := sc_valid other, sc_final := sc_final other, sc_state := sc_state other\<rparr>,
      other\<lparr>sc_valid := False, sc_state := None\<rparr>)"

text \<open>The loop of \<open>update_\<close>: \<open>dst_pos\<close> is never advanced.  The result is \<open>dst_pos\<close> and the object.\<close>

partial_function (option) update_loop ::
  "'c evp_stream \<Rightarrow> bytes \<Rightarrow> nat \<Rightarrow> ('c, 'z) split_cipher_scheme \<Rightarrow> (nat \<times> ('c, 'z) split_cipher_scheme) option" where
  "update_loop e src dst_pos s =
     (case sc_state s of
        None \<Rightarrow> None
      | Some c \<Rightarrow>
          (let r = es_update e c (drop dst_pos src);
               s' = s\<lparr>sc_valid := fst r, sc_state := Some (snd (snd r))\<rparr>
           in if fst (snd r) \<noteq> 0 \<and> dst_pos < length src \<and> sc_valid s' then update_loop e src dst_pos s'
              else Some (dst_pos, s')))"

definition update_impl ::
  "'c evp_stream \<Rightarrow> bytes \<Rightarrow> ('c, 'z) split_cipher_scheme \<Rightarrow> (nat \<times> ('c, 'z) split_cipher_scheme) option" where
  "update_impl e src s = update_loop e src 0 s"

definition finalize_impl ::
  "'c evp_stream \<Rightarrow> bytes \<Rightarrow> ('c, 'z) split_cipher_scheme \<Rightarrow> (bool \<times> bytes \<times> ('c, 'z) split_cipher_scheme) option" where
  "finalize_impl e mac s =
     (case sc_state s of
        None \<Rightarrow> None
      | Some c \<Rightarrow>
          (let r = es_final e c mac
           in Some (fst r, fst (snd r), s\<lparr>sc_final := True, sc_valid := fst r, sc_state := Some (snd (snd r))\<rparr>)))"

definition sc_update ::
  "'c evp_stream \<Rightarrow> bytes \<Rightarrow> ('c, 'z) split_cipher_scheme \<Rightarrow> (nat \<times> ('c, 'z) split_cipher_scheme) option" where
  "sc_update e src s = (if sc_valid s \<and> \<not> sc_final s then update_impl e src s else Some (0, s))"

definition sc_finalize ::
  "'c evp_stream \<Rightarrow> bytes \<Rightarrow> ('c, 'z) split_cipher_scheme \<Rightarrow> (bool \<times> bytes \<times> ('c, 'z) split_cipher_scheme) option" where
  "sc_finalize e mac s = (if sc_valid s \<and> \<not> sc_final s then finalize_impl e mac s else Some (False, mac, s))"

section \<open>The hash\<close>

record 'c hash_ssl = "'c split_cipher" +
  hs_mac :: bytes

definition hash_of :: "'c split_cipher \<Rightarrow> bytes \<Rightarrow> 'c hash_ssl" where
  "hash_of s mac = \<lparr>sc_valid = sc_valid s, sc_final = sc_final s, sc_state = sc_state s, hs_mac = mac\<rparr>"

definition base_of :: "'c hash_ssl \<Rightarrow> 'c split_cipher" where
  "base_of h = \<lparr>sc_valid = sc_valid h, sc_final = sc_final h, sc_state = sc_state h\<rparr>"

definition hash_new :: "'c evp_stream \<Rightarrow> cipher_ssl \<Rightarrow> 'c hash_ssl option" where
  "hash_new e c = map_option (\<lambda>s. hash_of s (replicate MacSize 0)) (sc_new e (cs_key c) (cs_iv c))"

definition hash_copy :: "'c hash_ssl \<Rightarrow> 'c hash_ssl option" where
  "hash_copy other =
     map_option (\<lambda>s. hash_of s (if sc_final s then hs_mac other else replicate MacSize 0)) (sc_copy (base_of other))"

definition hash_move :: "'c hash_ssl \<Rightarrow> 'c hash_ssl \<times> 'c hash_ssl" where
  "hash_move other =
     (let (s, other') = sc_move other
      in (hash_of s (if sc_final s then hs_mac other' else replicate MacSize 0), other'))"

definition hash_assign :: "'c hash_ssl \<Rightarrow> 'c hash_ssl \<Rightarrow> 'c hash_ssl option" where
  "hash_assign h other = sc_assign (h\<lparr>hs_mac := hs_mac other\<rparr>) other"

definition hash_move_assign :: "'c hash_ssl \<Rightarrow> 'c hash_ssl \<Rightarrow> 'c hash_ssl \<times> 'c hash_ssl" where
  "hash_move_assign h other = sc_move_assign (h\<lparr>hs_mac := hs_mac other\<rparr>) other"

text \<open>\<open>update\<close> returns the \<open>size_t\<close> of \<open>EncryptSsl::update\<close> as a \<open>bool\<close>.\<close>

definition hash_update :: "'c evp_stream \<Rightarrow> bytes \<Rightarrow> 'c hash_ssl \<Rightarrow> (bool \<times> 'c hash_ssl) option" where
  "hash_update e src h = map_option (\<lambda>(n, h). (n \<noteq> 0, h)) (sc_update e src h)"

definition hash_finalize :: "'c evp_stream \<Rightarrow> 'c hash_ssl \<Rightarrow> (bool \<times> 'c hash_ssl) option" where
  "hash_finalize e h = map_option (\<lambda>(ok, mac, h). (ok, h\<lparr>hs_mac := mac\<rparr>)) (sc_finalize e (hs_mac h) h)"

definition hash_equal :: "'c hash_ssl \<Rightarrow> bytes \<Rightarrow> bool option" where
  "hash_equal h other_mac = map_option (\<lambda>m. hs_mac h = m) (mem_read other_mac 0 MacSize)"

definition hash_eq :: "'c hash_ssl \<Rightarrow> 'c hash_ssl \<Rightarrow> bool" where
  "hash_eq h other \<longleftrightarrow> sc_final h \<and> sc_final other \<and> hs_mac h = hs_mac other"

section \<open>A void hash\<close>

text \<open>The state every hash has that was created while OpenSSL could allocate a context.\<close>

definition hash_void :: "'c hash_ssl" where
  "hash_void = \<lparr>sc_valid = False, sc_final = False, sc_state = None, hs_mac = replicate MacSize 0\<rparr>"

named_theorems void_simps \<open>operations on a void hash\<close>

lemma hash_new_void [void_simps]: "es_new e = Some c \<Longrightarrow> hash_new e ci = Some hash_void"
  by (simp add: hash_new_def sc_new_def sc_init_def hash_of_def hash_void_def)

lemma hash_update_void [void_simps]: "hash_update e src hash_void = Some (False, hash_void)"
  by (simp add: hash_update_def sc_update_def hash_void_def)

lemma hash_finalize_void [void_simps]: "hash_finalize e hash_void = Some (False, hash_void)"
  by (simp add: hash_finalize_def sc_finalize_def hash_void_def)

lemma hash_copy_void [void_simps]: "hash_copy hash_void = Some hash_void"
  by (simp add: hash_copy_def sc_copy_def hash_of_def hash_void_def base_of_def)

lemma hash_move_void [void_simps]: "hash_move hash_void = (hash_void, hash_void)"
  by (simp add: hash_move_def sc_move_def hash_of_def hash_void_def)

lemma hash_equal_void [void_simps]:
  "length m = MacSize \<Longrightarrow> hash_equal hash_void m = Some (m = replicate MacSize 0)"
  by (auto simp: hash_equal_def hash_void_def mem_read_def)

text \<open>Feeding a list of inputs.\<close>

primrec hash_updates :: "'c evp_stream \<Rightarrow> bytes list \<Rightarrow> 'c hash_ssl \<Rightarrow> 'c hash_ssl option" where
  "hash_updates e [] h = Some h"
| "hash_updates e (src # srcs) h = Option.bind (hash_update e src h) (\<lambda>(_, h). hash_updates e srcs h)"

lemma hash_updates_void [void_simps]: "hash_updates e srcs hash_void = Some hash_void"
  by (induction srcs) (simp_all add: hash_update_void)

text \<open>
  On a context that works as documented (an \<open>Update\<close> of GCM writes as many bytes as it is given) the loop
  of \<open>update_\<close> has no end, for every non-empty input: a hash that was valid would not return.
\<close>

lemma update_loop_endless:
  assumes upd: "\<And>c p. fst (es_update e c p) \<and> fst (snd (es_update e c p)) = length p" and src: "src \<noteq> []"
  shows "update_loop e src 0 s = None"
proof -
  have "False" if r: "update_loop e src 0 s = Some r" for r
  proof -
    let ?P = "\<lambda>e' src' (pos :: nat) (s :: ('a, 'b) split_cipher_scheme) r. \<not> (e' = e \<and> src' = src \<and> pos = 0)"
    have "?P e src 0 s r"
      by (rule update_loop.raw_induct [where P = ?P, OF _ r])
        (use upd src in \<open>auto simp: Let_def length_greater_0_conv [symmetric] simp del: length_greater_0_conv
            split: option.splits if_splits\<close>)
    then show False by simp
  qed
  then show ?thesis by (metis not_Some_eq)
qed

section \<open>Properties\<close>

text \<open>
  C21. The hash authenticates nothing: whenever OpenSSL can allocate a context, a new hash ignores every
  input and the finalisation, and its value is sixteen zero bytes, so it equals exactly the hash
  value of zeros whatever was hashed.  And if the object were valid, with OpenSSL as documented a single
  non-empty update would not return.
\<close>

theorem hash_ignores_input:
  assumes "es_new e = Some c" "length m = 16"
  shows "Option.bind (hash_new e ci) (hash_updates e srcs) = Some hash_void \<and>
    hash_finalize e hash_void = Some (False, hash_void) \<and>
    hash_equal (hash_void :: 'c hash_ssl) m = Some (m = replicate 16 0) \<and>
    ((\<forall>c p. fst (es_update e c p) \<and> fst (snd (es_update e c p)) = length p) \<longrightarrow>
      (\<forall>src h. src \<noteq> [] \<and> sc_valid h \<and> \<not> sc_final h \<longrightarrow> hash_update e src (h :: 'c hash_ssl) = None))"
  using assms by (auto simp: void_simps hash_update_def sc_update_def update_impl_def update_loop_endless)

definition unit_stream :: "unit evp_stream" where
  "unit_stream = \<lparr>es_new = Some (), es_init = (\<lambda>_ _ _. (True, ())), es_update = (\<lambda>_ p. (True, length p, ())),
     es_final = (\<lambda>_ _. (True, replicate 16 1, ()))\<rparr>"

theorem hash_ignores_input_witness:
  "Option.bind (hash_new unit_stream \<lparr>cs_key = replicate 16 1, cs_iv = replicate 12 2\<rparr>) (hash_updates unit_stream [[1], [2, 3]])
    = Some hash_void \<and> hash_equal (hash_void :: unit hash_ssl) (replicate 16 1) = Some False \<and>
   hash_update unit_stream [7] \<lparr>sc_valid = True, sc_final = False, sc_state = Some (), hs_mac = replicate 16 0\<rparr> = None"
proof -
  have 1: "es_new unit_stream = Some ()"
    "\<forall>c p. fst (es_update unit_stream c p) \<and> fst (snd (es_update unit_stream c p)) = length p"
    by (simp_all add: unit_stream_def)
  have ne: "replicate 16 (1 :: u8) \<noteq> replicate 16 0" by simp
  show ?thesis
    using hash_ignores_input [OF 1(1), of "replicate 16 1" "\<lparr>cs_key = replicate 16 1, cs_iv = replicate 12 2\<rparr>" "[[1], [2, 3]]"]
      1(2) ne by simp
qed

end
