(* ===== verification/Hash_Store.thy ===== *)
theory Hash_Store
  imports Linked_List Hash_Ssl
begin

text \<open>
  The encrypted hash table of \<open>src/include/store.h\<close>, in the configuration without \<open>PUSH_FRONT\<close> and with the
  default key access \<open>BitKey\<close>: buckets of encrypted entries in the linked list of \<open>Linked_List\<close>, with a
  hash over the tags of a bucket by \<open>Hash_Ssl\<close>.  A bucket operation holds the lock of its bucket, so
  each is one step.  The uninitialised tag buffer of \<open>compare\<close> is the argument \<open>junk\<close>.

  The theory refines a bucket to the association list of its keys and values.
\<close>

section \<open>Keys and entries\<close>

definition bk_equal :: "bytes \<Rightarrow> bytes \<Rightarrow> nat \<Rightarrow> bool option" where
  "bk_equal lhs rhs sz = do {
     a \<leftarrow> mem_read lhs 0 sz;
     b \<leftarrow> mem_read rhs 0 sz;
     Some (a = b)
   }"

definition bk_adjust_size :: "u64 \<Rightarrow> u64" where
  "bk_adjust_size sz = sz"

text \<open>The loop counter has 32 bits: sizes are below \<open>2 ^ 32\<close>.\<close>

definition hash_fn :: "u64 \<Rightarrow> u64 \<Rightarrow> u64 \<Rightarrow> bytes \<Rightarrow> u64 option" where
  "hash_fn INIT MULT sz buf = map_option (foldl (\<lambda>hashval b. hashval * MULT + ucast b) INIT) (mem_read buf 0 (unat sz))"

record entry =
  en_key_size :: u32
  en_val_size :: u32
  en_key_hash :: u8
  en_key_val :: "bytes option"
  en_mac :: bytes

definition entry_hash :: "u64 \<Rightarrow> bytes \<Rightarrow> u8 option" where
  "entry_hash key_size key = map_option (\<lambda>h. ucast (h AND 0xFF)) (hash_fn 7 11 (bk_adjust_size key_size) key)"

definition entry_new :: "evp \<Rightarrow> cipher_ssl \<Rightarrow> u32 \<Rightarrow> u32 \<Rightarrow> bytes \<Rightarrow> entry option" where
  "entry_new e c key_size val_size plain_key_val = do {
     key_hash \<leftarrow> entry_hash (ucast key_size) plain_key_val;
     let n = unat (cs_adjust_size (ucast (key_size + val_size)));
     (_, key_val, mac) \<leftarrow> cipher_encrypt e c (replicate n 0) plain_key_val n (replicate MacSize 0);
     Some \<lparr>en_key_size = key_size, en_val_size = val_size, en_key_hash = key_hash, en_key_val = Some key_val, en_mac = mac\<rparr>
   }"

definition entry_get_size :: "entry \<Rightarrow> u64" where
  "entry_get_size en = cs_adjust_size (ucast (en_key_size en + en_val_size en))"

definition entry_get_buf :: "evp \<Rightarrow> cipher_ssl \<Rightarrow> entry \<Rightarrow> u64 \<Rightarrow> bytes \<Rightarrow> (bool \<times> bytes) option" where
  "entry_get_buf e c en buf_size buf = do {
     let sz = cs_adjust_size (ucast (en_key_size en + en_val_size en));
     key_val \<leftarrow> en_key_val en;
     cipher_decrypt e c buf key_val (unat (min buf_size sz)) (en_mac en)
   }"

definition entry_get :: "evp \<Rightarrow> cipher_ssl \<Rightarrow> entry \<Rightarrow> bytes option option" where
  "entry_get e c en = do {
     let sz = entry_get_size en;
     (ok, res) \<leftarrow> entry_get_buf e c en sz (replicate (unat sz) 0);
     Some (if ok then Some res else None)
   }"

definition entry_compare :: "evp \<Rightarrow> cipher_ssl \<Rightarrow> bytes \<Rightarrow> entry \<Rightarrow> bytes \<Rightarrow> bytes option option" where
  "entry_compare e c junk en key = do {
     let sz = unat (cs_adjust_size (ucast (en_key_size en)));
     key_val \<leftarrow> en_key_val en;
     (_, res) \<leftarrow> cipher_decrypt e c (replicate sz 0) key_val sz junk;
     eq \<leftarrow> bk_equal res key (unat (en_key_size en));
     if eq then entry_get e c en else Some None
   }"

section \<open>Tags\<close>

text \<open>
  \<open>MAC\<close>, a copy of a tag, and the list of tags that \<open>find\<close> collects; without \<open>PUSH_FRONT\<close> it collects none (and
  with it \<open>put\<close> does not compile: it calls \<open>update\<close> with one argument).
\<close>

definition Put_front :: bool where
  "Put_front = False"

definition mac_new :: "bytes \<Rightarrow> bytes option" where
  "mac_new m = mem_read m 0 MacSize"

definition mac_push_back :: "bytes list \<Rightarrow> bytes \<Rightarrow> bytes list option" where
  "mac_push_back macs mac = (if Put_front then map_option (\<lambda>m. macs @ [m]) (mac_new mac) else Some macs)"

lemma mac_push_back_nothing: "mac_push_back macs mac = Some macs"
  by (simp add: mac_push_back_def Put_front_def)

section \<open>Buckets\<close>

record bucket =
  bk_list :: "entry linked_list"
  bk_hash :: bytes

definition bucket_new :: bucket where
  "bucket_new = \<lparr>bk_list = list_new, bk_hash = replicate MacSize 0\<rparr>"

record ht_ret =
  hr_idx :: iter
  hr_size :: u64
  hr_kv :: "bytes option"

text \<open>The test that \<open>get\<close> and \<open>find\<close> apply to an entry: the plain key and value if it has the key.\<close>

definition entry_match :: "evp \<Rightarrow> cipher_ssl \<Rightarrow> bytes \<Rightarrow> u64 \<Rightarrow> bytes \<Rightarrow> u8 \<Rightarrow> entry \<Rightarrow> bytes option option" where
  "entry_match e c junk key_size key key_hash en =
     (if en_key_val en \<noteq> None \<and> bk_adjust_size (ucast (en_key_size en)) = bk_adjust_size key_size \<and> en_key_hash en = key_hash
      then entry_compare e c junk en key else Some None)"

text \<open>
  \<open>SafeIter\<close>: an iterator that feeds the tag of every entry it leaves to a hash, and whose destructor
  runs to the end of the list and compares the hash.
\<close>

record 'c safe_iter =
  si_iter :: iter
  si_hash :: "'c hash_ssl"
  si_reset :: bool

text \<open>
  The constructor sets the flag \<open>ok\<close> that the iterator refers to, the destructor gives it its value: the
  second component, and the result of \<open>si_destroy\<close>.  A moved iterator is reset, and its destructor does
  nothing.
\<close>

definition si_new :: "iter \<Rightarrow> 'c hash_ssl \<Rightarrow> 'c safe_iter \<times> bool" where
  "si_new it h = (\<lparr>si_iter = it, si_hash = fst (hash_move h), si_reset = False\<rparr>, False)"

definition si_set_reset :: "'c safe_iter \<Rightarrow> 'c safe_iter" where
  "si_set_reset si = si\<lparr>si_reset := True\<rparr>"

definition si_move :: "'c safe_iter \<Rightarrow> 'c safe_iter \<times> 'c safe_iter" where
  "si_move other =
     (let (h, h') = hash_move (si_hash other)
      in (\<lparr>si_iter = si_iter other, si_hash = h, si_reset = si_reset other\<rparr>,
          si_set_reset (other\<lparr>si_iter := (si_iter other)\<lparr>it_ptr := None\<rparr>, si_hash := h'\<rparr>)))"

definition si_deref :: "'a linked_list \<Rightarrow> 'c safe_iter \<Rightarrow> 'a option" where
  "si_deref l si = it_deref l (si_iter si)"

definition si_arrow :: "'a linked_list \<Rightarrow> 'c safe_iter \<Rightarrow> 'a option" where
  "si_arrow l si = it_arrow l (si_iter si)"

definition si_get_ptr :: "'c safe_iter \<Rightarrow> nat option" where
  "si_get_ptr si = it_get_ptr (si_iter si)"

definition si_eq :: "'c safe_iter \<Rightarrow> iter \<Rightarrow> bool" where
  "si_eq si other \<longleftrightarrow> it_eq (si_iter si) other"

definition si_neq :: "'c safe_iter \<Rightarrow> iter \<Rightarrow> bool" where
  "si_neq si other \<longleftrightarrow> \<not> it_eq (si_iter si) other"

lemmas si_access [simp] = si_deref_def si_arrow_def si_get_ptr_def si_eq_def si_neq_def

definition si_inc :: "'c evp_stream \<Rightarrow> entry linked_list \<Rightarrow> 'c safe_iter \<Rightarrow> 'c safe_iter option" where
  "si_inc es l si = do {
     en \<leftarrow> it_arrow l (si_iter si);
     (_, h) \<leftarrow> hash_update es (en_mac en) (si_hash si);
     it \<leftarrow> it_inc l (si_iter si);
     Some (si\<lparr>si_iter := it, si_hash := h\<rparr>)
   }"

partial_function (option) si_drain :: "'c evp_stream \<Rightarrow> entry linked_list \<Rightarrow> 'c safe_iter \<Rightarrow> 'c safe_iter option" where
  "si_drain es l si =
     (if it_eq (si_iter si) list_end then Some si
      else Option.bind (si_inc es l si) (\<lambda>si. si_drain es l si))"

definition si_destroy :: "'c evp_stream \<Rightarrow> entry linked_list \<Rightarrow> bytes \<Rightarrow> 'c safe_iter \<Rightarrow> bool \<Rightarrow> bool option" where
  "si_destroy es l mac si ok =
     (if si_reset si then Some ok
      else Option.bind (si_drain es l si) (\<lambda>si. hash_equal (si_hash si) mac))"

lemma si_destroy_moved [simp]: "si_destroy es l mac (snd (si_move si)) ok = Some ok"
  by (simp add: si_destroy_def si_move_def si_set_reset_def case_prod_unfold Let_def)

partial_function (option) get_loop ::
  "evp \<Rightarrow> 'c evp_stream \<Rightarrow> cipher_ssl \<Rightarrow> bytes \<Rightarrow> u64 \<Rightarrow> bytes \<Rightarrow> u8 \<Rightarrow> entry linked_list \<Rightarrow> 'c safe_iter \<Rightarrow> iter \<Rightarrow>
     (ht_ret \<times> 'c safe_iter) option" where
  "get_loop e es c junk key_size key key_hash l si prev =
     (if \<not> si_neq si list_end then Some (\<lparr>hr_idx = list_end, hr_size = 0, hr_kv = None\<rparr>, si)
      else Option.bind (si_deref l si) (\<lambda>en.
        Option.bind (entry_match e c junk key_size key key_hash en) (\<lambda>r.
          case r of
            Some plain_key \<Rightarrow>
              Some (\<lparr>hr_idx = prev, hr_size = ucast (en_key_size en + en_val_size en), hr_kv = Some plain_key\<rparr>, si)
          | None \<Rightarrow>
              Option.bind (si_inc es l si) (\<lambda>si'.
                Option.bind (it_inc l prev) (\<lambda>prev'. get_loop e es c junk key_size key key_hash l si' prev')))))"

definition bucket_get ::
  "evp \<Rightarrow> 'c evp_stream \<Rightarrow> cipher_ssl \<Rightarrow> bytes \<Rightarrow> u64 \<Rightarrow> bytes \<Rightarrow> bucket \<Rightarrow> (bool \<times> ht_ret) option" where
  "bucket_get e es c junk key_size key b = do {
     key_hash \<leftarrow> entry_hash key_size key;
     h \<leftarrow> hash_new es c;
     let (tmp, ok) = si_new (list_begin (bk_list b)) h;
     let (si, tmp) = si_move tmp;
     ok \<leftarrow> si_destroy es (bk_list b) (bk_hash b) tmp ok;
     (res, si) \<leftarrow> get_loop e es c junk key_size key key_hash (bk_list b) si (list_before_begin (bk_list b));
     ok \<leftarrow> si_destroy es (bk_list b) (bk_hash b) si ok;
     Some (ok, res)
   }"

partial_function (option) find_loop ::
  "evp \<Rightarrow> 'c evp_stream \<Rightarrow> cipher_ssl \<Rightarrow> bytes \<Rightarrow> u64 \<Rightarrow> bytes \<Rightarrow> u8 \<Rightarrow> entry linked_list \<Rightarrow> iter \<Rightarrow> iter \<Rightarrow> 'c hash_ssl \<Rightarrow>
     (bool \<times> iter \<times> ht_ret \<times> 'c hash_ssl) option" where
  "find_loop e es c junk key_size key key_hash l entry prev h =
     (if it_eq entry list_end then Some (False, list_end, \<lparr>hr_idx = prev, hr_size = 0, hr_kv = None\<rparr>, h)
      else Option.bind (it_deref l entry) (\<lambda>en.
        Option.bind (entry_match e c junk key_size key key_hash en) (\<lambda>r.
          case r of
            Some plain_key \<Rightarrow>
              Some (True, entry,
                \<lparr>hr_idx = prev, hr_size = ucast (en_key_size en + en_val_size en), hr_kv = Some plain_key\<rparr>, h)
          | None \<Rightarrow>
              Option.bind (hash_update es (en_mac en) h) (\<lambda>h'.
                Option.bind (it_inc l entry) (\<lambda>entry'.
                  Option.bind (it_inc l prev) (\<lambda>prev'.
                    find_loop e es c junk key_size key key_hash l entry' prev' (snd h')))))))"

definition bucket_find ::
  "evp \<Rightarrow> 'c evp_stream \<Rightarrow> cipher_ssl \<Rightarrow> bytes \<Rightarrow> u64 \<Rightarrow> bytes \<Rightarrow> entry linked_list \<Rightarrow> 'c hash_ssl \<Rightarrow>
     (bool \<times> iter \<times> ht_ret \<times> 'c hash_ssl) option" where
  "bucket_find e es c junk key_size key l h = do {
     key_hash \<leftarrow> entry_hash key_size key;
     find_loop e es c junk key_size key key_hash l (list_begin l) (list_before_begin l) h
   }"

text \<open>The loop over the entries behind a replaced one.\<close>

partial_function (option) rehash_loop ::
  "'c evp_stream \<Rightarrow> entry linked_list \<Rightarrow> iter \<Rightarrow> 'c hash_ssl \<Rightarrow> 'c hash_ssl \<Rightarrow> ('c hash_ssl \<times> 'c hash_ssl) option" where
  "rehash_loop es l entry h new_hash =
     (if it_eq entry list_end then Some (h, new_hash)
      else Option.bind (it_arrow l entry) (\<lambda>en.
        Option.bind (hash_update es (en_mac en) h) (\<lambda>h'.
          Option.bind (hash_update es (en_mac en) new_hash) (\<lambda>n'.
            Option.bind (it_inc l entry) (\<lambda>entry'. rehash_loop es l entry' (snd h') (snd n'))))))"

definition bucket_append ::
  "evp \<Rightarrow> 'c evp_stream \<Rightarrow> cipher_ssl \<Rightarrow> u64 \<Rightarrow> u64 \<Rightarrow> bytes \<Rightarrow> bucket \<Rightarrow> ht_ret \<Rightarrow> 'c hash_ssl \<Rightarrow> (bool \<times> bucket) option" where
  "bucket_append e es c key_size value_size key_value b r h = do {
     new_hash \<leftarrow> hash_copy h;
     (_, h) \<leftarrow> hash_finalize es h;
     eq \<leftarrow> hash_equal h (bk_hash b);
     if \<not> eq then Some (False, b)
     else do {
       new_entry \<leftarrow> entry_new e c (ucast key_size) (ucast value_size) key_value;
       (_, new_hash) \<leftarrow> hash_update es (en_mac new_entry) new_hash;
       (l, _) \<leftarrow> insert_after (bk_list b) (hr_idx r) new_entry;
       (_, new_hash) \<leftarrow> hash_finalize es new_hash;
       m \<leftarrow> mem_read (hs_mac new_hash) 0 1;
       bh \<leftarrow> mem_write (bk_hash b) 0 m;
       Some (True, \<lparr>bk_list = l, bk_hash = bh\<rparr>)
     }
   }"

definition bucket_replace ::
  "evp \<Rightarrow> 'c evp_stream \<Rightarrow> cipher_ssl \<Rightarrow> u64 \<Rightarrow> u64 \<Rightarrow> bytes \<Rightarrow> bucket \<Rightarrow> iter \<Rightarrow> ht_ret \<Rightarrow> 'c hash_ssl \<Rightarrow> (bool \<times> bucket) option" where
  "bucket_replace e es c key_size value_size key_value b entry r h = do {
     new_hash \<leftarrow> hash_copy h;
     new_entry \<leftarrow> entry_new e c (ucast key_size) (ucast value_size) key_value;
     (_, new_hash) \<leftarrow> hash_update es (en_mac new_entry) new_hash;
     old \<leftarrow> it_arrow (bk_list b) entry;
     (_, h) \<leftarrow> hash_update es (en_mac old) h;
     (l, _) \<leftarrow> erase_after (bk_list b) (hr_idx r);
     (l, entry) \<leftarrow> insert_after l (hr_idx r) new_entry;
     entry \<leftarrow> it_inc l entry;
     (h, new_hash) \<leftarrow> rehash_loop es l entry h new_hash;
     (_, h) \<leftarrow> hash_finalize es h;
     (_, new_hash) \<leftarrow> hash_finalize es new_hash;
     ok \<leftarrow> hash_equal h (bk_hash b);
     _ \<leftarrow> assert_that ok;
     m \<leftarrow> mem_read (hs_mac new_hash) 0 MacSize;
     bh \<leftarrow> mem_write (bk_hash b) 0 m;
     Some (ok, \<lparr>bk_list = l, bk_hash = bh\<rparr>)
   }"

definition bucket_put ::
  "evp \<Rightarrow> 'c evp_stream \<Rightarrow> cipher_ssl \<Rightarrow> bytes \<Rightarrow> u64 \<Rightarrow> u64 \<Rightarrow> bytes \<Rightarrow> bucket \<Rightarrow> (ht_ret \<Rightarrow> bool) \<Rightarrow> (bool \<times> bucket) option" where
  "bucket_put e es c junk key_size value_size key_value b where_ok = do {
     h \<leftarrow> hash_new es c;
     (updated, entry, r, h) \<leftarrow> bucket_find e es c junk key_size key_value (bk_list b) h;
     if \<not> where_ok r then Some (False, b)
     else if it_eq entry list_end then bucket_append e es c key_size value_size key_value b r h
     else bucket_replace e es c key_size value_size key_value b entry r h
   }"

section \<open>The table\<close>

record ehashtable =
  ht_table :: "bucket list"
  ht_cipher :: cipher_ssl

definition ht_new :: "cipher_ssl \<Rightarrow> nat \<Rightarrow> ehashtable" where
  "ht_new c sz = \<lparr>ht_table = replicate sz bucket_new, ht_cipher = c\<rparr>"

definition ht_hash :: "ehashtable \<Rightarrow> u64 \<Rightarrow> bytes \<Rightarrow> nat option" where
  "ht_hash t key_size key = do {
     _ \<leftarrow> assert_that (0 < length (ht_table t));
     h \<leftarrow> hash_fn 7 61 (bk_adjust_size key_size) key;
     Some (unat (h mod of_nat (length (ht_table t))))
   }"

definition ht_get :: "evp \<Rightarrow> 'c evp_stream \<Rightarrow> bytes \<Rightarrow> ehashtable \<Rightarrow> u64 \<Rightarrow> bytes \<Rightarrow> ht_ret option" where
  "ht_get e es junk t key_size key = do {
     i \<leftarrow> ht_hash t key_size key;
     (ok, res) \<leftarrow> bucket_get e es (ht_cipher t) junk key_size key (ht_table t ! i);
     Some (if ok then res else \<lparr>hr_idx = list_end, hr_size = 0, hr_kv = None\<rparr>)
   }"

definition ht_put ::
  "evp \<Rightarrow> 'c evp_stream \<Rightarrow> bytes \<Rightarrow> ehashtable \<Rightarrow> u64 \<Rightarrow> u64 \<Rightarrow> bytes \<Rightarrow> (ht_ret \<Rightarrow> bool) \<Rightarrow> (bool \<times> ehashtable) option" where
  "ht_put e es junk t key_size value_size key_value where_ok = do {
     i \<leftarrow> ht_hash t key_size key_value;
     (ok, b) \<leftarrow> bucket_put e es (ht_cipher t) junk key_size value_size key_value (ht_table t ! i) where_ok;
     Some (ok, t\<lparr>ht_table := (ht_table t)[i := b]\<rparr>)
   }"

section \<open>Entries hold their key and value\<close>

text \<open>
  GCM encrypts by a key stream: decrypting the first bytes of a ciphertext gives the first bytes of the
  plaintext.  \<open>compare\<close> relies on it when it decrypts the key alone.
\<close>

definition evp_stream_mode :: "evp \<Rightarrow> bool" where
  "evp_stream_mode e \<longleftrightarrow> (\<forall>key iv ct p n. evp_dec_update e key iv ct = Some p \<longrightarrow>
     evp_dec_update e key iv (take n ct) = Some (take n p))"

lemma xor_evp_stream [simp]: "evp_stream_mode xor_evp"
  by (simp add: evp_stream_mode_def xor_evp_def take_map)

text \<open>What the clients of the table guarantee and OpenSSL documents.\<close>

definition store_env :: "evp \<Rightarrow> 'c evp_stream \<Rightarrow> cipher_ssl \<Rightarrow> bytes \<Rightarrow> bool" where
  "store_env e es c junk \<longleftrightarrow> evp_ok e \<and> evp_stream_mode e \<and> es_new es \<noteq> None \<and> cipher_wf c \<and> length junk = MacSize"

definition kv_fits :: "bytes \<Rightarrow> bytes \<Rightarrow> bool" where
  "kv_fits k v \<longleftrightarrow> length k + length v < 2 ^ 32"

definition entry_rep :: "evp \<Rightarrow> cipher_ssl \<Rightarrow> entry \<Rightarrow> bytes \<times> bytes \<Rightarrow> bool" where
  "entry_rep e c en kv \<longleftrightarrow> (case kv of (k, v) \<Rightarrow>
     kv_fits k v \<and> entry_new e c (of_nat (length k)) (of_nat (length v)) (k @ v) = Some en)"

lemma ucast_of_nat_u64 [simp]: "n < 2 ^ 32 \<Longrightarrow> (ucast (of_nat n :: u32) :: u64) = of_nat n"
  by (simp add: unsigned_of_nat take_bit_nat_eq_self)

lemma ucast_of_nat_u32 [simp]: "(ucast (of_nat n :: u64) :: u32) = of_nat n"
  by (simp add: unsigned_of_nat word_unat_eq_iff unat_of_nat take_bit_eq_mod mod_mod_cancel)

lemma store_envE:
  assumes "store_env e es c junk"
  obtains cx ct t where "es_new es = Some cx" "evp_ctx_new e" "evp_init e (cs_key c) (cs_iv c)"
    "evp_enc_update e (cs_key c) (cs_iv c) p = Some ct" "length ct = length p"
    "evp_dec_update e (cs_key c) (cs_iv c) ct = Some p"
    "evp_enc_final e (cs_key c) (cs_iv c) p = Some t" "length t = 16"
    "\<And>t'. evp_dec_final e (cs_key c) (cs_iv c) ct t' \<longleftrightarrow> t' = t"
proof -
  from assms have ok: "evp_ok e" "length (cs_key c) = 16" "length (cs_iv c) = 12" "es_new es \<noteq> None"
    by (simp_all add: store_env_def cipher_wf_def)
  obtain cx where cx: "es_new es = Some cx" using ok(4) by blast
  show ?thesis by (rule evp_okE [OF ok(1-3), of p]) (rule that [OF cx])
qed

lemma unat_key_u64 [simp]: "n < 2 ^ 32 \<Longrightarrow> unat (of_nat n :: u64) = n"
  by (simp add: unat_of_nat_eq)

lemma unat_key_u32 [simp]: "n < 2 ^ 32 \<Longrightarrow> unat (of_nat n :: u32) = n"
  by (simp add: unat_of_nat_eq)

lemma hash_fn_prefix: "length k < 2 ^ 32 \<Longrightarrow>
  hash_fn i m (of_nat (length k)) (k @ r) = Some (foldl (\<lambda>h b. h * m + ucast b) i k)"
  by (simp add: hash_fn_def mem_simps)

definition key_hash_of :: "bytes \<Rightarrow> u8" where
  "key_hash_of k = ucast (foldl (\<lambda>h b. h * 11 + ucast b) (7 :: u64) k AND 0xFF)"

lemma entry_hash_prefix: "length k < 2 ^ 32 \<Longrightarrow> entry_hash (of_nat (length k)) (k @ r) = Some (key_hash_of k)"
  by (simp add: entry_hash_def bk_adjust_size_def hash_fn_prefix key_hash_of_def)

lemma entry_size_sum: "kv_fits k v \<Longrightarrow> unat ((ucast (of_nat (length k) + of_nat (length v) :: u32)) :: u64) = length k + length v"
  unfolding kv_fits_def by (metis of_nat_add ucast_of_nat_u64 unat_key_u64)

text \<open>What an entry of \<open>k\<close> and \<open>v\<close> looks like.\<close>

lemma entry_new_shape:
  assumes env: "store_env e es c junk" and fits: "kv_fits k v"
  obtains ct t where
    "entry_new e c (of_nat (length k)) (of_nat (length v)) (k @ v) =
      Some \<lparr>en_key_size = of_nat (length k), en_val_size = of_nat (length v), en_key_hash = key_hash_of k,
        en_key_val = Some ct, en_mac = t\<rparr>"
    "length ct = length k + length v" "length t = 16"
    "evp_ctx_new e" "evp_init e (cs_key c) (cs_iv c)"
    "evp_dec_update e (cs_key c) (cs_iv c) ct = Some (k @ v)" "evp_dec_final e (cs_key c) (cs_iv c) ct t"
proof -
  obtain ct t where ct: "evp_ctx_new e" "evp_init e (cs_key c) (cs_iv c)"
    "evp_enc_update e (cs_key c) (cs_iv c) (k @ v) = Some ct" "length ct = length (k @ v)"
    "evp_dec_update e (cs_key c) (cs_iv c) ct = Some (k @ v)"
    "evp_enc_final e (cs_key c) (cs_iv c) (k @ v) = Some t" "length t = 16"
    "\<And>t'. evp_dec_final e (cs_key c) (cs_iv c) ct t' \<longleftrightarrow> t' = t"
    by (rule store_envE [OF env, of "k @ v"]) (rule that)
  have "cipher_encrypt e c (replicate (length k + length v) 0) (k @ v) (length k + length v) (replicate 16 0) = Some (True, ct, t)"
    using ct by (simp add: cipher_encrypt_def mem_read_def mem_write_def)
  moreover have "entry_hash (ucast (of_nat (length k) :: u32)) (k @ v) = Some (key_hash_of k)"
    using fits by (simp add: kv_fits_def entry_hash_prefix)
  ultimately have new: "entry_new e c (of_nat (length k)) (of_nat (length v)) (k @ v) =
      Some \<lparr>en_key_size = of_nat (length k), en_val_size = of_nat (length v), en_key_hash = key_hash_of k,
        en_key_val = Some ct, en_mac = t\<rparr>"
    using entry_size_sum [OF fits] by (simp add: entry_new_def cs_adjust_size_def)
  have fin: "evp_dec_final e (cs_key c) (cs_iv c) ct t" using ct(8) by blast
  show ?thesis by (rule that [OF new _ ct(7,1,2,5) fin]) (simp add: ct(4))
qed

text \<open>The test on an entry recognises exactly its key, and returns key and value.\<close>

lemma entry_match_rep:
  assumes env: "store_env e es c junk" and rep: "entry_rep e c en (k, v)" and k': "length k' < 2 ^ 32"
  shows "entry_match e c junk (of_nat (length k')) (k' @ r) (key_hash_of k') en =
    Some (if k = k' then Some (k @ v) else None)"
proof -
  have fits: "kv_fits k v" using rep by (simp add: entry_rep_def)
  then have k: "length k < 2 ^ 32" by (simp add: kv_fits_def)
  obtain ct t where en: "en = \<lparr>en_key_size = of_nat (length k), en_val_size = of_nat (length v),
      en_key_hash = key_hash_of k, en_key_val = Some ct, en_mac = t\<rparr>"
    and ct: "length ct = length k + length v" "length t = 16" "evp_ctx_new e" "evp_init e (cs_key c) (cs_iv c)"
    "evp_dec_update e (cs_key c) (cs_iv c) ct = Some (k @ v)" "evp_dec_final e (cs_key c) (cs_iv c) ct t"
    using rep entry_new_shape [OF env fits] by (auto simp: entry_rep_def)
  have get: "entry_get e c en = Some (Some (k @ v))"
    using ct en entry_size_sum [OF fits]
    by (simp add: entry_get_def entry_get_buf_def entry_get_size_def cs_adjust_size_def cipher_decrypt_def
        mem_read_def mem_write_def)
  have pre: "evp_dec_update e (cs_key c) (cs_iv c) (take (length k) ct) = Some k"
    using env ct(5) unfolding store_env_def evp_stream_mode_def by (metis append_eq_conv_conj)
  have cmp: "entry_compare e c junk en (k' @ r) = Some (if k = k' then Some (k @ v) else None)" if "length k = length k'"
    using that ct en pre k env get
    by (auto simp: entry_compare_def cs_adjust_size_def cipher_decrypt_def mem_read_def mem_write_def bk_equal_def store_env_def)
  show ?thesis
  proof (cases "length k = length k' \<and> key_hash_of k = key_hash_of k'")
    case True
    then show ?thesis using cmp en k by (simp add: entry_match_def bk_adjust_size_def)
  next
    case False
    then have "(of_nat (length k) :: u64) \<noteq> of_nat (length k') \<or> key_hash_of k \<noteq> key_hash_of k'"
      using k k' by (metis unat_key_u64)
    then show ?thesis using en k False by (auto simp: entry_match_def bk_adjust_size_def)
  qed
qed

section \<open>Searching a bucket\<close>

definition locate :: "bytes \<Rightarrow> (bytes \<times> bytes) list \<Rightarrow> nat" where
  "locate k kvs = length (takeWhile (\<lambda>kv. fst kv \<noteq> k) kvs)"

lemma locate_before: "i < locate k kvs \<Longrightarrow> i < length kvs \<and> fst (kvs ! i) \<noteq> k"
  unfolding locate_def using length_takeWhile_le [of "\<lambda>kv. fst kv \<noteq> k" kvs] takeWhile_nth [of i "\<lambda>kv. fst kv \<noteq> k" kvs]
    nth_mem [of i "takeWhile (\<lambda>kv. fst kv \<noteq> k) kvs"] by (auto dest: set_takeWhileD)

lemma locate_at: "locate k kvs < length kvs \<Longrightarrow> fst (kvs ! locate k kvs) = k"
  unfolding locate_def using nth_length_takeWhile [of "\<lambda>kv. fst kv \<noteq> k" kvs] by simp

lemma locate_le: "locate k kvs \<le> length kvs"
  by (simp add: locate_def length_takeWhile_le)

lemma locate_iff: "locate k kvs < length kvs \<longleftrightarrow> k \<in> fst ` set kvs"
  by (induction kvs) (auto simp: locate_def)

lemma map_of_locate: "map_of kvs k = (if locate k kvs < length kvs then Some (snd (kvs ! locate k kvs)) else None)"
  by (induction kvs) (auto simp: locate_def)

text \<open>The iterator one behind position \<open>i\<close>.\<close>

definition prev_at :: "'a linked_list \<Rightarrow> nat list \<Rightarrow> nat \<Rightarrow> iter" where
  "prev_at l as i = (if i = 0 then list_before_begin l else iter_at as (i - 1))"

lemma it_inc_prev: "list_rep l as xs \<Longrightarrow> i < length xs \<Longrightarrow> it_inc l (prev_at l as i) = Some (prev_at l as (Suc i))"
  using it_inc_before [of l as xs] it_inc_rep [of l as xs "i - 1"] by (cases i) (auto simp: prev_at_def)

text \<open>The buckets of a table, and what they hold.\<close>

definition entries_rep :: "evp \<Rightarrow> cipher_ssl \<Rightarrow> entry linked_list \<Rightarrow> nat list \<Rightarrow> entry list \<Rightarrow> (bytes \<times> bytes) list \<Rightarrow> bool" where
  "entries_rep e c l as ens kvs \<longleftrightarrow> list_rep l as ens \<and> list_all2 (entry_rep e c) ens kvs"

lemma entries_repD:
  assumes "entries_rep e c l as ens kvs"
  shows "list_rep l as ens" "length ens = length kvs" "\<And>i. i < length kvs \<Longrightarrow> entry_rep e c (ens ! i) (fst (kvs ! i), snd (kvs ! i))"
  using assms by (auto simp: entries_rep_def list_all2_conv_all_nth)

text \<open>A step of the search loops at an entry with another key.\<close>

lemma si_inc_rep:
  assumes "list_rep l as ens" "i < length ens"
  shows "si_inc es l \<lparr>si_iter = iter_at as i, si_hash = hash_void, si_reset = False\<rparr> = Some \<lparr>si_iter = iter_at as (Suc i), si_hash = hash_void, si_reset = False\<rparr>"
  using it_arrow_rep [OF assms] it_inc_rep [OF assms] by (simp add: si_inc_def void_simps)

lemma si_destroy_rep:
  assumes rep: "list_rep l as ens" and m: "length m = 16"
  shows "si_destroy es l m \<lparr>si_iter = iter_at as i, si_hash = hash_void, si_reset = False\<rparr> ok = Some (m = replicate 16 0)"
proof (induction "length ens - i" arbitrary: i)
  case 0
  then show ?case
    using list_end_rep [OF rep] m by (simp add: si_destroy_def void_simps si_drain.simps)
next
  case (Suc n)
  then have i: "i < length ens" "n = length ens - Suc i" by simp_all
  have "\<not> it_eq (iter_at as i) list_end" using i list_end_rep [OF rep] by simp
  then have "si_drain es l \<lparr>si_iter = iter_at as i, si_hash = hash_void, si_reset = False\<rparr> =
      si_drain es l \<lparr>si_iter = iter_at as (Suc i), si_hash = hash_void, si_reset = False\<rparr>"
    using si_inc_rep [OF rep i(1), of es] by (subst si_drain.simps) simp
  then show ?case using Suc(1) [OF i(2)] by (simp add: si_destroy_def)
qed

text \<open>The result of a search: the value of the key, if it is there.\<close>

definition found :: "bytes \<Rightarrow> (bytes \<times> bytes) list \<Rightarrow> bytes option" where
  "found k kvs = map_option ((@) k) (map_of kvs k)"

lemma match_at:
  assumes "store_env e es c junk" "entries_rep e c l as ens kvs" "length k < 2 ^ 32" "i < length kvs"
  shows "entry_match e c junk (of_nat (length k)) (k @ r) (key_hash_of k) (ens ! i) =
    Some (if fst (kvs ! i) = k then Some (k @ snd (kvs ! i)) else None)"
  using entry_match_rep [OF assms(1) entries_repD(3) [OF assms(2,4)] assms(3)] by simp

definition hit :: "iter \<Rightarrow> bytes \<Rightarrow> entry \<Rightarrow> bytes \<Rightarrow> ht_ret" where
  "hit p k en v = \<lparr>hr_idx = p, hr_size = ucast (en_key_size en + en_val_size en), hr_kv = Some (k @ v)\<rparr>"

lemma get_loop_rep:
  assumes env: "store_env e es c junk" and rep: "entries_rep e c l as ens kvs" and k: "length k < 2 ^ 32"
    and i: "i \<le> locate k kvs"
  shows "get_loop e es c junk (of_nat (length k)) (k @ r) (key_hash_of k) l
      \<lparr>si_iter = iter_at as i, si_hash = hash_void, si_reset = False\<rparr> (prev_at l as i) =
    Some (if locate k kvs < length kvs
       then hit (prev_at l as (locate k kvs)) k (ens ! locate k kvs) (snd (kvs ! locate k kvs))
       else \<lparr>hr_idx = list_end, hr_size = 0, hr_kv = None\<rparr>,
      \<lparr>si_iter = iter_at as (locate k kvs), si_hash = hash_void, si_reset = False\<rparr>)"
  using i
proof (induction "locate k kvs - i" arbitrary: i)
  case 0
  then have i: "i = locate k kvs" by simp
  note rep' = entries_repD [OF rep]
  show ?case
    using list_end_rep [OF rep'(1), of i] match_at [OF env rep k, of i r] it_deref_rep [OF rep'(1), of i] locate_at [of k kvs] rep'(2) i
    by (subst get_loop.simps) (auto simp: hit_def)
next
  case (Suc n)
  then have i: "i < locate k kvs" "n = locate k kvs - Suc i" by simp_all
  note rep' = entries_repD [OF rep]
  have m: "i < length kvs" "fst (kvs ! i) \<noteq> k" using locate_before [OF i(1)] by simp_all
  have "\<not> it_eq (iter_at as i) list_end" using m list_end_rep [OF rep'(1)] rep'(2) by simp
  then show ?case
    using Suc(1) [OF i(2)] i(1) m match_at [OF env rep k m(1), of r] si_inc_rep [OF rep'(1), of i es]
      it_deref_rep [OF rep'(1), of i] it_inc_prev [OF rep'(1), of i] rep'(2)
    by (subst get_loop.simps) simp
qed

lemma find_loop_rep:
  assumes env: "store_env e es c junk" and rep: "entries_rep e c l as ens kvs" and k: "length k < 2 ^ 32"
    and i: "i \<le> locate k kvs"
  shows "find_loop e es c junk (of_nat (length k)) (k @ r) (key_hash_of k) l (iter_at as i) (prev_at l as i) hash_void =
    Some (if locate k kvs < length kvs
       then (True, iter_at as (locate k kvs),
         hit (prev_at l as (locate k kvs)) k (ens ! locate k kvs) (snd (kvs ! locate k kvs)), hash_void)
       else (False, list_end, \<lparr>hr_idx = prev_at l as (length kvs), hr_size = 0, hr_kv = None\<rparr>, hash_void))"
  using i
proof (induction "locate k kvs - i" arbitrary: i)
  case 0
  then have i: "i = locate k kvs" by simp
  note rep' = entries_repD [OF rep]
  show ?case
    using list_end_rep [OF rep'(1), of i] match_at [OF env rep k, of i r] it_deref_rep [OF rep'(1), of i] locate_at [of k kvs]
      locate_le [of k kvs] rep'(2) i
    by (subst find_loop.simps) (auto simp: hit_def)
next
  case (Suc n)
  then have i: "i < locate k kvs" "n = locate k kvs - Suc i" by simp_all
  note rep' = entries_repD [OF rep]
  have m: "i < length kvs" "fst (kvs ! i) \<noteq> k" using locate_before [OF i(1)] by simp_all
  have "\<not> it_eq (iter_at as i) list_end" using m list_end_rep [OF rep'(1)] rep'(2) by simp
  then show ?case
    using Suc(1) [OF i(2)] i(1) m match_at [OF env rep k m(1), of r] it_inc_rep [OF rep'(1), of i]
      it_deref_rep [OF rep'(1), of i] it_inc_prev [OF rep'(1), of i] rep'(2)
    by (subst find_loop.simps) (simp add: void_simps)
qed

section \<open>The operations on a bucket\<close>

definition bucket_rep :: "evp \<Rightarrow> cipher_ssl \<Rightarrow> bucket \<Rightarrow> (bytes \<times> bytes) list \<Rightarrow> bool" where
  "bucket_rep e c b kvs \<longleftrightarrow> bk_hash b = replicate 16 0 \<and> (\<exists>as ens. entries_rep e c (bk_list b) as ens kvs)"

lemma bucket_new_rep [simp]: "bucket_rep e c bucket_new []"
  by (auto simp: bucket_rep_def bucket_new_def entries_rep_def intro: exI [of _ "[]"])

lemma store_env_hash: "store_env e es c junk \<Longrightarrow> hash_new es ci = Some hash_void"
  by (auto simp: store_env_def hash_new_void)

lemma found_locate: "found k kvs = (if locate k kvs < length kvs then Some (k @ snd (kvs ! locate k kvs)) else None)"
  by (simp add: found_def map_of_locate)

lemma bucket_get_rep:
  assumes env: "store_env e es c junk" and rep: "bucket_rep e c b kvs" and k: "length k < 2 ^ 32"
  shows "\<exists>res. bucket_get e es c junk (of_nat (length k)) (k @ r) b = Some (True, res) \<and> hr_kv res = found k kvs"
proof -
  obtain as ens where ens: "entries_rep e c (bk_list b) as ens kvs" and h: "bk_hash b = replicate 16 0"
    using rep by (auto simp: bucket_rep_def)
  note l = entries_repD [OF ens]
  have b: "list_begin (bk_list b) = iter_at as 0" "list_before_begin (bk_list b) = prev_at (bk_list b) as 0"
    using list_begin_rep [OF l(1)] by (simp_all add: prev_at_def)
  show ?thesis
    using get_loop_rep [OF env ens k, of 0 r] si_destroy_rep [OF l(1), of "bk_hash b" es "locate k kvs"] h k
      si_destroy_moved [of es "bk_list b" "bk_hash b" "\<lparr>si_iter = iter_at as 0, si_hash = hash_void, si_reset = False\<rparr>" False]
    by (simp add: bucket_get_def si_new_def si_move_def void_simps entry_hash_prefix store_env_hash [OF env] b hit_def found_locate)
qed

lemma bucket_find_rep:
  assumes "store_env e es c junk" "entries_rep e c l as ens kvs" "length k < 2 ^ 32"
  shows "bucket_find e es c junk (of_nat (length k)) (k @ r) l hash_void =
    Some (if locate k kvs < length kvs
       then (True, iter_at as (locate k kvs),
         hit (prev_at l as (locate k kvs)) k (ens ! locate k kvs) (snd (kvs ! locate k kvs)), hash_void)
       else (False, list_end, \<lparr>hr_idx = prev_at l as (length kvs), hr_size = 0, hr_kv = None\<rparr>, hash_void))"
  using find_loop_rep [OF assms, of 0 r] list_begin_rep [OF entries_repD(1) [OF assms(2)]] assms(3)
  by (simp add: bucket_find_def entry_hash_prefix prev_at_def)

lemma rehash_loop_rep:
  assumes "list_rep l as ens"
  shows "rehash_loop es l (iter_at as i) hash_void hash_void = Some (hash_void, hash_void)"
proof (induction "length ens - i" arbitrary: i)
  case 0
  then show ?case using list_end_rep [OF assms] by (subst rehash_loop.simps) simp
next
  case (Suc n)
  then have i: "i < length ens" "n = length ens - Suc i" by simp_all
  then show ?case
    using Suc(1) [OF i(2)] list_end_rep [OF assms] it_arrow_rep [OF assms i(1)] it_inc_rep [OF assms i(1)]
    by (subst rehash_loop.simps) (simp add: void_simps)
qed

lemma insert_end_rep:
  assumes "list_rep l as xs"
  shows "\<exists>l' it as'. insert_after l (prev_at l as (length xs)) v = Some (l', it) \<and> list_rep l' as' (xs @ [v])"
proof (cases "xs = []")
  case True
  then show ?thesis
    using emplace_first_rep [of "list_before_begin l" l v] by (auto simp: prev_at_def insert_after_def list_before_begin_def)
next
  case False
  then show ?thesis using heap_list.append_last [OF assms False, of v] by (auto simp: prev_at_def)
qed

lemma bucket_append_rep:
  assumes env: "store_env e es c junk" and rep: "bucket_rep e c b kvs" and ens: "entries_rep e c (bk_list b) as ens kvs"
    and kv: "kv_fits k v" and idx: "hr_idx r = prev_at (bk_list b) as (length kvs)"
  shows "\<exists>b'. bucket_append e es c (of_nat (length k)) (of_nat (length v)) (k @ v) b r hash_void = Some (True, b') \<and>
    bucket_rep e c b' (kvs @ [(k, v)])"
proof -
  note l = entries_repD [OF ens]
  obtain en where en: "entry_new e c (of_nat (length k)) (of_nat (length v)) (k @ v) = Some en"
    by (rule entry_new_shape [OF env kv]) (rule that)
  then have er: "entry_rep e c en (k, v)" using kv by (simp add: entry_rep_def)
  obtain l' it as' where l': "insert_after (bk_list b) (prev_at (bk_list b) as (length kvs)) en = Some (l', it)"
    "list_rep l' as' (ens @ [en])" using insert_end_rep [OF l(1), of en] l(2) by auto
  have h: "bk_hash b = replicate 16 0" using rep by (simp add: bucket_rep_def)
  have "bucket_append e es c (of_nat (length k)) (of_nat (length v)) (k @ v) b r hash_void =
      Some (True, \<lparr>bk_list = l', bk_hash = replicate 16 0\<rparr>)"
    using en l'(1) h idx
    by (simp add: bucket_append_def void_simps mem_read_def mem_write_def hash_void_def [THEN arg_cong, of hs_mac] numeral_eq_Suc)
  moreover have "entries_rep e c l' as' (ens @ [en]) (kvs @ [(k, v)])"
    using ens er l'(2) by (auto simp: entries_rep_def intro!: list_all2_appendI)
  ultimately show ?thesis by (auto simp: bucket_rep_def)
qed

text \<open>
  Replacing the entry at position \<open>j\<close>: at the head of the bucket the new entry is all that is left.
\<close>

definition replace_at :: "nat \<Rightarrow> 'a \<Rightarrow> 'a list \<Rightarrow> 'a list" where
  "replace_at j x xs = (if j = 0 then [x] else xs[j := x])"

lemma replace_list_rep:
  assumes rep: "list_rep l as xs" and j: "j < length xs"
  shows "\<exists>l1 i1 l2 it as' j'. erase_after l (prev_at l as j) = Some (l1, i1) \<and>
    insert_after l1 (prev_at l as j) v = Some (l2, it) \<and>
    it_inc l2 it = Some (iter_at as' j') \<and> list_rep l2 as' (replace_at j v xs)"
proof (cases j)
  case 0
  then obtain x ys where xs: "xs = x # ys" using j by (cases xs) auto
  then obtain a bs where as: "as = a # bs" using list_rep_length [OF rep] by (cases as) auto
  obtain l1 where l1: "erase_after l (list_before_begin l) = Some (l1, list_before_begin l1)"
    by (rule erase_first_rep [OF rep [unfolded xs as]]) (rule that)
  obtain l2 where l2: "emplace_after l1 (list_before_begin l) v = Some (l2, list_begin l2)" "list_rep l2 [ll_fresh l1] [v]"
    using emplace_first_rep [of "list_before_begin l" l1 v] by (auto simp: list_before_begin_def)
  have "it_inc l2 (list_begin l2) = Some (iter_at [ll_fresh l1] (Suc 0))"
    using it_inc_rep [OF l2(2), of 0] list_begin_rep [OF l2(2)] by simp
  then show ?thesis
    using 0 l1 l2 by (intro exI [of _ l1] exI [of _ "list_before_begin l1"] exI [of _ l2] exI [of _ "list_begin l2"]
        exI [of _ "[ll_fresh l1]"] exI [of _ "Suc 0"]) (simp add: prev_at_def insert_after_def replace_at_def)
next
  case (Suc i)
  then obtain l1 l2 a where l: "erase_after l (iter_at as i) = Some (l1, iter_at as i)"
    "insert_after l1 (iter_at as i) v = Some (l2, iter_at (as[Suc i := a]) (Suc i))"
    "list_rep l2 (as[Suc i := a]) (xs[Suc i := v])"
    using heap_list.replace [OF rep] j by metis
  have "it_inc l2 (iter_at (as[Suc i := a]) (Suc i)) = Some (iter_at (as[Suc i := a]) (Suc (Suc i)))"
    using it_inc_rep [OF l(3)] j Suc by simp
  then show ?thesis using l Suc by (auto simp: prev_at_def replace_at_def)
qed

lemma bucket_replace_rep:
  assumes env: "store_env e es c junk" and rep: "bucket_rep e c b kvs" and ens: "entries_rep e c (bk_list b) as ens kvs"
    and kv: "kv_fits k v" and j: "j < length kvs" and idx: "hr_idx r = prev_at (bk_list b) as j"
  shows "\<exists>b'. bucket_replace e es c (of_nat (length k)) (of_nat (length v)) (k @ v) b (iter_at as j) r hash_void = Some (True, b') \<and>
    bucket_rep e c b' (replace_at j (k, v) kvs)"
proof -
  note l = entries_repD [OF ens]
  obtain en where en: "entry_new e c (of_nat (length k)) (of_nat (length v)) (k @ v) = Some en"
    by (rule entry_new_shape [OF env kv]) (rule that)
  then have er: "entry_rep e c en (k, v)" using kv by (simp add: entry_rep_def)
  have j': "j < length ens" using j l(2) by simp
  obtain l1 i1 l2 it as' j2 where l2: "erase_after (bk_list b) (prev_at (bk_list b) as j) = Some (l1, i1)"
    "insert_after l1 (prev_at (bk_list b) as j) en = Some (l2, it)"
    "it_inc l2 it = Some (iter_at as' j2)" "list_rep l2 as' (replace_at j en ens)"
    using replace_list_rep [OF l(1) j', of en] by blast
  have h: "bk_hash b = replicate 16 0" using rep by (simp add: bucket_rep_def)
  have "bucket_replace e es c (of_nat (length k)) (of_nat (length v)) (k @ v) b (iter_at as j) r hash_void =
      Some (True, \<lparr>bk_list = l2, bk_hash = replicate 16 0\<rparr>)"
    using en l2 h idx it_arrow_rep [OF l(1) j'] rehash_loop_rep [OF l2(4), of es j2]
    by (simp add: bucket_replace_def void_simps mem_read_def mem_write_def hash_void_def [THEN arg_cong, of hs_mac])
  moreover have "entries_rep e c l2 as' (replace_at j en ens) (replace_at j (k, v) kvs)"
    using ens er l2(4) by (auto simp: entries_rep_def replace_at_def intro!: list_all2_update_cong)
  ultimately show ?thesis by (auto simp: bucket_rep_def)
qed

text \<open>The contents after a put.\<close>

definition put_content :: "bytes \<Rightarrow> bytes \<Rightarrow> (bytes \<times> bytes) list \<Rightarrow> (bytes \<times> bytes) list" where
  "put_content k v kvs = (if k \<in> fst ` set kvs then replace_at (locate k kvs) (k, v) kvs else kvs @ [(k, v)])"

lemma bucket_put_rep:
  assumes env: "store_env e es c junk" and rep: "bucket_rep e c b kvs" and kv: "kv_fits k v"
  shows "\<exists>r b'. hr_kv r = found k kvs \<and> bucket_rep e c b' (put_content k v kvs) \<and>
    bucket_put e es c junk (of_nat (length k)) (of_nat (length v)) (k @ v) b w = Some (if w r then (True, b') else (False, b))"
proof -
  obtain as ens where ens: "entries_rep e c (bk_list b) as ens kvs" using rep by (auto simp: bucket_rep_def)
  note l = entries_repD [OF ens]
  have k: "length k < 2 ^ 32" using kv by (simp add: kv_fits_def)
  note find = bucket_find_rep [OF env ens k, of v]
  show ?thesis
  proof (cases "locate k kvs < length kvs")
    case True
    let ?r = "hit (prev_at (bk_list b) as (locate k kvs)) k (ens ! locate k kvs) (snd (kvs ! locate k kvs))"
    obtain b' where b': "bucket_replace e es c (of_nat (length k)) (of_nat (length v)) (k @ v) b
        (iter_at as (locate k kvs)) ?r hash_void = Some (True, b')"
      "bucket_rep e c b' (replace_at (locate k kvs) (k, v) kvs)"
      using bucket_replace_rep [OF env rep ens kv True, of ?r] by (auto simp: hit_def)
    have "\<not> it_eq (iter_at as (locate k kvs)) list_end" using True list_end_rep [OF l(1)] l(2) by simp
    then have "bucket_put e es c junk (of_nat (length k)) (of_nat (length v)) (k @ v) b w =
        Some (if w ?r then (True, b') else (False, b))"
      using find True b'(1) by (simp add: bucket_put_def store_env_hash [OF env])
    moreover have "hr_kv ?r = found k kvs" using True by (simp add: found_locate hit_def)
    ultimately show ?thesis using b'(2) True locate_iff [of k kvs] by (auto simp: put_content_def)
  next
    case False
    let ?r = "\<lparr>hr_idx = prev_at (bk_list b) as (length kvs), hr_size = 0, hr_kv = None\<rparr> :: ht_ret"
    obtain b' where b': "bucket_append e es c (of_nat (length k)) (of_nat (length v)) (k @ v) b ?r hash_void = Some (True, b')"
      "bucket_rep e c b' (kvs @ [(k, v)])"
      using bucket_append_rep [OF env rep ens kv, of ?r] by auto
    have "it_eq list_end list_end" by (simp add: it_eq_def)
    then have "bucket_put e es c junk (of_nat (length k)) (of_nat (length v)) (k @ v) b w =
        Some (if w ?r then (True, b') else (False, b))"
      using find False b'(1) by (simp add: bucket_put_def store_env_hash [OF env])
    moreover have "hr_kv ?r = found k kvs" using False by (simp add: found_locate)
    ultimately show ?thesis
      using b'(2) False locate_iff [of k kvs] by (intro exI [of _ ?r] exI [of _ b']) (simp add: put_content_def)
  qed
qed

lemma map_of_update_same: "locate k kvs < length kvs \<Longrightarrow> map_of (kvs[locate k kvs := (k, v)]) k = Some v"
  by (induction kvs) (auto simp: locate_def)

lemma map_of_put_same: "map_of (put_content k v kvs) k = Some v"
  using map_of_update_same [of k kvs v] locate_iff [of k kvs]
  by (auto simp: put_content_def replace_at_def map_add_def split: option.splits dest: map_of_SomeD intro: rev_image_eqI)

lemma map_of_update_at:
  "k' \<noteq> k \<Longrightarrow> locate k kvs < length kvs \<Longrightarrow> map_of (kvs[locate k kvs := (k, v)]) k' = map_of kvs k'"
  by (induction kvs) (auto simp: locate_def)

lemma map_of_put_other:
  assumes "k' \<noteq> k"
  shows "map_of (put_content k v kvs) k' = (if k \<in> fst ` set kvs \<and> locate k kvs = 0 then None else map_of kvs k')"
  using assms map_of_update_at [OF assms, of kvs v] locate_iff [of k kvs]
  by (auto simp: put_content_def replace_at_def map_add_def split: option.splits)

section \<open>The table and its contents\<close>

definition key_bin :: "nat \<Rightarrow> bytes \<Rightarrow> nat" where
  "key_bin n k = unat (foldl (\<lambda>h b. h * 61 + ucast b) (7 :: u64) k mod of_nat n)"

definition table_rep :: "evp \<Rightarrow> ehashtable \<Rightarrow> (bytes \<times> bytes) list list \<Rightarrow> bool" where
  "table_rep e t cs \<longleftrightarrow> 0 < length cs \<and> length cs < 2 ^ 64 \<and> list_all2 (bucket_rep e (ht_cipher t)) (ht_table t) cs"

lemma key_bin_less: "0 < n \<Longrightarrow> n < 2 ^ 64 \<Longrightarrow> key_bin n k < n"
  unfolding key_bin_def by (simp add: unat_mod unat_of_nat_eq)

lemma ht_hash_rep: "table_rep e t cs \<Longrightarrow> length k < 2 ^ 32 \<Longrightarrow>
  ht_hash t (of_nat (length k)) (k @ r) = Some (key_bin (length cs) k)"
  using list_all2_lengthD [of "bucket_rep e (ht_cipher t)" "ht_table t" cs]
  by (simp add: table_rep_def ht_hash_def bk_adjust_size_def hash_fn_prefix key_bin_def)

lemma table_rep_nth:
  "table_rep e t cs \<Longrightarrow> bucket_rep e (ht_cipher t) (ht_table t ! key_bin (length cs) k) (cs ! key_bin (length cs) k)"
  using key_bin_less [of "length cs" k] by (auto simp: table_rep_def list_all2_conv_all_nth)

lemma ht_new_rep: "0 < n \<Longrightarrow> n < 2 ^ 64 \<Longrightarrow> table_rep e (ht_new c n) (replicate n [])"
  by (simp add: table_rep_def ht_new_def list_all2_conv_all_nth)

lemma ht_get_rep:
  assumes "store_env e es (ht_cipher t) junk" "table_rep e t cs" "length k < 2 ^ 32"
  shows "\<exists>res. ht_get e es junk t (of_nat (length k)) (k @ r) = Some res \<and> hr_kv res = found k (cs ! key_bin (length cs) k)"
  using bucket_get_rep [OF assms(1) table_rep_nth [OF assms(2)] assms(3), of r k] ht_hash_rep [OF assms(2,3), of r]
  by (auto simp: ht_get_def)

lemma ht_put_rep:
  assumes "store_env e es (ht_cipher t) junk" "table_rep e t cs" "kv_fits k v"
  shows "\<exists>r t'. hr_kv r = found k (cs ! key_bin (length cs) k) \<and>
    ht_put e es junk t (of_nat (length k)) (of_nat (length v)) (k @ v) w = Some (w r, if w r then t' else t) \<and>
    ht_cipher t' = ht_cipher t \<and>
    table_rep e t' (cs[key_bin (length cs) k := put_content k v (cs ! key_bin (length cs) k)])"
proof -
  let ?i = "key_bin (length cs) k"
  obtain r b' where r: "hr_kv r = found k (cs ! ?i)" "bucket_rep e (ht_cipher t) b' (put_content k v (cs ! ?i))"
    "bucket_put e es (ht_cipher t) junk (of_nat (length k)) (of_nat (length v)) (k @ v) (ht_table t ! ?i) w =
      Some (if w r then (True, b') else (False, ht_table t ! ?i))"
    using bucket_put_rep [OF assms(1) table_rep_nth [OF assms(2), of k] assms(3), of w] by blast
  have "length k < 2 ^ 32" using assms(3) by (simp add: kv_fits_def)
  then have "ht_put e es junk t (of_nat (length k)) (of_nat (length v)) (k @ v) w =
      Some (w r, if w r then t\<lparr>ht_table := (ht_table t)[?i := b']\<rparr> else t)"
    using r(3) ht_hash_rep [OF assms(2), of k v] by (simp add: ht_put_def)
  moreover have "table_rep e (t\<lparr>ht_table := (ht_table t)[?i := b']\<rparr>) (cs[?i := put_content k v (cs ! ?i)])"
    using assms(2) r(2) by (auto simp: table_rep_def intro!: list_all2_update_cong)
  ultimately show ?thesis using r(1) by (intro exI [of _ r] exI [of _ "t\<lparr>ht_table := (ht_table t)[?i := b']\<rparr>"]) simp
qed

text \<open>The key and value a get of a key returns, if it finds one.\<close>

definition ht_lookup :: "evp \<Rightarrow> 'c evp_stream \<Rightarrow> bytes \<Rightarrow> ehashtable \<Rightarrow> bytes \<Rightarrow> bytes option option" where
  "ht_lookup e es junk t k = map_option hr_kv (ht_get e es junk t (of_nat (length k)) k)"

lemma ht_get_kv:
  assumes "store_env e es (ht_cipher t) junk" "table_rep e t cs" "length k < 2 ^ 32"
  shows "ht_lookup e es junk t k = Some (found k (cs ! key_bin (length cs) k))"
  using ht_get_rep [OF assms, of "[]"] by (auto simp: ht_lookup_def)

text \<open>The first key of a bucket.\<close>

definition heads_bucket :: "bytes \<Rightarrow> (bytes \<times> bytes) list list \<Rightarrow> bool" where
  "heads_bucket k cs \<longleftrightarrow> cs ! key_bin (length cs) k \<noteq> [] \<and> fst (hd (cs ! key_bin (length cs) k)) = k"

lemma heads_bucket_locate:
  "heads_bucket k cs \<longleftrightarrow> k \<in> fst ` set (cs ! key_bin (length cs) k) \<and> locate k (cs ! key_bin (length cs) k) = 0"
  by (cases "cs ! key_bin (length cs) k") (auto simp: heads_bucket_def locate_def)

lemma ht_put_then_get:
  assumes env: "store_env e es (ht_cipher t) junk" and rep: "table_rep e t cs" and kv: "kv_fits k v"
  obtains t' where "ht_put e es junk t (of_nat (length k)) (of_nat (length v)) (k @ v) (\<lambda>_. True) = Some (True, t')"
    "ht_lookup e es junk t' k = Some (Some (k @ v))"
    "\<And>k'. k' \<noteq> k \<Longrightarrow> length k' < 2 ^ 32 \<Longrightarrow> ht_lookup e es junk t' k' =
      (if heads_bucket k cs \<and> key_bin (length cs) k' = key_bin (length cs) k then Some None
       else ht_lookup e es junk t k')"
proof -
  let ?i = "key_bin (length cs) k"
  let ?cs = "cs[?i := put_content k v (cs ! ?i)]"
  obtain t' where put: "ht_put e es junk t (of_nat (length k)) (of_nat (length v)) (k @ v) (\<lambda>_. True) = Some (True, t')"
    and c: "ht_cipher t' = ht_cipher t" and rep': "table_rep e t' ?cs"
    using ht_put_rep [OF env rep kv, of "\<lambda>_. True"] by auto
  have i: "?i < length cs" using rep by (auto simp: table_rep_def intro: key_bin_less)
  have k: "length k < 2 ^ 32" using kv by (simp add: kv_fits_def)
  have get': "ht_lookup e es junk t' k' = Some (found k' (?cs ! key_bin (length cs) k'))"
    if "length k' < 2 ^ 32" for k'
    using ht_get_kv [OF env [folded c] rep' that] by simp
  have get: "ht_lookup e es junk t k' = Some (found k' (cs ! key_bin (length cs) k'))"
    if "length k' < 2 ^ 32" for k'
    using ht_get_kv [OF env rep that] by simp
  show ?thesis
  proof (rule that [OF put])
    show "ht_lookup e es junk t' k = Some (Some (k @ v))"
      using get' [OF k] i by (simp add: found_def map_of_put_same)
  next
    fix k' assume k': "k' \<noteq> k" "length k' < 2 ^ 32"
    show "ht_lookup e es junk t' k' =
      (if heads_bucket k cs \<and> key_bin (length cs) k' = ?i then Some None
       else ht_lookup e es junk t k')"
      using get [OF k'(2)] get' [OF k'(2)] i map_of_put_other [OF k'(1), of v "cs ! ?i"]
      by (cases "key_bin (length cs) k' = ?i") (simp_all add: found_def heads_bucket_locate)
  qed
qed

section \<open>Properties\<close>


definition demo_cipher :: cipher_ssl where
  "demo_cipher = \<lparr>cs_key = replicate 16 1, cs_iv = replicate 12 2\<rparr>"

lemma demo_store_env [simp]: "store_env xor_evp unit_stream demo_cipher (replicate 16 0)"
  by (simp add: store_env_def demo_cipher_def cipher_wf_def unit_stream_def)

lemma key_bin_one [simp]: "key_bin (Suc 0) k = 0"
  using key_bin_less [of 1 k] by simp

lemma demo_table:
  "\<exists>t. ht_cipher t = demo_cipher \<and> table_rep xor_evp t [[([1], [2]), ([3], [4])]]"
proof -
  let ?t = "ht_new demo_cipher 1"
  have t: "table_rep xor_evp ?t [[]]" "ht_cipher ?t = demo_cipher"
    using ht_new_rep [of 1 xor_evp demo_cipher] by (simp_all add: ht_new_def)
  obtain t1 where t1: "ht_cipher t1 = demo_cipher" "table_rep xor_evp t1 [[([1], [2])]]"
    using ht_put_rep [OF _ t(1), of unit_stream "replicate 16 0" "[1]" "[2]" "\<lambda>_. True"] t(2)
    by (auto simp: put_content_def kv_fits_def)
  show ?thesis
    using ht_put_rep [OF _ t1(2), of unit_stream "replicate 16 0" "[3]" "[4]" "\<lambda>_. True"] t1(1)
    by (auto simp: put_content_def kv_fits_def)
qed


text \<open>
  C19. Updating the first key of a bucket loses the other ones: the put returns success, and afterwards a
  get of every other key of that bucket finds nothing.
\<close>

theorem head_update_drops_bucket:
  assumes "store_env e es (ht_cipher t) junk" "table_rep e t cs" "kv_fits k v"
    and "heads_bucket k cs" "k' \<noteq> k" "length k' < 2 ^ 32" "key_bin (length cs) k' = key_bin (length cs) k"
  shows "\<exists>t'. ht_put e es junk t (of_nat (length k)) (of_nat (length v)) (k @ v) (\<lambda>_. True) = Some (True, t') \<and>
    ht_lookup e es junk t' k' = Some None"
  by (rule ht_put_then_get [OF assms(1-3)]) (use assms(4-7) in auto)

theorem head_update_drops_bucket_witness:
  "\<exists>t t'. ht_lookup xor_evp unit_stream (replicate 16 0) t [3 :: u8] = Some (Some [3, 4]) \<and>
    ht_put xor_evp unit_stream (replicate 16 0) t (of_nat (length [1 :: u8])) (of_nat (length [9 :: u8])) ([1] @ [9]) (\<lambda>_. True)
      = Some (True, t') \<and>
    ht_lookup xor_evp unit_stream (replicate 16 0) t' [3 :: u8] = Some None"
proof -
  obtain t where t: "ht_cipher t = demo_cipher" "table_rep xor_evp t [[([1], [2]), ([3], [4])]]"
    using demo_table by blast
  have env: "store_env xor_evp unit_stream (ht_cipher t) (replicate 16 0)" using t by simp
  have "\<exists>t'. ht_put xor_evp unit_stream (replicate 16 0) t (of_nat (length [1 :: u8])) (of_nat (length [9 :: u8])) ([1] @ [9]) (\<lambda>_. True)
      = Some (True, t') \<and>
    ht_lookup xor_evp unit_stream (replicate 16 0) t' [3 :: u8] = Some None"
    by (rule head_update_drops_bucket [OF env t(2)]) (simp_all add: kv_fits_def heads_bucket_def)
  moreover have "ht_lookup xor_evp unit_stream (replicate 16 0) t [3 :: u8] = Some (Some [3, 4])"
    by (subst ht_get_kv [OF env t(2)]) (simp_all add: found_def)
  ultimately show ?thesis by blast
qed

end
