(* ===== verification/Replica_Groups.thy ===== *)
theory Replica_Groups
  imports Protocol "HOL-Library.Char_ord" "HOL-Library.List_Lexorder"
begin

text \<open>
  How a node of \<open>src/server.cpp\<close> reads its command line: the addresses of the replicas and the groups of
  three replicas that share a key (\<open>permutations\<close>).  Strings are compared as \<open>std::string\<close> does, by the
  unsigned codes of their characters.

  The theory shows that all nodes compute the same groups: the group number of a key means the same
  three nodes everywhere, provided a node's own address sorts like the entry the others have for it.
\<close>

section \<open>Addresses\<close>

text \<open>\<open>npos\<close> is \<open>None\<close>.\<close>

fun str_find :: "char \<Rightarrow> string \<Rightarrow> nat option" where
  "str_find c [] = None"
| "str_find c (x # s) = (if x = c then Some 0 else map_option Suc (str_find c s))"

text \<open>The last occurrence at or before a position.\<close>

definition str_rfind :: "char \<Rightarrow> string \<Rightarrow> nat option \<Rightarrow> nat option" where
  "str_rfind c s pos =
     (let t = (case pos of None \<Rightarrow> s | Some p \<Rightarrow> take (Suc p) s)
      in map_option (\<lambda>i. length t - Suc i) (str_find c (rev t)))"

definition get_uri_from_server_info :: "string \<Rightarrow> string" where
  "get_uri_from_server_info svr_info =
     (case str_rfind CHR '':'' svr_info None of None \<Rightarrow> svr_info | Some p \<Rightarrow> take p svr_info)"

text \<open>\<open>atoll\<close>: white space, a sign, and the digits up to the first other character.\<close>

definition is_digit :: "char \<Rightarrow> bool" where
  "is_digit c \<longleftrightarrow> CHR ''0'' \<le> c \<and> c \<le> CHR ''9''"

definition is_space :: "char \<Rightarrow> bool" where
  "is_space c \<longleftrightarrow> c = CHR '' '' \<or> (CHR 0x09 \<le> c \<and> c \<le> CHR 0x0D)"

definition digits_val :: "string \<Rightarrow> int" where
  "digits_val ds = foldl (\<lambda>n d. 10 * n + (of_char d - 48)) 0 ds"

definition atoll :: "string \<Rightarrow> int" where
  "atoll s =
     (let s = dropWhile is_space s
      in case s of
           [] \<Rightarrow> 0
         | c # t \<Rightarrow> (if c = CHR ''-'' then - digits_val (takeWhile is_digit t)
                     else if c = CHR ''+'' then digits_val (takeWhile is_digit t)
                     else digits_val (takeWhile is_digit s)))"

text \<open>Without a dot the offset is \<open>npos + 1\<close>, which is zero.\<close>

definition get_id_from_addr :: "string \<Rightarrow> u64" where
  "get_id_from_addr uri =
     of_int (atoll (drop (case str_rfind CHR ''.'' uri (str_find CHR '':'' uri) of None \<Rightarrow> 0 | Some p \<Rightarrow> Suc p) uri))"

definition get_n_threads_from_svr_info :: "string \<Rightarrow> u64" where
  "get_n_threads_from_svr_info svr_info = get_id_from_addr svr_info"

definition get_session_id_from_id :: "u64 \<Rightarrow> u64" where
  "get_session_id_from_id n = push_bit 24 n"

text \<open>The replicas a server thread is given: the remainder by zero has no result.\<close>

fun server_replicas :: "u64 \<Rightarrow> string list \<Rightarrow> replica_info list option" where
  "server_replicas local_id [] = Some []"
| "server_replicas local_id (r # rs) = do {
     let n = get_n_threads_from_svr_info r;
     _ \<leftarrow> assert_that (n \<noteq> 0);
     rs \<leftarrow> server_replicas local_id rs;
     Some (\<lparr>ri_session_id = 0, ri_base_id = local_id mod n, ri_uri = get_uri_from_server_info r\<rparr> # rs)
   }"

section \<open>Groups\<close>

definition group_of :: "int \<Rightarrow> int \<Rightarrow> int \<Rightarrow> bool \<times> nat \<times> nat" where
  "group_of a b c =
     (if a = -1 then (True, nat (min b c), nat (max b c))
      else if b = -1 then (True, nat (min a c), nat (max a c))
      else if c = -1 then (True, nat (min a b), nat (max a b))
      else (False, nat (min a b), nat (max a b)))"

text \<open>The three nested loops over positions \<open>i < j < k\<close>.\<close>

definition all_triples :: "'a list \<Rightarrow> ('a \<times> 'a \<times> 'a) list" where
  "all_triples xs =
     concat (map (\<lambda>i. concat (map (\<lambda>j. map (\<lambda>k. (xs ! i, xs ! j, xs ! k)) [Suc j..<length xs])
       [Suc i..<length xs])) [0..<length xs])"

text \<open>The sorted addresses of the others, and the groups.\<close>

definition permutations :: "string \<Rightarrow> string list \<Rightarrow> string list \<times> (bool \<times> nat \<times> nat) list" where
  "permutations uri replica_info =
     (let infos = sort replica_info;
          tmp = (-1, uri) # map (\<lambda>i. (int i, infos ! i)) [0..<length infos];
          tmp = sort_key snd tmp
      in (infos, map (\<lambda>(x, y, z). group_of (fst x) (fst y) (fst z)) (all_triples tmp)))"

section \<open>All nodes agree\<close>

lemma all_triples_map: "all_triples (map f xs) = map (\<lambda>(a, b, c). (f a, f b, f c)) (all_triples xs)"
  unfolding all_triples_def by (auto simp: map_concat comp_def intro!: arg_cong [where f = concat] map_cong)

lemma all_triples_set:
  assumes "(a, b, c) \<in> set (all_triples xs)" "distinct xs"
  shows "a \<in> set xs" "b \<in> set xs" "c \<in> set xs" "a \<noteq> b" "a \<noteq> c" "b \<noteq> c"
  using assms by (auto simp: all_triples_def nth_eq_iff_index_eq)

text \<open>
  The node \<open>x\<close> of the sorted nodes \<open>N\<close>: it knows the others by their entries, in any order, and its own
  address \<open>u\<close> compares with them as its entry does.
\<close>

definition node_view :: "string list \<Rightarrow> string \<Rightarrow> string \<Rightarrow> string list \<Rightarrow> bool" where
  "node_view N x u infos \<longleftrightarrow> sorted N \<and> distinct N \<and> x \<in> set N \<and> distinct infos \<and> set infos = set N - {x} \<and>
     (\<forall>y \<in> set N - {x}. u \<noteq> y \<and> (u < y \<longleftrightarrow> x < y))"

definition idx_of :: "'a \<Rightarrow> 'a list \<Rightarrow> nat" where
  "idx_of y ys = length (takeWhile (\<lambda>z. z \<noteq> y) ys)"

lemma idx_of: "y \<in> set ys \<Longrightarrow> idx_of y ys < length ys \<and> ys ! idx_of y ys = y"
  by (induction ys) (auto simp: idx_of_def)

lemma idx_of_nth: "distinct ys \<Longrightarrow> i < length ys \<Longrightarrow> idx_of (ys ! i) ys = i"
  using idx_of [of "ys ! i" ys] nth_eq_iff_index_eq [of ys "idx_of (ys ! i) ys" i] by simp

definition tag_of :: "string \<Rightarrow> string \<Rightarrow> string list \<Rightarrow> string \<Rightarrow> int \<times> string" where
  "tag_of x u infos y = (if y = x then (-1, u) else (int (idx_of y infos), y))"

lemma sorted_tags:
  assumes "node_view N x u infos"
  shows "sorted (map (snd \<circ> tag_of x u infos') N)" "distinct (map (snd \<circ> tag_of x u infos') N)"
proof -
  have cmp: "u \<noteq> y" "u < y \<longleftrightarrow> x < y" if "y \<in> set N" "y \<noteq> x" for y
    using assms that by (auto simp: node_view_def)
  have below: "y < u" if "y \<in> set N" "y < x" for y
    using cmp [of y] that less_asym [of x y] by (metis neqE less_irrefl)
  have less: "(snd \<circ> tag_of x u infos') a < (snd \<circ> tag_of x u infos') b" if "a \<in> set N" "b \<in> set N" "a < b" for a b
    using cmp [of b] below [of a] that by (auto simp: tag_of_def)
  have "sorted_wrt (<) N" using assms by (simp add: node_view_def strict_sorted_iff)
  then have "sorted_wrt (\<lambda>a b. (snd \<circ> tag_of x u infos') a < (snd \<circ> tag_of x u infos') b) N"
    by (rule sorted_wrt_mono_rel [rotated]) (rule less)
  then have "sorted_wrt (<) (map (snd \<circ> tag_of x u infos') N)" by (simp add: sorted_wrt_map)
  then show "sorted (map (snd \<circ> tag_of x u infos') N)" "distinct (map (snd \<circ> tag_of x u infos') N)"
    by (simp_all add: strict_sorted_iff)
qed

lemma sort_tags:
  assumes view: "node_view N x u infos"
  shows "sort_key snd ((-1, u) # map (\<lambda>i. (int i, sort infos ! i)) [0..<length infos]) = map (tag_of x u (sort infos)) N"
    (is "sort_key snd ?tmp = _")
proof (rule map_sorted_distinct_set_unique [where f = snd])
  have infos: "distinct (sort infos)" "set (sort infos) = set N - {x}" "x \<in> set N" using view by (auto simp: node_view_def)
  have u: "u \<notin> set N - {x}" using view by (auto simp: node_view_def)
  have rest: "set (map (\<lambda>i. (int i, sort infos ! i)) [0..<length infos]) = tag_of x u (sort infos) ` (set N - {x})"
  proof (intro equalityI subsetI)
    fix z assume "z \<in> set (map (\<lambda>i. (int i, sort infos ! i)) [0..<length infos])"
    then obtain i where i: "i < length infos" "z = (int i, sort infos ! i)" by auto
    then have "sort infos ! i \<in> set N - {x}" using nth_mem [of i "sort infos"] infos(2) by simp
    moreover have "tag_of x u (sort infos) (sort infos ! i) = z"
      using i idx_of_nth [OF infos(1), of i] calculation by (simp add: tag_of_def)
    ultimately show "z \<in> tag_of x u (sort infos) ` (set N - {x})" by (metis imageI)
  next
    fix z assume "z \<in> tag_of x u (sort infos) ` (set N - {x})"
    then obtain y where y: "y \<in> set (sort infos)" "y \<noteq> x" "z = tag_of x u (sort infos) y" using infos(2) by auto
    have "idx_of y (sort infos) < length infos" "sort infos ! idx_of y (sort infos) = y" using idx_of [OF y(1)] by simp_all
    then show "z \<in> set (map (\<lambda>i. (int i, sort infos ! i)) [0..<length infos])"
      using y(2,3) by (force simp: tag_of_def)
  qed
  have "set ?tmp = tag_of x u (sort infos) ` insert x (set N - {x})"
    unfolding image_insert rest [symmetric] by (simp add: tag_of_def)
  then have set_eq: "set ?tmp = tag_of x u (sort infos) ` set N" using infos(3) by (simp add: insert_absorb)
  then show "set (sort_key snd ?tmp) = set (map (tag_of x u (sort infos)) N)" by (simp only: set_sort list.set_map)
  show "sorted (map snd (sort_key snd ?tmp))" by (rule sorted_sort_key)
  show "sorted (map snd (map (tag_of x u (sort infos)) N))" "distinct (map snd (map (tag_of x u (sort infos)) N))"
    using sorted_tags [OF view] by simp_all
  have "distinct (map snd ?tmp)"
    using infos u by (simp add: comp_def map_nth [of "sort infos", simplified] distinct_map)
  then show "distinct (map snd (sort_key snd ?tmp))"
    by (simp only: distinct_map distinct_sort set_sort)
  show "inj_on snd (set (sort_key snd ?tmp) \<union> set (map (tag_of x u (sort infos)) N))"
    using \<open>distinct (map snd (map (tag_of x u (sort infos)) N))\<close> by (simp only: set_sort set_eq distinct_map list.set_map Un_absorb)
qed

lemma permutations_view:
  assumes "node_view N x u infos"
  shows "permutations u infos = (sort infos,
    map (\<lambda>(a, b, c). group_of (fst (tag_of x u (sort infos) a)) (fst (tag_of x u (sort infos) b)) (fst (tag_of x u (sort infos) c)))
      (all_triples N))"
  using sort_tags [OF assms] by (simp add: permutations_def Let_def all_triples_map comp_def case_prod_unfold)

text \<open>What an entry of the result means: whether the node is in the group, and the two other members.\<close>

definition group_nodes :: "string \<Rightarrow> string list \<Rightarrow> bool \<times> nat \<times> nat \<Rightarrow> string set option" where
  "group_nodes x infos g =
     (case g of (us, a, b) \<Rightarrow> if us \<and> a < length infos \<and> b < length infos then Some {x, infos ! a, infos ! b} else None)"

lemma group_nodes_pair:
  "p < length ys \<Longrightarrow> q < length ys \<Longrightarrow>
    group_nodes x ys (True, nat (min (int p) (int q)), nat (max (int p) (int q))) = Some {x, ys ! p, ys ! q}"
  by (auto simp: group_nodes_def min_def max_def)

lemma group_of_tags:
  assumes view: "node_view N x u infos" and abc: "(a, b, c) \<in> set (all_triples N)"
  shows "group_nodes x (sort infos) (group_of (fst (tag_of x u (sort infos) a)) (fst (tag_of x u (sort infos) b))
      (fst (tag_of x u (sort infos) c))) = (if x \<in> {a, b, c} then Some {a, b, c} else None)"
proof -
  have N: "distinct N" "set (sort infos) = set N - {x}" using view by (simp_all add: node_view_def)
  note ne = all_triples_set [OF abc N(1)]
  have tag: "fst (tag_of x u (sort infos) y) = int (idx_of y (sort infos))" "idx_of y (sort infos) < length infos"
    "sort infos ! idx_of y (sort infos) = y" if "y \<in> {a, b, c}" "y \<noteq> x" for y
    using that ne N(2) idx_of [of y "sort infos"] by (auto simp: tag_of_def)
  have self: "fst (tag_of x u (sort infos) x) = -1" by (simp add: tag_of_def)
  consider "x = a" | "x = b" | "x = c" | "x \<notin> {a, b, c}" by auto
  then show ?thesis
  proof cases
    case 1
    then show ?thesis
      using ne(4,5) self tag [of b] tag [of c] group_nodes_pair [of "idx_of b (sort infos)" "sort infos" "idx_of c (sort infos)" x]
      by (simp add: group_of_def)
  next
    case 2
    then show ?thesis
      using ne(4,6) self tag [of a] tag [of c] group_nodes_pair [of "idx_of a (sort infos)" "sort infos" "idx_of c (sort infos)" x]
      by (simp add: group_of_def insert_commute)
  next
    case 3
    then show ?thesis
      using ne(5,6) self tag [of a] tag [of b] group_nodes_pair [of "idx_of a (sort infos)" "sort infos" "idx_of b (sort infos)" x]
      by (simp add: group_of_def insert_commute)
  next
    case 4
    then have "a \<noteq> x" "b \<noteq> x" "c \<noteq> x" by auto
    then show ?thesis using tag(1) [of a] tag(1) [of b] tag(1) [of c] 4 by (simp add: group_of_def group_nodes_def)
  qed
qed

text \<open>The entry of a group number, at any node.\<close>

lemma group_entry:
  assumes "node_view N x u infos" "n < length (snd (permutations u infos))"
  shows "n < length (all_triples N)"
    and "group_nodes x (fst (permutations u infos)) (snd (permutations u infos) ! n) =
      (case all_triples N ! n of (a, b, c) \<Rightarrow> if x \<in> {a, b, c} then Some {a, b, c} else None)"
proof -
  show n: "n < length (all_triples N)" using assms by (simp add: permutations_view)
  obtain a b c where abc: "all_triples N ! n = (a, b, c)" by (cases "all_triples N ! n") auto
  then have "(a, b, c) \<in> set (all_triples N)" using nth_mem [OF n] by simp
  then show "group_nodes x (fst (permutations u infos)) (snd (permutations u infos) ! n) =
      (case all_triples N ! n of (a, b, c) \<Rightarrow> if x \<in> {a, b, c} then Some {a, b, c} else None)"
    using group_of_tags [OF assms(1)] n abc by (simp add: permutations_view [OF assms(1)])
qed

section \<open>Parsing addresses\<close>

lemma str_find_append: "c \<notin> set a \<Longrightarrow> str_find c (a @ c # b) = Some (length a)"
  by (induction a) auto

lemma str_rfind_append: "c \<notin> set b \<Longrightarrow> str_rfind c (a @ c # b) None = Some (length a)"
  using str_find_append [of c "rev b" "rev a"] by (simp add: str_rfind_def)

lemma str_rfind_before:
  assumes "c \<notin> set b" "d \<notin> set (a @ c # b)" "d \<noteq> c"
  shows "str_rfind c (a @ c # b @ d # e) (str_find d (a @ c # b @ d # e)) = Some (length a)"
proof -
  have "str_find d ((a @ c # b) @ d # e) = Some (length (a @ c # b))" by (rule str_find_append [OF assms(2)])
  moreover have "take (Suc (length (a @ c # b))) (a @ c # b @ d # e) = a @ c # (b @ [d])" by simp
  ultimately show ?thesis
    using str_find_append [of c "rev (b @ [d])" "rev a"] assms by (simp add: str_rfind_def)
qed

lemma atoll_digits:
  assumes "ds \<noteq> []" "\<forall>d \<in> set ds. is_digit d" "\<not> is_digit c"
  shows "atoll (ds @ c # rest) = digits_val ds"
proof -
  obtain d es where ds: "ds = d # es" using assms(1) by (cases ds) auto
  have d: "is_digit d" using assms(2) ds by simp
  then have "\<not> is_space d" "d \<noteq> CHR ''-''" "d \<noteq> CHR ''+''"
    by (auto simp: is_digit_def is_space_def dest: order_trans [of "CHR ''0''" d "CHR 0x0D"])
  moreover have "takeWhile is_digit (ds @ c # rest) = ds" using assms(2,3) by (simp add: takeWhile_append2)
  ultimately show ?thesis using ds by (simp add: atoll_def)
qed

text \<open>The number of an address is its last octet, whatever follows the first colon.\<close>

lemma get_id_octet:
  assumes "CHR '':'' \<notin> set p" "ds \<noteq> []" "\<forall>d \<in> set ds. is_digit d"
  shows "get_id_from_addr (p @ CHR ''.'' # ds @ CHR '':'' # rest) = of_int (digits_val ds)"
proof -
  have "CHR ''.'' \<notin> set ds" "CHR '':'' \<notin> set ds" using assms(3) by (auto simp: is_digit_def)
  then have "str_rfind CHR ''.'' (p @ CHR ''.'' # ds @ CHR '':'' # rest)
      (str_find CHR '':'' (p @ CHR ''.'' # ds @ CHR '':'' # rest)) = Some (length p)"
    using assms(1) by (intro str_rfind_before) auto
  moreover have "\<not> is_digit CHR '':''" by (simp add: is_digit_def)
  ultimately show ?thesis using atoll_digits [OF assms(2,3)] by (simp add: get_id_from_addr_def)
qed

section \<open>Properties\<close>

text \<open>
  C31. All nodes agree on the groups: there is one list of groups of three nodes such that at every node, for
  every group number, the entry that \<open>permutations\<close> computes names the two other members if the node is
  in the group and says that it is not otherwise.
\<close>

theorem groups_agree:
  assumes "node_view N x u infos"
  shows "map (group_nodes x (fst (permutations u infos))) (snd (permutations u infos)) =
    map (\<lambda>(a, b, c). if x \<in> {a, b, c} then Some {a, b, c} else None) (all_triples N)"
  unfolding permutations_view [OF assms] using group_of_tags [OF assms] by auto

theorem groups_agree_witness:
  "map (group_nodes ''b'' (fst (permutations ''b'' [''d'', ''a'', ''c'']))) (snd (permutations ''b'' [''d'', ''a'', ''c''])) =
    [Some {''a'', ''b'', ''c''}, Some {''a'', ''b'', ''d''}, None, Some {''b'', ''c'', ''d''}]"
proof -
  have "node_view [''a'', ''b'', ''c'', ''d''] ''b'' ''b'' [''d'', ''a'', ''c'']"
    by (auto simp: node_view_def)
  from groups_agree [OF this] show ?thesis by (simp add: all_triples_def upt_rec)
qed

text \<open>
  A replica entry \<open>ip:port:threads\<close> as the usage text has it: its address is \<open>ip:port\<close> and its number the
  last octet of the address, but the number of threads is taken from that octet too and not from the
  last field, so the entry's \<open>base_id\<close> is the local thread modulo the octet.
\<close>

lemma replica_entry_parsed:
  assumes "CHR '':'' \<notin> set p" "ds \<noteq> []" "\<forall>d \<in> set ds. is_digit d" "CHR '':'' \<notin> set threads"
    and "of_int (digits_val ds) \<noteq> (0 :: u64)"
  shows "server_replicas local_id [(p @ CHR ''.'' # ds @ CHR '':'' # port) @ CHR '':'' # threads] =
    Some [\<lparr>ri_session_id = 0, ri_base_id = local_id mod of_int (digits_val ds), ri_uri = p @ CHR ''.'' # ds @ CHR '':'' # port\<rparr>]"
  using get_id_octet [OF assms(1-3), of "port @ CHR '':'' # threads"]
    str_rfind_append [OF assms(4), of "p @ CHR ''.'' # ds @ CHR '':'' # port"] assms(5)
  by (simp add: get_n_threads_from_svr_info_def get_uri_from_server_info_def)

lemma replica_entry_parsed_example:
  "server_replicas 3 [(''10.0.0'' @ CHR ''.'' # ''2'' @ CHR '':'' # ''31850'') @ CHR '':'' # ''16''] =
    Some [\<lparr>ri_session_id = 0, ri_base_id = 1, ri_uri = ''10.0.0.2:31850''\<rparr>]"
  by (subst replica_entry_parsed) (simp_all add: is_digit_def digits_val_def)

text \<open>
  Without the condition on a node's own address the nodes can disagree: with four nodes of which two have
  ports where one is a prefix of the other, group number two means different nodes at different nodes,
  because a node compares its own address without the thread count that its entry at the others has.
\<close>

lemma groups_can_differ:
  "group_nodes ''h:31:1'' (fst (permutations ''h:31'' [''h:318:1'', ''i:1:1'', ''j:1:1'']))
      (snd (permutations ''h:31'' [''h:318:1'', ''i:1:1'', ''j:1:1'']) ! 2) = Some {''h:31:1'', ''i:1:1'', ''j:1:1''} \<and>
   group_nodes ''h:318:1'' (fst (permutations ''h:318'' [''h:31:1'', ''i:1:1'', ''j:1:1'']))
      (snd (permutations ''h:318'' [''h:31:1'', ''i:1:1'', ''j:1:1'']) ! 2) = Some {''h:318:1'', ''i:1:1'', ''j:1:1''}"
  by (simp add: permutations_def all_triples_def group_nodes_def group_of_def upt_rec insert_commute)

end
