(* ===== verification/Rate_Limit.thy ===== *)
theory Rate_Limit
  imports Avocado_Prelude
begin

text \<open>
  The limiter \<open>RateLimit\<close> of \<open>src/server.cpp\<close>: the threads of the benchmark acquire a slot before every
  operation and the callbacks of finished operations release it.  \<open>aquire\<close> is a loop of atomic loads
  and weak compare-and-exchanges on a shared counter; the model has one step per atomic access, so the
  threads interleave between them.

  The theory shows that in every interleaving the counter is the number of running operations and never
  exceeds the maximum, and that a thread that runs alone for three steps gets a free slot.
\<close>

section \<open>The limiter\<close>

record rate_limit =
  rl_n_aquire :: u64
  rl_n_release :: u64
  rl_request :: u64
  rl_max_request :: u64

definition rate_new :: rate_limit where
  "rate_new = \<lparr>rl_n_aquire = 0, rl_n_release = 0, rl_request = 0, rl_max_request = 1024\<rparr>"

text \<open>\<open>fetch_add(-1)\<close> on a \<open>size_t\<close> wraps.  The printing branch is constantly off.\<close>

definition release :: "rate_limit \<Rightarrow> rate_limit" where
  "release rl = rl\<lparr>rl_request := rl_request rl - 1, rl_n_release := rl_n_release rl + 1\<rparr>"

text \<open>Where a thread stands: outside of \<open>aquire\<close>, before the load, or in the inner loop with the value \<open>r\<close>.\<close>

datatype aquire_pc = Outside | At_load | At_exchange u64

definition aquire_enter :: "rate_limit \<Rightarrow> rate_limit \<times> aquire_pc" where
  "aquire_enter rl = (rl\<lparr>rl_n_aquire := rl_n_aquire rl + 1\<rparr>, At_load)"

text \<open>
  One atomic access of the loop.  \<open>spurious\<close> says that the weak exchange fails although the counter has
  the expected value; a failed exchange loads the counter.  The last component tells whether the slot
  was acquired.  When the counter is at the maximum, \<open>f\<close> runs and the loop starts over: what \<open>f\<close> does to
  the limiter (it runs the event loop, whose callbacks release slots) are steps of their own.
\<close>

fun aquire_step :: "bool \<Rightarrow> rate_limit \<Rightarrow> aquire_pc \<Rightarrow> rate_limit \<times> aquire_pc \<times> bool" where
  "aquire_step spurious rl Outside = (rl, Outside, False)"
| "aquire_step spurious rl At_load = (rl, At_exchange (rl_request rl), False)"
| "aquire_step spurious rl (At_exchange r) =
     (if r < rl_max_request rl then
        (if rl_request rl = r \<and> \<not> spurious then (rl\<lparr>rl_request := r + 1\<rparr>, Outside, True)
         else (rl, At_exchange (rl_request rl), False))
      else (rl, At_load, False))"

section \<open>Threads\<close>

text \<open>The limiter, the threads, and the operations that were let in and have not returned yet.\<close>

record limited =
  ls_rate :: rate_limit
  ls_pc :: "nat \<Rightarrow> aquire_pc"
  ls_running :: nat

definition limited_start :: "rate_limit \<Rightarrow> limited" where
  "limited_start rl = \<lparr>ls_rate = rl, ls_pc = (\<lambda>_. Outside), ls_running = 0\<rparr>"

inductive limited_step :: "limited \<Rightarrow> limited \<Rightarrow> bool" where
  enter: "ls_pc s i = Outside \<Longrightarrow> aquire_enter (ls_rate s) = (rl, pc) \<Longrightarrow>
    limited_step s (s\<lparr>ls_rate := rl, ls_pc := (ls_pc s)(i := pc)\<rparr>)"
| access: "ls_pc s i \<noteq> Outside \<Longrightarrow> aquire_step spurious (ls_rate s) (ls_pc s i) = (rl, pc, got) \<Longrightarrow>
    limited_step s (s\<lparr>ls_rate := rl, ls_pc := (ls_pc s)(i := pc),
      ls_running := ls_running s + (if got then 1 else 0)\<rparr>)"
| finish: "0 < ls_running s \<Longrightarrow>
    limited_step s (s\<lparr>ls_rate := release (ls_rate s), ls_running := ls_running s - 1\<rparr>)"

inductive_cases limited_stepE: "limited_step s t"

definition limited_inv :: "u64 \<Rightarrow> limited \<Rightarrow> bool" where
  "limited_inv m s \<longleftrightarrow> rl_max_request (ls_rate s) = m \<and>
     rl_request (ls_rate s) = of_nat (ls_running s) \<and> ls_running s \<le> unat m"

lemma limited_inv_start: "rl_request rl = 0 \<Longrightarrow> limited_inv (rl_max_request rl) (limited_start rl)"
  by (simp add: limited_inv_def limited_start_def)

lemma of_nat_running:
  assumes "n \<le> unat (m :: u64)" "of_nat n < m"
  shows "Suc n \<le> unat m"
proof -
  have "n < 2 ^ 64" using assms(1) unat_lt2p [of m] by simp
  then show ?thesis using assms(2) by (simp add: word_less_nat_alt unat_of_nat_eq)
qed

text \<open>An access that acquires a slot found the counter below the maximum and adds one.\<close>

lemma aquire_step_result:
  assumes "aquire_step sp rl pc = (rl', pc', got)"
  shows "rl_max_request rl' = rl_max_request rl \<and>
    (if got then rl_request rl < rl_max_request rl \<and> rl_request rl' = rl_request rl + 1 else rl_request rl' = rl_request rl)"
  using assms by (cases pc) (auto split: if_splits)

lemma limited_inv_step: "limited_step s t \<Longrightarrow> limited_inv m s \<Longrightarrow> limited_inv m t"
proof (induction rule: limited_step.induct)
  case (enter s i rl pc)
  then show ?case by (auto simp: limited_inv_def aquire_enter_def)
next
  case (access s i sp rl pc got)
  then show ?case
    using aquire_step_result [OF access(2)] of_nat_running [of "ls_running s" m]
    by (auto simp: limited_inv_def split: if_splits)
next
  case (finish s)
  then show ?case by (auto simp: limited_inv_def release_def of_nat_diff)
qed

lemma limited_inv_run: "limited_step\<^sup>*\<^sup>* s t \<Longrightarrow> limited_inv m s \<Longrightarrow> limited_inv m t"
  by (induction rule: rtranclp_induct) (auto intro: limited_inv_step)

section \<open>Progress\<close>

text \<open>A thread that makes \<open>n\<close> accesses alone, without spurious failures.\<close>

fun aquire_alone :: "nat \<Rightarrow> rate_limit \<Rightarrow> aquire_pc \<Rightarrow> rate_limit \<times> aquire_pc \<times> bool" where
  "aquire_alone 0 rl pc = (rl, pc, False)"
| "aquire_alone (Suc n) rl pc =
     (case aquire_step False rl pc of (rl', pc', got) \<Rightarrow> if got then (rl', pc', True) else aquire_alone n rl' pc')"

lemma aquire_alone_gets:
  assumes "rl_request rl < rl_max_request rl" "pc \<noteq> Outside"
  shows "aquire_alone 3 rl pc = (rl\<lparr>rl_request := rl_request rl + 1\<rparr>, Outside, True)"
  using assms by (cases pc) (auto simp: numeral_3_eq_3)

lemma limited_reach:
  assumes "rl_request rl = 0" "limited_step\<^sup>*\<^sup>* (limited_start rl) s"
  shows "limited_inv (rl_max_request rl) s" "unat (rl_request (ls_rate s)) = ls_running s"
proof -
  show inv: "limited_inv (rl_max_request rl) s"
    by (rule limited_inv_run [OF assms(2) limited_inv_start [OF assms(1)]])
  then have "ls_running s < 2 ^ 64" using unat_lt2p [of "rl_max_request rl"] by (simp add: limited_inv_def)
  then show "unat (rl_request (ls_rate s)) = ls_running s"
    using inv by (simp add: limited_inv_def unat_of_nat_eq)
qed

section \<open>Properties\<close>

text \<open>
  C32. The limiter holds under every interleaving of its threads: starting from an unused limiter, the
  shared counter always equals the number of running operations, and at most \<open>max_request\<close> operations run.
\<close>

theorem rate_limit_holds:
  assumes "rl_request rl = 0" "limited_step\<^sup>*\<^sup>* (limited_start rl) s"
  shows "unat (rl_request (ls_rate s)) = ls_running s \<and> ls_running s \<le> unat (rl_max_request rl)"
  using limited_reach [OF assms] by (simp add: limited_inv_def)

text \<open>One thread enters, loads and exchanges: a run of four states.\<close>

definition one_running :: limited where
  "one_running = \<lparr>ls_rate = rate_new\<lparr>rl_n_aquire := 1, rl_request := 1\<rparr>, ls_pc = (\<lambda>_. Outside), ls_running = 1\<rparr>"

lemma one_running_reached: "limited_step\<^sup>*\<^sup>* (limited_start rate_new) one_running"
proof -
  let ?entered = "\<lparr>ls_rate = rate_new\<lparr>rl_n_aquire := 1\<rparr>, ls_pc = (\<lambda>_. Outside)(7 := At_load), ls_running = 0\<rparr>"
  let ?loaded = "?entered\<lparr>ls_pc := (\<lambda>_. Outside)(7 := At_exchange 0)\<rparr>"
  have "limited_step (limited_start rate_new) ?entered"
    using limited_step.enter [of "limited_start rate_new" 7]
    by (simp add: limited_start_def aquire_enter_def rate_new_def)
  moreover have "limited_step ?entered ?loaded"
    using limited_step.access [of ?entered 7 False] by (auto simp: rate_new_def)
  moreover have "limited_step ?loaded one_running"
    using limited_step.access [of ?loaded 7 False] by (auto simp: rate_new_def one_running_def fun_upd_idem)
  ultimately show ?thesis by (meson r_into_rtranclp rtranclp_trans)
qed

theorem rate_limit_holds_witness:
  "limited_step\<^sup>*\<^sup>* (limited_start rate_new) one_running \<and> unat (rl_request (ls_rate one_running)) = ls_running one_running \<and>
    ls_running one_running \<le> 1024"
  using rate_limit_holds [OF _ one_running_reached] one_running_reached by (simp add: rate_new_def)

text \<open>
  C33. Waiting threads get in: in every reachable state with fewer than \<open>max_request\<close> running operations, a
  thread that is inside \<open>aquire\<close>, wherever it stands and whatever stale value it holds, has its slot after at
  most three undisturbed accesses.
\<close>

theorem rate_limit_progress:
  assumes "rl_request rl = 0" "limited_step\<^sup>*\<^sup>* (limited_start rl) s"
    and "ls_running s < unat (rl_max_request rl)" "ls_pc s i \<noteq> Outside"
  shows "\<exists>rl'. aquire_alone 3 (ls_rate s) (ls_pc s i) = (rl', Outside, True) \<and> rl_request rl' = of_nat (Suc (ls_running s))"
proof -
  note inv = limited_reach [OF assms(1,2)]
  have "rl_request (ls_rate s) < rl_max_request (ls_rate s)"
    using assms(3) inv by (simp only: word_less_nat_alt limited_inv_def)
  then show ?thesis
    using aquire_alone_gets [of "ls_rate s" "ls_pc s i"] assms(4) inv(1) by (simp add: limited_inv_def add.commute)
qed

theorem rate_limit_progress_witness:
  "\<exists>s. limited_step\<^sup>*\<^sup>* (limited_start rate_new) s \<and> ls_running s = 1 \<and>
     (\<exists>rl'. aquire_alone 3 (ls_rate s) (ls_pc s 7) = (rl', Outside, True) \<and> rl_request rl' = 2)"
proof -
  let ?s = "one_running\<lparr>ls_rate := fst (aquire_enter (ls_rate one_running)), ls_pc := (ls_pc one_running)(7 := At_load)\<rparr>"
  have "limited_step one_running ?s"
    by (rule limited_step.enter [of one_running 7]) (simp_all add: one_running_def aquire_enter_def)
  then have run: "limited_step\<^sup>*\<^sup>* (limited_start rate_new) ?s"
    using one_running_reached by (rule rtranclp.rtrancl_into_rtrancl [rotated])
  have "ls_pc ?s 7 = At_load" "ls_running ?s = 1" by (simp_all add: one_running_def)
  moreover from this have "\<exists>rl'. aquire_alone 3 (ls_rate ?s) (ls_pc ?s 7) = (rl', Outside, True) \<and> rl_request rl' = of_nat (Suc (ls_running ?s))"
    using rate_limit_progress [OF _ run, of 7] by (simp add: rate_new_def)
  ultimately show ?thesis using run by (intro exI [of _ ?s]) simp
qed

end
