(* ===== verification/Traces.thy ===== *)
theory Traces
  imports Avocado_Prelude
begin

text \<open>
  The workload generator \<open>src/generate_traces.cpp\<close>: commands with uniform or Zipf-distributed keys.
  Outside the sources and hence arguments: the values of \<open>rand\<close> (a function of how often it was called),
  CityHash, and the arithmetic on \<open>double\<close> (the record \<open>double_ops\<close>; only its comparison is an order).
  The memory it maps is in \<open>Helpers\<close>.

  The theory shows that the binary search for a key ends and returns the key whose interval contains the
  random number, for every number in the range of the table; for a number outside, such as zero, the
  result variable stays uninitialised.
\<close>

section \<open>Commands\<close>

datatype trace_op = Trace_Put | Trace_Get

record trace_cmd =
  tc_op :: trace_op
  tc_key_hash :: bytes

abbreviation (input) trace_key_size :: nat where "trace_key_size \<equiv> 8"

text \<open>The position in the sequence of random numbers is threaded through.\<close>

type_synonym rng = "nat \<Rightarrow> nat"

definition trace_cmd_init :: "(bytes \<Rightarrow> bytes) \<Rightarrow> rng \<Rightarrow> nat \<Rightarrow> u32 \<Rightarrow> int \<Rightarrow> (trace_cmd \<times> nat) option" where
  "trace_cmd_init city rand i key_id read_permille = do {
     let op = (if int (rand i mod 1000) < read_permille then Trace_Get else Trace_Put);
     key_hash \<leftarrow> mem_read (city (le_enc 4 (unat key_id))) 0 trace_key_size;
     Some (\<lparr>tc_op = op, tc_key_hash = key_hash\<rparr>, Suc i)
   }"

section \<open>Uniform keys\<close>

fun manufacture_loop :: "(bytes \<Rightarrow> bytes) \<Rightarrow> rng \<Rightarrow> nat \<Rightarrow> nat \<Rightarrow> nat \<Rightarrow> int \<Rightarrow> trace_cmd list option" where
  "manufacture_loop city rand i 0 N_keys read_permille = Some []"
| "manufacture_loop city rand i (Suc n) N_keys read_permille = do {
     _ \<leftarrow> assert_that (N_keys \<noteq> 0);
     (c, i) \<leftarrow> trace_cmd_init city rand (Suc i) (of_nat (rand i mod N_keys)) read_permille;
     cs \<leftarrow> manufacture_loop city rand i n N_keys read_permille;
     Some (c # cs)
   }"

definition trace_init :: "(bytes \<Rightarrow> bytes) \<Rightarrow> (nat \<Rightarrow> rng) \<Rightarrow> nat \<Rightarrow> nat \<Rightarrow> int \<Rightarrow> nat \<Rightarrow> trace_cmd list option" where
  "trace_init city srand Trace_size N_keys read_permille rand_start =
     manufacture_loop city (srand rand_start) 0 Trace_size N_keys read_permille"

section \<open>Zipf-distributed keys\<close>

record 'd double_ops =
  d_zero :: 'd
  d_one :: 'd
  d_add :: "'d \<Rightarrow> 'd \<Rightarrow> 'd"
  d_div :: "'d \<Rightarrow> 'd \<Rightarrow> 'd"
  d_pow :: "nat \<Rightarrow> 'd \<Rightarrow> 'd"
  d_of_rand :: "nat \<Rightarrow> 'd"

text \<open>\<open>c\<close>: the sum of \<open>1 / i ^ alpha\<close> for \<open>i\<close> from one below \<open>n_keys\<close>, inverted.\<close>

definition zip_norm :: "'d double_ops \<Rightarrow> nat \<Rightarrow> 'd \<Rightarrow> 'd" where
  "zip_norm d n_keys alpha =
     d_div d (d_one d) (foldl (\<lambda>c i. d_add d c (d_div d (d_one d) (d_pow d i alpha))) (d_zero d) [1..<n_keys])"

text \<open>
  The table has \<open>n_keys + 1\<close> entries, zero after the \<open>mmap\<close>: the loops write the entries below \<open>n_keys\<close>,
  so the last one keeps zero.
\<close>

definition sum_probs :: "'d double_ops \<Rightarrow> nat \<Rightarrow> 'd \<Rightarrow> 'd list" where
  "sum_probs d n_keys alpha =
     (let c = zip_norm d n_keys alpha
      in foldl (\<lambda>t i. t[i := d_add d (t ! (i - 1)) (d_div d c (d_pow d i alpha))]) (replicate (n_keys + 1) (d_zero d)) [1..<n_keys])"

text \<open>
  The binary search, a \<open>do\<close>-\<open>while\<close> loop.  The outer \<open>None\<close> is a read in front of the table, the inner one
  the end of the loop without a value.
\<close>

function zip_search :: "'d :: linorder list \<Rightarrow> 'd \<Rightarrow> nat \<Rightarrow> nat \<Rightarrow> nat option option" where
  "zip_search tab z low high =
     (let mid = (low + high) div 2
      in if length tab \<le> mid then None
         else if z \<le> tab ! mid then
           (if mid = 0 then None
            else if tab ! (mid - 1) < z then Some (Some mid)
            else if low \<le> mid - 1 then zip_search tab z low (mid - 1) else Some None)
         else if mid + 1 \<le> high then zip_search tab z (mid + 1) high else Some None)"
  by auto
termination
  by (relation "measure (\<lambda>(tab, z, low, high). Suc high - low)") auto

declare zip_search.simps [simp del]

fun zipf_loop ::
  "('d :: linorder) double_ops \<Rightarrow> 'd list \<Rightarrow> (bytes \<Rightarrow> bytes) \<Rightarrow> rng \<Rightarrow> (nat \<Rightarrow> nat) \<Rightarrow> nat \<Rightarrow> nat \<Rightarrow> nat \<Rightarrow> int \<Rightarrow> trace_cmd list option" where
  "zipf_loop d tab city rand junk i 0 n_keys read_permille = Some []"
| "zipf_loop d tab city rand junk i (Suc n) n_keys read_permille = do {
     r \<leftarrow> zip_search tab (d_of_rand d (rand i)) 1 n_keys;
     let zip_value = (case r of Some v \<Rightarrow> v | None \<Rightarrow> junk i);
     (c, i) \<leftarrow> trace_cmd_init city rand (Suc i) (of_nat zip_value) read_permille;
     cs \<leftarrow> zipf_loop d tab city rand junk i n n_keys read_permille;
     Some (c # cs)
   }"

definition trace_init_zipfian ::
  "('d :: linorder) double_ops \<Rightarrow> (bytes \<Rightarrow> bytes) \<Rightarrow> (nat \<Rightarrow> rng) \<Rightarrow> (nat \<Rightarrow> nat) \<Rightarrow> nat \<Rightarrow> nat \<Rightarrow> int \<Rightarrow> nat \<Rightarrow> 'd \<Rightarrow> trace_cmd list option" where
  "trace_init_zipfian d city srand junk trace_size n_keys read_permille rand_start alpha =
     zipf_loop d (sum_probs d n_keys alpha) city (srand rand_start) junk 0 trace_size n_keys read_permille"

section \<open>The search\<close>

text \<open>The table up to the last written entry is ascending; the key of \<open>z\<close> is where it passes \<open>z\<close>.\<close>

definition ascending :: "nat \<Rightarrow> 'd :: linorder list \<Rightarrow> bool" where
  "ascending n tab \<longleftrightarrow> length tab = Suc n \<and> (\<forall>i j. i \<le> j \<and> j < n \<longrightarrow> tab ! i \<le> tab ! j)"

definition zipf_key :: "'d :: linorder list \<Rightarrow> 'd \<Rightarrow> nat \<Rightarrow> bool" where
  "zipf_key tab z k \<longleftrightarrow> 0 < k \<and> tab ! (k - 1) < z \<and> z \<le> tab ! k"

lemma zip_search_finds:
  assumes asc: "ascending n tab" and k: "zipf_key tab z k" "k < n" and "low \<le> k" "k \<le> high" "0 < low" "high \<le> n"
  shows "zip_search tab z low high = Some (Some k)"
  using assms(4-7)
proof (induction "Suc high - low" arbitrary: low high rule: less_induct)
  case less
  let ?m = "(low + high) div 2"
  have m: "low \<le> ?m" "?m \<le> high" "?m < n" using less.prems k(2) by linarith+
  have len: "\<not> length tab \<le> ?m" using m(3) asc by (simp add: ascending_def)
  have mono: "tab ! i \<le> tab ! j" if "i \<le> j" "j < n" for i j using asc that by (simp add: ascending_def)
  have z: "0 < k" "tab ! (k - 1) < z" "z \<le> tab ! k" using k(1) by (simp_all add: zipf_key_def)
  consider "k < ?m" | "k = ?m" | "?m < k" by linarith
  then show ?case
  proof cases
    case 1
    then have le: "k \<le> ?m - 1" "?m - 1 < n" "k \<le> ?m" using m(3) by linarith+
    have "z \<le> tab ! ?m" "\<not> tab ! (?m - 1) < z"
      using order_trans [OF z(3) mono [OF le(3) m(3)]] order_trans [OF z(3) mono [OF le(1,2)]] by (simp_all only: not_less)
    moreover have "zip_search tab z low (?m - 1) = Some (Some k)"
      using 1 less.prems m by (intro less.hyps) linarith+
    moreover have "low \<le> ?m - 1" using le(1) less.prems(1) by linarith
    ultimately show ?thesis using 1 len by (subst zip_search.simps) (simp add: Let_def)
  next
    case 2
    then show ?thesis using z len by (subst zip_search.simps) (simp add: Let_def)
  next
    case 3
    then have le: "?m \<le> k - 1" "k - 1 < n" "?m + 1 \<le> high" using k(2) less.prems(2) by linarith+
    have "\<not> z \<le> tab ! ?m" using order_le_less_trans [OF mono [OF le(1,2)] z(2)] by (simp only: not_le)
    moreover have "zip_search tab z (?m + 1) high = Some (Some k)"
      using 3 less.prems m by (intro less.hyps) linarith+
    ultimately show ?thesis using 3 len le(3) by (subst zip_search.simps) (simp add: Let_def)
  qed
qed

text \<open>A number at or below the first entry is in no interval.\<close>

lemma zip_search_low:
  assumes asc: "ascending n tab" and z: "z \<le> tab ! 0" and "0 < low" "low \<le> high" "high \<le> n" "low < n"
  shows "zip_search tab z low high = Some None"
  using assms(3-6)
proof (induction "Suc high - low" arbitrary: low high rule: less_induct)
  case less
  let ?m = "(low + high) div 2"
  have m: "low \<le> ?m" "?m \<le> high" "?m < n" using less.prems by linarith+
  have len: "\<not> length tab \<le> ?m" using m(3) asc by (simp add: ascending_def)
  have up: "z \<le> tab ! i" if "i < n" for i using z asc that unfolding ascending_def by (meson le0 order_trans)
  then have "z \<le> tab ! ?m" "\<not> tab ! (?m - 1) < z" using m(3) by (simp_all add: leD)
  moreover have "low \<le> ?m - 1 \<Longrightarrow> zip_search tab z low (?m - 1) = Some None"
    using less.prems m by (intro less.hyps) linarith+
  moreover have "?m \<noteq> 0" using m(1) less.prems(1) by linarith
  ultimately show ?case using len by (subst zip_search.simps) (simp add: Let_def)
qed

lemma zipf_key_exists:
  assumes "tab ! 0 < z" "z \<le> tab ! (n - 1)"
  shows "\<exists>k. zipf_key tab z k \<and> k < n"
proof -
  let ?k = "LEAST k. z \<le> tab ! k"
  have k: "z \<le> tab ! ?k" "?k \<le> n - 1" using assms(2) by (auto intro: LeastI Least_le)
  have "?k \<noteq> 0" using k(1) assms(1) by (metis not_less)
  moreover have "tab ! (?k - 1) < z"
    using not_less_Least [of "?k - 1" "\<lambda>k. z \<le> tab ! k"] calculation by simp
  ultimately show ?thesis
    using k assms by (intro exI [of _ ?k]) (auto simp: zipf_key_def intro: le_neq_trans)
qed

section \<open>Properties\<close>

text \<open>
  C35. Drawing a key: on an ascending table the binary search ends, reads inside the table, and returns the
  key whose interval contains the random number, for every number above the first and up to the last
  written entry; for a number that is not above the first entry (\<open>rand\<close> returning zero) it ends without
  setting the key.
\<close>

theorem zipf_search_result:
  assumes "ascending n tab" "tab ! 0 < z" "z \<le> tab ! (n - 1)" "z0 \<le> tab ! 0"
  shows "(\<exists>k. zip_search tab z 1 n = Some (Some k) \<and> 0 < k \<and> k < n \<and> tab ! (k - 1) < z \<and> z \<le> tab ! k) \<and>
    zip_search tab z0 1 n = Some None"
proof -
  obtain k where k: "zipf_key tab z k" "k < n" using zipf_key_exists [OF assms(2,3)] by blast
  then have n: "0 < k" "1 < n" by (auto simp: zipf_key_def)
  have "zip_search tab z 1 n = Some (Some k)" using k n by (intro zip_search_finds [OF assms(1)]) auto
  moreover have "zip_search tab z0 1 n = Some None" using n by (intro zip_search_low [OF assms(1,4)]) auto
  ultimately show ?thesis using k by (auto simp: zipf_key_def)
qed

lemma ascendingI: "length tab = Suc n \<Longrightarrow> sorted (take n tab) \<Longrightarrow> ascending n tab"
  unfolding ascending_def by (auto simp: sorted_iff_nth_mono)

lemma demo_ascending: "ascending 4 [0, 50, 80, 100, 0 :: nat]"
  by (rule ascendingI) (simp_all add: numeral_eq_Suc)

theorem zipf_search_result_witness:
  "(\<exists>k. zip_search [0, 50, 80, 100, 0 :: nat] 70 1 4 = Some (Some k) \<and> 0 < k \<and> k < 4) \<and>
    zip_search [0, 50, 80, 100, 0 :: nat] 0 1 4 = Some None"
  using zipf_search_result [OF demo_ascending, of 70 0] by auto

end
