(* ===== verification/Server.thy ===== *)
theory Server
  imports Replica_Groups Rate_Limit Traces Protocol_Fanout
begin

text \<open>
  The server program \<open>src/server.cpp\<close> in its benchmark configuration: the arguments, the split of the trace
  over the threads, the commands a thread issues to the protocol, and the exchange of the \<open>DONE\<close> command at
  the end.  docopt's values are the argument \<open>doc\<close>; progress messages are left out.

  The theory shows how the trace is split, that every command of a thread is handed to the protocol
  without failing, and that the \<open>DONE\<close> of a node is counted and acknowledged by its peers.
\<close>

section \<open>Arguments\<close>

record doc =
  doc_long :: "string \<Rightarrow> int"
  doc_string :: "string \<Rightarrow> string"
  doc_list :: "string \<Rightarrow> string list"
  doc_given :: "string \<Rightarrow> bool"

record args =
  ar_n_thread :: u64
  ar_uri :: string
  ar_replica_info :: "string list"
  ar_port :: u64
  ar_n_distinct_keys :: u64
  ar_host_memory :: u64
  ar_max_value_size :: u64
  ar_key_size :: u64
  ar_value_size :: u64
  ar_n_cmds :: u64
  ar_n_keys :: u64
  ar_permille_reads :: u64
  ar_output :: string

text \<open>\<open>kv_sizeof\<close> is \<open>sizeof(ABD::KV_store)\<close>.  The estimate of the memory is computed in 64 bits.\<close>

definition args_new :: "u64 \<Rightarrow> doc \<Rightarrow> args" where
  "args_new kv_sizeof d =
     (let n_distinct_keys = of_int (doc_long d ''--number-of-distinct-keys'');
          host_memory = of_int (doc_long d ''--host-memory'');
          max_value_size = of_int (doc_long d ''--max-value-size'');
          host_memory = (if host_memory = 0 then n_distinct_keys * (max_value_size + kv_sizeof) * 2 else host_memory)
      in \<lparr>ar_n_thread = of_int (doc_long d ''-n''), ar_uri = doc_string d ''-u'', ar_replica_info = doc_list d ''-a'',
          ar_port = of_int (doc_long d ''-p''), ar_n_distinct_keys = n_distinct_keys, ar_host_memory = host_memory,
          ar_max_value_size = max_value_size, ar_key_size = 8, ar_value_size = of_int (doc_long d ''--value_size''),
          ar_n_cmds = of_int (doc_long d ''--n_cmds''), ar_n_keys = of_int (doc_long d ''--n_keys''),
          ar_permille_reads = of_int (doc_long d ''--permille_reads''),
          ar_output = (if doc_given d ''--output'' then doc_string d ''--output'' else [])\<rparr>)"

section \<open>Splitting the trace\<close>

text \<open>
  The commands \<open>begin\<close> to \<open>end\<close> of each thread as positions in the trace; a division by zero has no result.
\<close>

definition create_threads :: "args \<Rightarrow> nat \<Rightarrow> (nat \<times> nat) list option" where
  "create_threads a trace_size = do {
     _ \<leftarrow> assert_that (ar_n_thread a \<noteq> 0);
     let step_size = unat (ar_n_cmds a div ar_n_thread a);
     Some (map (\<lambda>i. (i * step_size, if i * step_size + step_size > trace_size then trace_size else i * step_size + step_size))
       [0..<unat (ar_n_thread a)])
   }"

section \<open>The callbacks\<close>

text \<open>The counters of finished operations; every callback releases the limiter.\<close>

record bench_counts =
  bc_put_ret :: u64
  bc_get_ret :: u64
  bc_skipped :: u64
  bc_rate :: rate_limit

definition put_ret_cb :: "bench_counts \<Rightarrow> bench_counts" where
  "put_ret_cb s = s\<lparr>bc_put_ret := bc_put_ret s + 1, bc_rate := release (bc_rate s)\<rparr>"

definition get_ret_cb :: "bench_counts \<Rightarrow> bench_counts" where
  "get_ret_cb s = s\<lparr>bc_get_ret := bc_get_ret s + 1, bc_rate := release (bc_rate s)\<rparr>"

definition skip_ret_cb :: "bench_counts \<Rightarrow> bench_counts" where
  "skip_ret_cb s = s\<lparr>bc_skipped := bc_skipped s + 1, bc_rate := release (bc_rate s)\<rparr>"

text \<open>\<open>sm_handler\<close>: a session that connected without an error is counted.\<close>

definition sm_handler :: "bool \<Rightarrow> bool \<Rightarrow> u64 \<Rightarrow> u64" where
  "sm_handler kConnected kNoError connected = (if kConnected \<and> kNoError then connected + 1 else connected)"

section \<open>The end of a run\<close>

text \<open>\<open>strncmp\<close> compared with zero; reading past the end of a buffer has no result.\<close>

fun strncmp_eq :: "bytes \<Rightarrow> bytes \<Rightarrow> nat \<Rightarrow> bool option" where
  "strncmp_eq xs ys 0 = Some True"
| "strncmp_eq (x # xs) (y # ys) (Suc n) =
     (if x \<noteq> y then Some False else if x = 0 then Some True else strncmp_eq xs ys n)"
| "strncmp_eq _ _ (Suc n) = None"

definition DONE :: bytes where
  "DONE = [68, 79, 78, 69]"

definition ERR :: bytes where
  "ERR = [69, 82, 82, 0]"

definition bench_cmd :: "nat \<Rightarrow> msg \<Rightarrow> (nat \<times> msg) option" where
  "bench_cmd other_finished m = do {
     key \<leftarrow> get_key m;
     eq \<leftarrow> strncmp_eq (DONE @ [0]) (deref (span_buf key)) (unat (span_size key));
     if eq then do {
       b \<leftarrow> builder_new (4 + 1);
       b \<leftarrow> add_key 1 b ACK 4;
       Some (Suc other_finished, builder_finish b)
     }
     else do {
       b \<leftarrow> builder_new (4 + 1);
       b \<leftarrow> add_key 1 b ERR 4;
       Some (other_finished, builder_finish b)
     }
   }"

text \<open>\<open>cmd_ret\<close>: the number of answers so far, and whether the answer was an acknowledgement.\<close>

definition bench_cmd_ret :: "nat \<Rightarrow> msg \<Rightarrow> (nat \<times> bool) option" where
  "bench_cmd_ret n_resp m = do {
     key \<leftarrow> get_key m;
     eq \<leftarrow> strncmp_eq ACK (deref (span_buf key)) (unat (span_size key));
     Some (n_resp, eq)
   }"

definition bench_waits :: "nat \<Rightarrow> nat \<Rightarrow> nat \<Rightarrow> bool" where
  "bench_waits others other_finished others_ack \<longleftrightarrow> other_finished < others \<or> others_ack < others"

section \<open>Issuing commands\<close>

text \<open>One turn of the loop over the trace: the message with the key of the command, and the operation.\<close>

definition issue_cmd :: "('s, 'p) penv \<Rightarrow> event \<Rightarrow> args \<Rightarrow> 's abd \<Rightarrow> trace_cmd \<Rightarrow> 's abd option" where
  "issue_cmd env ev a st t = do {
     m \<leftarrow> get_msg (ar_key_size a) (ar_value_size a);
     k \<leftarrow> mem_read (tc_key_hash t) 0 trace_key_size;
     m \<leftarrow> mem_write m header_size k;
     (case tc_op t of
        Trace_Put \<Rightarrow> benchmark_put env ev st m
      | Trace_Get \<Rightarrow> benchmark_get env ev st m)
   }"

text \<open>
  The loop over a thread's commands.  Between two commands the limiter and the event loop run: \<open>between\<close> is
  what they make of the state.
\<close>

fun issue_all ::
  "('s, 'p) penv \<Rightarrow> (nat \<Rightarrow> event) \<Rightarrow> (nat \<Rightarrow> 's abd \<Rightarrow> 's abd) \<Rightarrow> args \<Rightarrow> nat \<Rightarrow> 's abd \<Rightarrow> trace_cmd list \<Rightarrow> 's abd option" where
  "issue_all env evs between a i st [] = Some st"
| "issue_all env evs between a i st (t # ts) = do {
     st \<leftarrow> issue_cmd env (evs i) a (between i st) t;
     issue_all env evs between a (Suc i) st ts
   }"

section \<open>The split\<close>

abbreviation segment :: "'a list \<Rightarrow> nat \<times> nat \<Rightarrow> 'a list" where
  "segment xs seg \<equiv> take (snd seg - fst seg) (drop (fst seg) xs)"

lemma concat_steps: "concat (map (\<lambda>i. take d (drop (i * d) xs)) [0..<n]) = take (n * d) xs"
proof (induction n)
  case (Suc n)
  then show ?case by (simp add: add.commute [of d] take_add)
qed simp

lemma create_threads_segments:
  assumes "ar_n_thread a \<noteq> 0" "unat (ar_n_cmds a) = n"
  shows "create_threads a n = Some (map (\<lambda>i. (i * (n div unat (ar_n_thread a)), Suc i * (n div unat (ar_n_thread a))))
    [0..<unat (ar_n_thread a)])"
proof -
  let ?t = "unat (ar_n_thread a)" and ?d = "n div unat (ar_n_thread a)"
  have d: "unat (ar_n_cmds a div ar_n_thread a) = ?d" using assms(2) by (simp add: unat_div)
  have nl: "\<not> n < i * ?d + ?d" if "i < ?t" for i
  proof -
    have "Suc i * ?d \<le> ?t * ?d" using that by (intro mult_le_mono1) simp
    also have "\<dots> \<le> n" by (simp add: mult.commute)
    finally show ?thesis by simp
  qed
  show ?thesis using assms(1) d nl by (simp add: create_threads_def Let_def)
qed

section \<open>A command\<close>

lemma get_msg_encoded:
  assumes "k + unat vs + 16 < 2 ^ 64"
  shows "get_msg (of_nat k) vs = Some (encoded (replicate k 0) (replicate (unat vs) 0) [])"
proof -
  have "unat (of_nat k + vs + 16) = k + unat vs + 16" "unat (of_nat k + vs) = k + unat vs" "unat (of_nat k :: u64) = k"
    using assms by (simp_all add: unat_word_ariths unat_of_nat_eq)
  moreover have "replicate (k + unat vs + 16) (0 :: u8) = replicate 8 0 @ replicate 8 0 @ replicate k 0 @ replicate (unat vs) 0"
    by (simp add: replicate_add [symmetric])
  ultimately show ?thesis
    by (simp add: get_msg_def msg_new_def write_u64_def encoded_def mem_write_prefix mem_write_append)
qed

lemma issue_cmd_msg:
  assumes "ar_key_size a = 8" "unat (ar_value_size a) + 24 < 2 ^ 64" "length (tc_key_hash t) = 8"
  shows "issue_cmd env ev a st t =
    (case tc_op t of
       Trace_Put \<Rightarrow> benchmark_put env ev st (encoded (tc_key_hash t) (replicate (unat (ar_value_size a)) 0) [])
     | Trace_Get \<Rightarrow> benchmark_get env ev st (encoded (tc_key_hash t) (replicate (unat (ar_value_size a)) 0) []))"
proof -
  let ?v = "replicate (unat (ar_value_size a)) (0 :: u8)"
  have "get_msg 8 (ar_value_size a) = Some (encoded (replicate 8 0) ?v [])"
    using get_msg_encoded [of 8 "ar_value_size a"] assms(2) by simp
  moreover have "mem_write (encoded (replicate 8 0) ?v []) 16 (tc_key_hash t) = Some (encoded (tc_key_hash t) ?v [])"
    using assms(3) mem_write_append [of "le_enc 8 8 @ le_enc 8 (8 + unat (ar_value_size a))" 16 "replicate 8 0" "tc_key_hash t" ?v]
    by (simp add: encoded_def)
  ultimately show ?thesis using assms by (simp add: issue_cmd_def mem_read_def)
qed

text \<open>A command for a key of another group is taken off again.\<close>

lemma benchmark_skip:
  assumes ok: "penv_ok env cap" and key: "k \<noteq> []" "length v \<le> cap" "length k + length v + 44 < 2 ^ 64"
    and reps: "ab_replicas st \<noteq> []" "key_group st k = []"
  shows "\<exists>n. benchmark_put env ev st (encoded k v []) = Some (emit Skip_ret (decrement_traces (with_ctx (increment_traces st) None n)))"
    and "\<exists>n. benchmark_get env ev st (encoded k v []) = Some (emit Skip_ret (decrement_traces (with_ctx (increment_traces st) None n)))"
proof -
  let ?st = "increment_traces st"
  have k: "length k < 2 ^ 64" "length ([] :: bytes) \<le> cap" using key(3) by simp_all
  have skip: "abd_send_msg env ev (with_ctx ?st None n) cid \<lparr>span_size = size_of k, span_buf = Some (k @ v)\<rparr> rt cont m =
      Some (emit Skip_ret (decrement_traces (with_ctx ?st None n)))" for n cid rt cont m
    using abd_send_msg_skip [OF key(1) k(1), of "with_ctx ?st None n"] reps by simp
  have build: "Option.bind (builder_new (size_of k)) (\<lambda>b. add_key 1 b (k @ v) (size_of k)) = Some (encoded k [] [])"
    using mb.build_key [of k] key by (simp add: add_key_def unat_size_of mem_simps)
  obtain n where n: "create_ctx_node env (?st\<lparr>ab_ctxs := ab_ctxs ?st @ [rc_create (ab_max_package_size ?st) None]\<rparr>)
       (length (ab_ctxs ?st)) \<lparr>span_size = size_of k, span_buf = Some (k @ v)\<rparr>
       (if v = [] then \<lparr>span_size = 0, span_buf = None\<rparr> else \<lparr>span_size = size_of v, span_buf = Some (v @ [])\<rparr>) =
     Some (with_ctx ?st None n)"
    by (rule create_ctx_node_new [OF ok key(2) k(1) refl, where st = ?st and h = None and krest = v and vrest = "[]"]) (rule that)
  have "benchmark_put env ev st (encoded k v []) = Some (emit Skip_ret (decrement_traces (with_ctx ?st None n)))"
    using n build key skip
    by (auto simp: benchmark_put_def mem_simps deref_def builder_finish_def create_rep_context_def Let_def
        bind_eq_Some_conv split: if_splits)
  then show "\<exists>n. benchmark_put env ev st (encoded k v []) = Some (emit Skip_ret (decrement_traces (with_ctx ?st None n)))" by blast
  obtain n where "create_ctx_node env (?st\<lparr>ab_ctxs := ab_ctxs ?st @ [rc_create (ab_max_package_size ?st) None]\<rparr>)
       (length (ab_ctxs ?st)) \<lparr>span_size = size_of k, span_buf = Some (k @ v)\<rparr>
       (if ([] :: bytes) = [] then \<lparr>span_size = 0, span_buf = None\<rparr>
        else \<lparr>span_size = size_of ([] :: bytes), span_buf = Some ([] @ [])\<rparr>) =
     Some (with_ctx ?st None n)"
    by (rule create_ctx_node_new [OF ok k(2,1) refl, where st = ?st and h = None and krest = v and vrest = "[]"]) (rule that)
  then have "benchmark_get env ev st (encoded k v []) = Some (emit Skip_ret (decrement_traces (with_ctx ?st None n)))"
    using key skip by (simp add: benchmark_get_def mem_simps create_rep_context_def Let_def)
  then show "\<exists>n. benchmark_get env ev st (encoded k v []) = Some (emit Skip_ret (decrement_traces (with_ctx ?st None n)))" by blast
qed

text \<open>What one command does: nothing but a skip for a foreign key, else the first phase of the operation.\<close>

definition issued :: "('s, 'p) penv \<Rightarrow> 's abd \<Rightarrow> trace_op \<Rightarrow> bytes \<Rightarrow> bytes \<Rightarrow> 's abd \<Rightarrow> bool" where
  "issued env st op k v st' \<longleftrightarrow> abd_wf env st' \<and> ab_replicas st' = ab_replicas st \<and> ab_replicas_infos st' = ab_replicas_infos st \<and>
     (if key_group st k = []
      then ab_out st' = ab_out st @ [Skip_ret] \<and> ab_current_traces st' = ab_current_traces st
      else ab_current_traces st' = ab_current_traces st + 1 \<and>
        (\<exists>n c. c = (rc_create (ab_max_package_size st) None)\<lparr>rc_data := n\<rparr> \<and>
          (case op of
             Trace_Put \<Rightarrow> holds env c k v lamport_min \<and> sends env (with_ctx (increment_traces st) None n) c (length (ab_ctxs st))
               (key_group st k) GetTimeStamp GetTime k [] st'
           | Trace_Get \<Rightarrow> holds env c k [] lamport_min \<and> sends env (with_ctx (increment_traces st) None n) c (length (ab_ctxs st))
               (key_group st k) GetValueTimeStamp RetValue k v st')))"

lemma issued_skip:
  assumes "abd_wf env st" "key_group st k = []"
  shows "issued env st op k v (emit Skip_ret (decrement_traces (with_ctx (increment_traces st) None n)))"
  using assms by (simp add: issued_def emit_def increment_traces_def decrement_traces_def abd_wf_def with_ctx_def kv_wf_def)

lemma sends_traces: "sends env (with_ctx (increment_traces st) h n) c cid reps rt cont k v st' \<Longrightarrow>
  ab_current_traces st' = ab_current_traces st + 1 \<and> ab_replicas_infos st' = ab_replicas_infos st"
  by (auto simp: sends_def set_ctx_def increment_traces_def with_ctx_def)

lemma issue_cmd_issued:
  assumes ok: "penv_ok env cap" "abd_wf env st" "ev_ok env ev" and a: "ar_key_size a = 8" "unat (ar_value_size a) \<le> cap"
      "unat (ar_value_size a) + 52 < 2 ^ 64"
    and t: "length (tc_key_hash t) = 8" and reps: "ab_replicas st \<noteq> []"
  shows "\<exists>st'. issue_cmd env ev a st t = Some st' \<and>
    issued env st (tc_op t) (tc_key_hash t) (replicate (unat (ar_value_size a)) 0) st'"
proof -
  let ?k = "tc_key_hash t" and ?v = "replicate (unat (ar_value_size a)) (0 :: u8)"
  have k: "?k \<noteq> []" "length ?v \<le> cap" "length ?k + length ?v + 44 < 2 ^ 64" using a t by auto
  have msg: "issue_cmd env ev a st t = (case tc_op t of Trace_Put \<Rightarrow> benchmark_put env ev st (encoded ?k ?v [])
      | Trace_Get \<Rightarrow> benchmark_get env ev st (encoded ?k ?v []))"
    using a t by (intro issue_cmd_msg) simp_all
  show ?thesis
  proof (cases "key_group st ?k = []")
    case True
    then show ?thesis
      using benchmark_skip [OF ok(1) k reps True, of ev] issued_skip [OF ok(2) True] msg
      by (cases "tc_op t") fastforce+
  next
    case False
    have wf: "abd_wf env (with_ctx (increment_traces st) None n)" for n using ok(2) by simp
    show ?thesis
    proof (cases "tc_op t")
      case Trace_Put
      obtain n st' c where "benchmark_put env ev st (encoded ?k ?v []) = Some st'"
        "c = (rc_create (ab_max_package_size st) None)\<lparr>rc_data := n\<rparr>" "holds env c ?k ?v lamport_min"
        "sends env (with_ctx (increment_traces st) None n) c (length (ab_ctxs st)) (key_group st ?k) GetTimeStamp GetTime ?k [] st'"
        by (rule benchmark_put_spec [OF ok k reps False]) (rule that)
      then show ?thesis
        using False msg Trace_Put sendsD(1,5) wf sends_traces by (fastforce simp: issued_def)
    next
      case Trace_Get
      obtain st' n c where "benchmark_get env ev st (encoded ?k ?v []) = Some st'"
        "c = (rc_create (ab_max_package_size st) None)\<lparr>rc_data := n\<rparr>" "holds env c ?k [] lamport_min"
        "sends env (with_ctx (increment_traces st) None n) c (length (ab_ctxs st)) (key_group st ?k) GetValueTimeStamp RetValue ?k ?v st'"
        by (rule benchmark_get_spec [OF ok k(1,3) reps False]) (rule that)
      then show ?thesis
        using False msg Trace_Get sendsD(1,5) wf sends_traces by (fastforce simp: issued_def)
    qed
  qed
qed

text \<open>A whole list of commands: the events in between keep the state well-formed and the groups.\<close>

definition harmless :: "('s, 'p) penv \<Rightarrow> (nat \<Rightarrow> 's abd \<Rightarrow> 's abd) \<Rightarrow> bool" where
  "harmless env between \<longleftrightarrow> (\<forall>i st. abd_wf env st \<longrightarrow> abd_wf env (between i st) \<and> ab_replicas (between i st) = ab_replicas st \<and>
     ab_replicas_infos (between i st) = ab_replicas_infos st)"

lemma issue_all_total:
  assumes ok: "penv_ok env cap" "\<forall>i. ev_ok env (evs i)" "harmless env between"
    and a: "ar_key_size a = 8" "unat (ar_value_size a) \<le> cap" "unat (ar_value_size a) + 52 < 2 ^ 64"
  shows "abd_wf env st \<Longrightarrow> ab_replicas st \<noteq> [] \<Longrightarrow> \<forall>t \<in> set ts. length (tc_key_hash t) = 8 \<Longrightarrow>
    \<exists>st'. issue_all env evs between a i st ts = Some st' \<and> abd_wf env st' \<and> ab_replicas st' = ab_replicas st \<and>
      ab_replicas_infos st' = ab_replicas_infos st"
proof (induction ts arbitrary: i st)
  case (Cons t ts)
  have b: "abd_wf env (between i st)" "ab_replicas (between i st) = ab_replicas st"
      "ab_replicas_infos (between i st) = ab_replicas_infos st" using ok(3) Cons.prems by (auto simp: harmless_def)
  have "length (tc_key_hash t) = 8" "ab_replicas (between i st) \<noteq> []" "ev_ok env (evs i)" using Cons.prems b ok(2) by simp_all
  from issue_cmd_issued [OF ok(1) b(1) this(3) a this(1,2)] obtain st1 where
    st1: "issue_cmd env (evs i) a (between i st) t = Some st1" "abd_wf env st1" "ab_replicas st1 = ab_replicas st"
    "ab_replicas_infos st1 = ab_replicas_infos st"
    using b(2,3) by (auto simp: issued_def)
  then show ?case using Cons.IH [of st1 "Suc i"] Cons.prems by auto
qed simp

section \<open>The exchange of \<open>DONE\<close>\<close>

lemma bench_answer:
  assumes "length x = 4"
  shows "Option.bind (builder_new (4 + 1)) (\<lambda>b. add_key 1 b x 4) = Some (encoded x [] [0])"
proof -
  have "builder_new 5 = Some (encoded [] [] (replicate 5 0))" using builder_new_encoded [of 5] by simp
  moreover have "add_key 1 (encoded [] [] (replicate 5 0)) x (size_of x) = Some (encoded ([] @ x) [] (drop (length x) (replicate 5 0)))"
    using assms by (intro add_key_encoded) simp_all
  ultimately show ?thesis using assms by simp
qed

lemma bench_cmd_encoded:
  assumes "length k + 16 < 2 ^ 64" "strncmp_eq (DONE @ [0]) k (length k) = Some eq"
  shows "bench_cmd f (encoded k [] []) = Some (if eq then (Suc f, encoded ACK [] [0]) else (f, encoded ERR [] [0]))"
proof -
  have "Option.bind (builder_new (4 + 1)) (\<lambda>b. Option.bind (add_key 1 b x 4) (\<lambda>b. Some (n, builder_finish b))) =
      Some (n, encoded x [] [0])" if "length x = 4" for x and n :: nat
    using bench_answer [OF that] by (auto simp: bind_eq_Some_conv builder_finish_def)
  from this [of ACK] this [of ERR] show ?thesis
    using assms by (auto simp: bench_cmd_def mem_simps deref_def unat_of_nat_eq ACK_def ERR_def)
qed

lemma bench_cmd_ret_encoded:
  assumes "length k + length rest + 16 < 2 ^ 64"
  shows "bench_cmd_ret n (encoded k [] rest) = map_option (\<lambda>eq. (n, eq)) (strncmp_eq ACK (k @ rest) (length k))"
  using assms by (simp add: bench_cmd_ret_def mem_simps deref_def unat_of_nat_eq map_conv_bind_option comp_def)

lemma ack_answers:
  "strncmp_eq ACK (ACK @ [0]) (length ACK) = Some True" "strncmp_eq ACK (ERR @ [0]) (length ERR) = Some False"
  by (simp_all add: ACK_def ERR_def)

lemma done_matches:
  "strncmp_eq (DONE @ [0]) (DONE @ [0]) (length (DONE @ [0])) = Some True"
  "c \<noteq> 68 \<Longrightarrow> strncmp_eq (DONE @ [0]) (c # rest) (length (c # rest)) = Some False"
  by (simp_all add: DONE_def)

section \<open>Properties\<close>

text \<open>
  C34. The trace is split without overlap: the threads' segments, one after the other, are the first
  \<open>n_thread * (n_cmds div n_thread)\<close> commands, each segment has \<open>n_cmds div n_thread\<close> commands, and the last
  \<open>n_cmds mod n_thread\<close> commands are given to no thread.
\<close>

theorem trace_split:
  assumes "ar_n_thread a \<noteq> 0" "length trace = unat (ar_n_cmds a)"
  shows "\<exists>segs. create_threads a (length trace) = Some segs \<and> length segs = unat (ar_n_thread a) \<and>
    (\<forall>seg \<in> set segs. length (segment trace seg) = length trace div unat (ar_n_thread a)) \<and>
    concat (map (segment trace) segs) = take (length trace - length trace mod unat (ar_n_thread a)) trace"
proof -
  let ?t = "unat (ar_n_thread a)" and ?d = "length trace div unat (ar_n_thread a)"
  let ?segs = "map (\<lambda>i. (i * ?d, Suc i * ?d)) [0..<?t]"
  have segs: "create_threads a (length trace) = Some ?segs"
    using create_threads_segments [OF assms(1) assms(2) [symmetric]] by simp
  have all: "length trace - length trace mod ?t = ?t * ?d" by (simp add: minus_mod_eq_mult_div)
  have "Suc i * ?d \<le> length trace" if "i < ?t" for i
  proof -
    have "Suc i * ?d \<le> ?t * ?d" using that by (intro mult_le_mono1) simp
    then show ?thesis using div_times_less_eq_dividend [of "length trace" ?t] by (simp only: mult.commute [of ?t])
  qed
  then have "length (segment trace seg) = ?d" if "seg \<in> set ?segs" for seg using that by fastforce
  moreover have "concat (map (segment trace) ?segs) = take (?t * ?d) trace"
    using concat_steps [of ?d trace ?t] by (simp add: comp_def)
  ultimately show ?thesis using segs all by (intro exI [of _ ?segs]) simp
qed

definition demo_args :: args where
  "demo_args = \<lparr>ar_n_thread = 2, ar_uri = ''10.0.0.1:1'', ar_replica_info = [], ar_port = 0, ar_n_distinct_keys = 0,
     ar_host_memory = 0, ar_max_value_size = 8, ar_key_size = 8, ar_value_size = 0, ar_n_cmds = 5, ar_n_keys = 3,
     ar_permille_reads = 500, ar_output = []\<rparr>"

theorem trace_split_witness:
  "\<exists>segs. create_threads demo_args (length [1, 2, 3, 4, 5 :: nat]) = Some segs \<and> concat (map (segment [1, 2, 3, 4, 5 :: nat]) segs) = [1, 2, 3, 4]"
  using trace_split [of demo_args "[1, 2, 3, 4, 5 :: nat]"] by (auto simp: demo_args_def)

text \<open>
  The end of a run: the command that \<open>send_cmd("DONE")\<close> sends is counted by the peer and answered with
  \<open>ACK\<close>, which the sender recognises; a command that differs within its first characters is answered
  with \<open>ERR\<close>, not counted, and recognised as an error.
\<close>

lemma done_handshake:
  assumes "k = DONE @ [0] \<or> (\<exists>c rest. k = c # rest \<and> c \<noteq> 68)" "length k + 16 < 2 ^ 64"
  shows "\<exists>resp. bench_cmd f (encoded k [] []) = Some (if k = DONE @ [0] then Suc f else f, resp) \<and>
    bench_cmd_ret n resp = Some (n, k = DONE @ [0])"
proof -
  have "strncmp_eq (DONE @ [0]) k (length k) = Some (k = DONE @ [0])"
    using assms(1) done_matches(1)
  proof (elim disjE exE conjE)
    fix c rest assume k: "k = c # rest" "c \<noteq> 68"
    then have "k \<noteq> DONE @ [0]" by (auto simp: DONE_def)
    then show ?thesis using done_matches(2) [OF k(2)] k(1) by simp
  qed simp
  moreover have "bench_cmd_ret n (encoded ACK [] [0]) = Some (n, True)" "bench_cmd_ret n (encoded ERR [] [0]) = Some (n, False)"
    using ack_answers by (simp_all add: bench_cmd_ret_encoded ACK_def ERR_def)
  ultimately show ?thesis using bench_cmd_encoded [OF assms(2), of _ f] by auto
qed

lemma done_handshake_example:
  "\<exists>resp. bench_cmd 3 (encoded (DONE @ [0]) [] []) = Some (4, resp) \<and> bench_cmd_ret 2 resp = Some (2, True)"
  using done_handshake [of "DONE @ [0]" 3 2] by (simp add: DONE_def)

end
