(* ===== verification/Utility.thy ===== *)
theory Utility
  imports Avocado_Prelude "HOL-Library.Sublist"
begin

text \<open>
  Small helpers of the sources: the replacement of substrings (\<open>find_and_replace_all\<close> of \<open>src/server.cpp\<close> and
  \<open>findAndReplaceAll\<close> of \<open>src/include/utils/utility.h\<close>, the same code), the bit scans of \<open>utility.h\<close>, the
  bounded string copies of \<open>src/copy_utility.c\<close>, the size of the memory that \<open>src/memtables/create_allocator.cpp\<close>
  maps, and the conversion of time stamps of \<open>src/stats/rdtsc.cpp\<close>.

  The theory shows that the replacement computes the leftmost non-overlapping replacement and ends exactly
  for a non-empty search string, and which writes of the string copies stay inside the buffer.
\<close>

section \<open>Replacing substrings\<close>

text \<open>\<open>find(search, pos)\<close>.\<close>

definition str_find_from :: "'a list \<Rightarrow> 'a list \<Rightarrow> nat \<Rightarrow> nat option" where
  "str_find_from s res pos = List.find (\<lambda>i. prefix s (drop i res)) [pos..<Suc (length res)]"

partial_function (option) replace_loop :: "'a list \<Rightarrow> 'a list \<Rightarrow> 'a list \<Rightarrow> nat option \<Rightarrow> 'a list option" where
  "replace_loop s r res pos =
     (case pos of
        None \<Rightarrow> Some res
      | Some p \<Rightarrow>
          (let res' = take p res @ r @ drop (p + length s) res
           in replace_loop s r res' (str_find_from s res' (p + length r))))"

definition find_and_replace_all :: "'a list \<Rightarrow> 'a list \<Rightarrow> 'a list \<Rightarrow> 'a list option" where
  "find_and_replace_all res s r = replace_loop s r res (str_find_from s res 0)"

text \<open>The replacement from left to right.\<close>

function replace_all :: "'a list \<Rightarrow> 'a list \<Rightarrow> 'a list \<Rightarrow> 'a list" where
  "replace_all s r [] = []"
| "replace_all s r (x # xs) =
     (if prefix s (x # xs) \<and> s \<noteq> [] then r @ replace_all s r (drop (length s) (x # xs)) else x # replace_all s r xs)"
  by pat_completeness auto
termination
  by (relation "measure (\<lambda>(s, r, xs). length xs)") (auto simp: neq_Nil_conv)

lemma find_upt_Some:
  assumes "List.find P [m..<n] = Some i"
  shows "m \<le> i" "i < n" "P i" "\<And>j. m \<le> j \<Longrightarrow> j < i \<Longrightarrow> \<not> P j"
proof -
  obtain k where k: "k < length [m..<n]" "P ([m..<n] ! k)" "i = [m..<n] ! k" "\<forall>j<k. \<not> P ([m..<n] ! j)"
    using assms by (auto simp: find_Some_iff)
  then show "m \<le> i" "i < n" "P i" by auto
  fix j assume "m \<le> j" "j < i"
  then show "\<not> P j" using k(1,3) k(4) [rule_format, of "j - m"] by auto
qed

lemma find_upt_None: "List.find P [m..<n] = None \<Longrightarrow> m \<le> i \<Longrightarrow> i < n \<Longrightarrow> \<not> P i"
  by (auto simp: find_None_iff)

lemma replace_all_skip:
  "(\<And>j. j < n \<Longrightarrow> \<not> prefix s (drop j xs)) \<Longrightarrow> n \<le> length xs \<Longrightarrow> replace_all s r xs = take n xs @ replace_all s r (drop n xs)"
proof (induction n arbitrary: xs)
  case (Suc n)
  then obtain x ys where xs: "xs = x # ys" by (cases xs) auto
  have "\<not> prefix s xs" using Suc.prems(1) [of 0] by simp
  moreover have "replace_all s r ys = take n ys @ replace_all s r (drop n ys)"
    using Suc.prems xs by (intro Suc.IH) force+
  ultimately show ?case using xs by simp
qed simp

lemma replace_all_hit: "prefix s xs \<Longrightarrow> s \<noteq> [] \<Longrightarrow> replace_all s r xs = r @ replace_all s r (drop (length s) xs)"
  by (cases xs) auto

lemma replace_loop_all:
  assumes "s \<noteq> []"
  shows "replace_loop s r (pre @ todo) (str_find_from s (pre @ todo) (length pre)) = Some (pre @ replace_all s r todo)"
proof (induction "length todo" arbitrary: pre todo rule: less_induct)
  case less
  show ?case
  proof (cases "str_find_from s (pre @ todo) (length pre)")
    case None
    have "\<not> prefix s (drop j todo)" if "j < Suc (length todo)" for j
      using find_upt_None [OF None [unfolded str_find_from_def], of "length pre + j"] that by simp
    then have "replace_all s r todo = take (length todo) todo @ replace_all s r (drop (length todo) todo)"
      by (intro replace_all_skip) auto
    then show ?thesis using None by (simp add: replace_loop.simps)
  next
    case (Some p)
    note f = find_upt_Some [OF Some [unfolded str_find_from_def]]
    define n where "n = p - length pre"
    have n: "p = length pre + n" "n \<le> length todo" using f(1,2) by (simp_all add: n_def)
    have hit: "prefix s (drop n todo)" using f(3) n by simp
    have "\<not> prefix s (drop j todo)" if "j < n" for j using f(4) [of "length pre + j"] that n by simp
    then have todo: "replace_all s r todo = take n todo @ r @ replace_all s r (drop (n + length s) todo)"
      using replace_all_skip [of n s todo r] n(2) replace_all_hit [OF hit assms, of r] by (simp add: add.commute)
    let ?pre = "pre @ take n todo @ r" and ?todo = "drop (n + length s) todo"
    have res: "take p (pre @ todo) @ r @ drop (p + length s) (pre @ todo) = ?pre @ ?todo" using n by simp
    have pos: "p + length r = length ?pre" using n by simp
    have "length ?todo < length todo"
    proof -
      have "length s \<le> length todo - n" using prefix_length_le [OF hit] by simp
      moreover have "0 < length s" using assms by simp
      ultimately show ?thesis by (simp only: length_drop)
    qed
    then have "replace_loop s r (?pre @ ?todo) (str_find_from s (?pre @ ?todo) (length ?pre)) = Some (?pre @ replace_all s r ?todo)"
      by (rule less)
    then show ?thesis using Some todo by (subst replace_loop.simps) (simp only: option.case Let_def res pos append_assoc)
  qed
qed

text \<open>With an empty search string every position matches, so the loop has no end.\<close>

lemma find_empty: "p \<le> length res \<Longrightarrow> str_find_from [] res p = Some p"
  using upt_conv_Cons [of p "Suc (length res)"] by (simp add: str_find_from_def del: upt_Suc)

lemma replace_loop_empty: "replace_loop [] r res (Some p) = None" if "p \<le> length res"
proof -
  have "False" if r': "replace_loop [] r res (Some p) = Some out" for out
  proof -
    let ?P = "\<lambda>(s :: 'a list) (r' :: 'a list) (res :: 'a list) pos (out :: 'a list). \<not> (s = [] \<and> (\<exists>p \<le> length res. pos = Some p))"
    have "?P [] r res (Some p) out"
      by (rule replace_loop.raw_induct [where P = ?P, OF _ r']) (fastforce simp: Let_def find_empty split: option.splits)
    then show False using \<open>p \<le> length res\<close> by blast
  qed
  then show ?thesis by (metis not_Some_eq)
qed

section \<open>Bit scans\<close>

text \<open>The instructions \<open>BSR\<close> and \<open>BSF\<close> on a non-zero operand.\<close>

fun bsr :: "nat \<Rightarrow> nat" where
  "bsr n = (if n \<le> 1 then 0 else Suc (bsr (n div 2)))"

fun bsf :: "nat \<Rightarrow> nat" where
  "bsf n = (if n = 0 \<or> odd n then 0 else Suc (bsf (n div 2)))"

declare bsr.simps [simp del] bsf.simps [simp del]

definition pos_most_significant_bit :: "u64 \<Rightarrow> u64 option" where
  "pos_most_significant_bit val = (if val = 0 then None else Some (of_nat (bsr (unat val))))"

definition pos_least_significant_bit :: "u64 \<Rightarrow> u64 option" where
  "pos_least_significant_bit val = (if val = 0 then None else Some (of_nat (bsf (unat val))))"

lemma bsr_bounds: "0 < n \<Longrightarrow> 2 ^ bsr n \<le> n \<and> n < 2 ^ Suc (bsr n)"
proof (induction n rule: bsr.induct)
  case (1 n)
  show ?case
  proof (cases "n \<le> 1")
    case True
    then show ?thesis using 1(2) by (simp add: bsr.simps)
  next
    case False
    then have "2 ^ bsr (n div 2) \<le> n div 2 \<and> n div 2 < 2 ^ Suc (bsr (n div 2))" using 1 by simp
    then show ?thesis using False by (subst (1 2) bsr.simps) auto
  qed
qed

lemma bsf_divides: "0 < n \<Longrightarrow> 2 ^ bsf n dvd n \<and> odd (n div 2 ^ bsf n)"
proof (induction n rule: bsf.induct)
  case (1 n)
  show ?case
  proof (cases "odd n")
    case True
    then show ?thesis by (simp add: bsf.simps)
  next
    case False
    then have "0 < n div 2" using 1(2) by auto
    then have "2 ^ bsf (n div 2) dvd n div 2 \<and> odd (n div 2 div 2 ^ bsf (n div 2))" using 1 False by simp
    moreover have "n = 2 * (n div 2)" using False by simp
    ultimately show ?thesis
      using False 1(2) by (subst (1 2) bsf.simps) (auto simp: div_mult2_eq dest: dvd_mult_imp_div)
  qed
qed

section \<open>Bounded string copies\<close>

text \<open>\<open>strlen\<close>: reading past the end of an unterminated buffer has no result.\<close>

fun strlen :: "bytes \<Rightarrow> nat option" where
  "strlen [] = None"
| "strlen (c # cs) = (if c = 0 then Some 0 else map_option Suc (strlen cs))"

text \<open>The sizes are of type \<open>size_t\<close>: for a size of zero the decrement wraps.\<close>

definition strlcpy :: "bytes \<Rightarrow> bytes \<Rightarrow> u64 \<Rightarrow> (bytes \<times> u64) option" where
  "strlcpy dst src sz = do {
     n \<leftarrow> strlen src;
     let srclen = of_nat n;
     let sz = sz - 1;
     let srclen = (if srclen > sz then sz else srclen);
     bs \<leftarrow> mem_read src 0 (unat srclen);
     dst \<leftarrow> mem_write dst 0 bs;
     dst \<leftarrow> mem_write dst (unat srclen) [0];
     Some (dst, srclen)
   }"

definition strlcat :: "bytes \<Rightarrow> bytes \<Rightarrow> u64 \<Rightarrow> (bytes \<times> u64) option" where
  "strlcat dst src sz = do {
     d \<leftarrow> strlen dst;
     let dstlen = of_nat d;
     if sz \<le> dstlen + 1 then Some (dst, dstlen)
     else do {
       let sz = sz - dstlen;
       n \<leftarrow> strlen src;
       let srclen = of_nat n;
       let srclen = (if srclen > sz then sz else srclen);
       bs \<leftarrow> mem_read src 0 (unat srclen);
       dst \<leftarrow> mem_write dst (unat dstlen) bs;
       dst \<leftarrow> mem_write dst (unat (dstlen + srclen)) [0];
       Some (dst, dstlen + srclen)
     }
   }"

lemma strlen_append: "0 \<notin> set s \<Longrightarrow> strlen (s @ 0 # rest) = Some (length s)"
  by (induction s) auto

section \<open>The memory of the allocator\<close>

text \<open>
  \<open>mmap\<close> gives the region and \<open>mmap'\<close> the page of the control block, \<open>None\<close> for \<open>MAP_FAILED\<close>.  A failure of the
  first is the null pointer (\<open>Some None\<close>); the second is not checked, so the control block is then
  constructed at an invalid address (\<open>None\<close>).  The result: start, end, element size.
\<close>

definition alloc_size :: "u64 \<Rightarrow> u64 \<Rightarrow> u64" where
  "alloc_size pagesize sz =
     (let remainder = sz mod pagesize
      in if remainder \<noteq> 0 then sz + (sz - remainder) else sz)"

definition create_allocator ::
  "(u64 \<Rightarrow> u64 option) \<Rightarrow> (u64 \<Rightarrow> u64 option) \<Rightarrow> u64 \<Rightarrow> u64 \<Rightarrow> u64 \<Rightarrow> (u64 \<times> u64 \<times> u64) option option" where
  "create_allocator mmap mmap' pagesize sz element_size =
     (let sz = alloc_size pagesize sz
      in case mmap sz of
           None \<Rightarrow> Some None
         | Some ptr \<Rightarrow> (case mmap' pagesize of None \<Rightarrow> None | Some _ \<Rightarrow> Some (Some (ptr, ptr + sz, element_size))))"

text \<open>
  The adjusted size is no multiple of the page size: the remainder stays, and the size about doubles.
\<close>

lemma alloc_size_remainder:
  assumes "pagesize \<noteq> 0" "2 * unat sz < 2 ^ 64"
  shows "unat (alloc_size pagesize sz) =
    (if unat sz mod unat pagesize = 0 then unat sz else 2 * unat sz - unat sz mod unat pagesize)"
    and "unat (alloc_size pagesize sz) mod unat pagesize = unat sz mod unat pagesize"
proof -
  have m: "unat (sz mod pagesize) = unat sz mod unat pagesize" by (rule unat_mod)
  have le: "sz mod pagesize \<le> sz" by (simp add: word_le_nat_alt m)
  have "unat (sz + (sz - sz mod pagesize)) = 2 * unat sz - unat sz mod unat pagesize"
    using assms(2) m le by (subst unat_add_u64) (simp_all add: unat_sub)
  moreover have "sz mod pagesize = 0 \<longleftrightarrow> unat sz mod unat pagesize = 0" using m by (metis unat_eq_0)
  ultimately show 1: "unat (alloc_size pagesize sz) =
      (if unat sz mod unat pagesize = 0 then unat sz else 2 * unat sz - unat sz mod unat pagesize)"
    by (auto simp: alloc_size_def Let_def)
  have "2 * unat sz - unat sz mod unat pagesize = unat sz + unat sz div unat pagesize * unat pagesize"
    using minus_mod_eq_div_mult [of "unat sz" "unat pagesize"] mod_less_eq_dividend [of "unat sz" "unat pagesize"] by linarith
  then show "unat (alloc_size pagesize sz) mod unat pagesize = unat sz mod unat pagesize"
    using 1 by simp
qed

section \<open>Time stamps\<close>

text \<open>\<open>rdtsc\<close> and \<open>cpuid\<close> are the processor's.\<close>

definition get_tsc :: "u32 \<Rightarrow> u32 \<Rightarrow> u64" where
  "get_tsc eax edx = push_bit 32 (ucast edx) OR ucast eax"

record crystal_clock =
  cc_clock_fq :: u64
  cc_ART_fq :: u64
  cc_denominator :: u32
  cc_numerator :: u32
  cc_base_freq :: u64
  cc_max_freq :: u64
  cc_bus_freq :: u64

definition crystal_clock_new :: "u32 \<times> u32 \<times> u64 \<Rightarrow> u32 \<times> u32 \<times> u32 \<Rightarrow> crystal_clock option" where
  "crystal_clock_new leaf15 leaf16 =
     (case (leaf15, leaf16) of ((denominator, numerator, clock_fq), (base_freq, max_freq, bus_freq)) \<Rightarrow>
        if clock_fq \<noteq> 0 then
          Some \<lparr>cc_clock_fq = clock_fq, cc_ART_fq = clock_fq * 1, cc_denominator = denominator, cc_numerator = numerator,
            cc_base_freq = 0, cc_max_freq = 0, cc_bus_freq = 0\<rparr>
        else do {
          _ \<leftarrow> assert_that (numerator \<noteq> 0);
          let clock_fq = ucast base_freq * 1000000 * ucast denominator div ucast numerator;
          Some \<lparr>cc_clock_fq = clock_fq, cc_ART_fq = clock_fq * 1, cc_denominator = denominator, cc_numerator = numerator,
            cc_base_freq = ucast base_freq * 1000000, cc_max_freq = ucast max_freq * 1000000,
            cc_bus_freq = ucast bus_freq * 1000000\<rparr>
        })"

text \<open>\<open>get_time_in_ms\<close>: 128-bit intermediate values; a division by zero has no result.\<close>

definition get_time_in_ms :: "crystal_clock \<Rightarrow> u64 \<Rightarrow> u64 option" where
  "get_time_in_ms ci tsc_value = do {
     _ \<leftarrow> assert_that (cc_numerator ci \<noteq> 0 \<and> cc_ART_fq ci \<noteq> 0);
     let ART_Value = (ucast tsc_value * ucast (cc_denominator ci) :: 128 word) div ucast (cc_numerator ci);
     Some (ucast ((ART_Value * 1000) div ucast (cc_ART_fq ci)))
   }"

section \<open>Properties\<close>

text \<open>
  C37. Replacing substrings: for a non-empty search string the loop ends and its result is the leftmost
  non-overlapping replacement; for the empty one it does not end.
\<close>

theorem find_and_replace_all_result:
  "find_and_replace_all res s r = (if s = [] then None else Some (replace_all s r res))"
proof (cases "s = []")
  case True
  then show ?thesis by (simp add: find_and_replace_all_def find_empty replace_loop_empty)
next
  case False
  then show ?thesis using replace_loop_all [OF False, of r "[]" res] by (simp add: find_and_replace_all_def)
qed

lemma unat_min_u64:
  assumes "n < 2 ^ 64"
  shows "unat (if of_nat n > (w :: u64) then w else of_nat n) = min n (unat w)"
  using assms by (auto simp: word_less_nat_alt unat_of_nat_eq)

lemma min_u64:
  assumes "n < 2 ^ 64"
  shows "(if of_nat n > (w :: u64) then w else of_nat n) = of_nat (min n (unat w))"
proof (rule word_unat_eq_iff [THEN iffD2])
  have "min n (unat w) < 2 ^ 64" using assms by simp
  then show "unat (if of_nat n > w then w else of_nat n) = unat (of_nat (min n (unat w)) :: u64)"
    using unat_min_u64 [OF assms, of w] unat_of_nat_eq [of "min n (unat w)", where 'a = 64] by simp
qed

lemma strlcpy_result:
  assumes s: "0 \<notin> set s" "length s < 2 ^ 64" and buf: "length buf = unat sz" and sz: "0 < unat sz"
    and n: "n = min (length s) (unat sz - 1)"
  shows "strlcpy buf (s @ 0 # rest) sz = Some (take (unat sz - 1) s @ 0 # drop (Suc n) buf, of_nat n)"
proof -
  have "unat (sz - 1) = unat sz - 1" using sz by (simp add: unat_minus_one unat_gt_0)
  then have len: "(if of_nat (length s) > sz - 1 then sz - 1 else of_nat (length s)) = of_nat n"
    using min_u64 [OF s(2), of "sz - 1"] n by simp
  have un: "unat (of_nat n :: u64) = n" using s(2) n by (intro unat_of_nat_eq) simp
  have "mem_read (s @ 0 # rest) 0 n = Some (take n s)" using n by (simp add: mem_read_def)
  moreover have "mem_write buf 0 (take n s) = Some (take n s @ drop n buf)" using buf sz n by (simp add: mem_write_def)
  moreover have "mem_write (take n s @ drop n buf) n [0] = Some (take n s @ 0 # drop (Suc n) buf)"
    using buf sz n by (auto simp: mem_write_def)
  moreover have "take (unat sz - 1) s = take n s" using n by (simp add: min_def)
  ultimately show ?thesis by (simp add: strlcpy_def strlen_append [OF s(1)] len un)
qed

lemma strlcat_result:
  assumes s: "0 \<notin> set s" "length s < 2 ^ 64" and d: "0 \<notin> set d" "length (d @ 0 # tail) = unat sz" "length d + 1 < unat sz"
  shows "strlcat (d @ 0 # tail) (s @ 0 # rest) sz =
    (if length d + length s < unat sz then Some (d @ s @ 0 # drop (length s) tail, of_nat (length d + length s)) else None)"
proof -
  have b: "length d + 1 < 2 ^ 64" using d(3) unat_lt2p [of sz] by simp
  have ud1: "unat (of_nat (length d) :: u64) = length d" using b by (intro unat_of_nat_eq) simp
  then have "unat (of_nat (length d) + 1 :: u64) = length d + 1" using b by (subst unat_add_u64) simp_all
  note ud = ud1 this
  have room: "\<not> sz \<le> of_nat (length d) + 1" using d(3) by (simp only: word_le_nat_alt ud)
  have sub: "unat (sz - of_nat (length d)) = unat sz - length d"
    using d(3) by (subst unat_sub_u64) (simp_all add: word_le_nat_alt ud)
  define n where "n = min (length s) (unat sz - length d)"
  have len: "(if of_nat (length s) > sz - of_nat (length d) then sz - of_nat (length d) else of_nat (length s)) = of_nat n"
    using min_u64 [OF s(2), of "sz - of_nat (length d)"] by (simp only: sub n_def)
  have un: "unat (of_nat n :: u64) = n" using s(2) by (intro unat_of_nat_eq) (simp add: n_def)
  have sum: "unat (of_nat (length d) + of_nat n :: u64) = length d + n"
  proof -
    have "length d + n < 2 ^ 64" using unat_lt2p [of sz] d(3) by (simp add: n_def)
    then show ?thesis by (subst unat_add_u64) (simp_all add: ud un)
  qed
  have rd: "mem_read (s @ 0 # rest) 0 n = Some (take n s)" by (simp add: mem_read_def n_def)
  have w1: "mem_write (d @ 0 # tail) (length d) (take n s) = Some (d @ take n s @ drop n (0 # tail))"
    using d(2) by (auto simp: mem_write_def n_def)
  have w2: "mem_write (d @ take n s @ drop n (0 # tail)) (length d + n) [0] =
      (if length d + length s < unat sz then Some (d @ s @ 0 # drop (length s) tail) else None)"
    using d(2,3) by (auto simp: mem_write_def n_def min_def)
  have "n = length s" if "length d + length s < unat sz" using that by (simp add: n_def)
  then show ?thesis
    by (simp add: strlcat_def strlen_append [OF s(1)] strlen_append [OF d(1)] room len un ud sum rd w1 w2)
qed

text \<open>
  The bounded copies on a buffer of the given size, with a terminated source: \<open>strlcpy\<close> with a positive size
  stays inside the buffer and leaves the terminated, possibly truncated source; \<open>strlcat\<close> stays inside the
  buffer exactly if the concatenation fits, and otherwise writes the terminator one byte behind the end.
\<close>

lemma string_copies_bounds:
  assumes "0 \<notin> set s" "length s < 2 ^ 64" "0 \<notin> set d" "length buf = unat sz" "0 < unat sz"
    and "length (d @ 0 # tail) = unat sz" "length d + 1 < unat sz"
  shows "strlcpy buf (s @ 0 # rest) sz =
      Some (take (unat sz - 1) s @ 0 # drop (Suc (min (length s) (unat sz - 1))) buf, of_nat (min (length s) (unat sz - 1))) \<and>
    strlcat (d @ 0 # tail) (s @ 0 # rest) sz =
      (if length d + length s < unat sz
       then Some (d @ s @ 0 # drop (length s) tail, of_nat (length d + length s)) else None)"
  using strlcpy_result [OF assms(1,2,4,5) refl] strlcat_result [OF assms(1,2,3,6,7)] by simp

lemma string_copies_bounds_example:
  "strlcpy (replicate 4 9) ([1, 2, 3, 4, 5] @ 0 # []) 4 = Some ([1, 2, 3, 0], 3) \<and>
   strlcat ([7] @ 0 # [9, 9]) ([1, 2, 3, 4, 5] @ 0 # []) 4 = None"
  using string_copies_bounds [of "[1, 2, 3, 4, 5]" "[7]" "replicate 4 9" 4 "[9, 9]" "[]"] by simp

end
