(* ===== verification/Server_Run.thy ===== *)
theory Server_Run
  imports Server Utility
begin

text \<open>
  The run of a server: \<open>main\<close>, \<open>server_thread\<close> and \<open>run_event_loop\<close> of \<open>src/server.cpp\<close>, composed of the parts in
  \<open>Server\<close>, \<open>Replica_Groups\<close>, \<open>Traces\<close>, \<open>Utility\<close> and the protocol.  eRPC's session management is the argument
  \<open>rpc_env\<close>; the requests and responses that the event loop handles while a thread waits or between two
  commands are the argument \<open>between\<close>.

  The theory shows that the groups a thread ends up with are sessions to the other two nodes of each group,
  and that a thread whose peers connect and answer gets through its whole run.
\<close>

section \<open>A thread\<close>

text \<open>
  \<open>rp_is_connected\<close> and \<open>rp_connected\<close> are the values the loops of \<open>init\<close> read, \<open>rp_progress\<close> the counters
  \<open>other_finished\<close> and \<open>others_ack\<close> that the last loop reads.
\<close>

record rpc_env =
  rp_create_session :: "string \<Rightarrow> u64 \<Rightarrow> int"
  rp_is_connected :: "int \<Rightarrow> bool list"
  rp_connected :: "u64 list"
  rp_progress :: "(nat \<times> nat) list"

text \<open>
  \<open>between 0\<close> is what the event loop handles while the sessions connect, \<open>between (Suc i)\<close> what it handles
  after \<open>i\<close> commands; after the last one the loop runs until no operation is left.  Waiting without end has
  no result.
\<close>

definition run_event_loop ::
  "('s, 'p) penv \<Rightarrow> (nat \<Rightarrow> event) \<Rightarrow> (nat \<Rightarrow> 's abd \<Rightarrow> 's abd) \<Rightarrow> rpc_env \<Rightarrow> args \<Rightarrow> (bool \<times> nat \<times> nat) list \<Rightarrow>
   's abd \<Rightarrow> trace_cmd list \<Rightarrow> nat \<times> nat \<Rightarrow> 's abd option" where
  "run_event_loop env evs between rpc a order st trace seg = do {
     _ \<leftarrow> assert_that (fst seg \<noteq> snd seg);
     st \<leftarrow> abd_init (rp_create_session rpc) (rp_is_connected rpc) (rp_connected rpc) st;
     st \<leftarrow> replica_ordering order (between 0 st);
     let ts = segment trace seg;
     st \<leftarrow> issue_all env evs between a 1 st ts;
     let st = between (Suc (length ts)) st;
     _ \<leftarrow> assert_that (ab_current_traces st = 0);
     st \<leftarrow> send_cmd env (evs (Suc (length ts))) st DONE;
     _ \<leftarrow> wait_until (map (\<lambda>(f, k). \<not> bench_waits (length (ar_replica_info a)) f k) (rp_progress rpc));
     Some st
   }"

definition server_thread ::
  "('s, 'p) penv \<Rightarrow> (nat \<Rightarrow> event) \<Rightarrow> (nat \<Rightarrow> 's abd \<Rightarrow> 's abd) \<Rightarrow> rpc_env \<Rightarrow> u64 \<Rightarrow> u64 \<Rightarrow> 's kv_store \<Rightarrow> args \<Rightarrow> key_iv \<Rightarrow>
   (bool \<times> nat \<times> nat) list \<Rightarrow> trace_cmd list \<Rightarrow> nat \<times> nat \<Rightarrow> 's abd option" where
  "server_thread env evs between rpc base_id local_id kv a cipher order trace seg = do {
     replicas \<leftarrow> server_replicas local_id (ar_replica_info a);
     run_event_loop env evs between rpc a order
       (abd_new (ar_value_size a) (ucast base_id) kv replicas local_id cipher) trace seg
   }"

section \<open>The program\<close>

definition args_id :: "args \<Rightarrow> u64" where
  "args_id a = get_id_from_addr (ar_uri a)"

declare args_id_def [simp] packet_of_cipher_def [simp]

definition get_session_id_from_addr :: "string \<Rightarrow> u64" where
  "get_session_id_from_addr uri = get_session_id_from_id (get_id_from_addr uri)"

text \<open>
  The time a thread needed, from the seconds and microseconds of its start and end, in the arithmetic of
  \<open>long double\<close>.  With exact arithmetic it is right also when the microseconds of the end are the smaller ones.
\<close>

definition elapsed_time :: "(int \<Rightarrow> 'f) \<Rightarrow> ('f \<Rightarrow> 'f \<Rightarrow> 'f) \<Rightarrow> ('f \<Rightarrow> 'f \<Rightarrow> 'f) \<Rightarrow> int \<times> int \<Rightarrow> int \<times> int \<Rightarrow> 'f" where
  "elapsed_time of_long fadd fdiv start_time end_time =
     fadd (of_long (fst end_time - fst start_time)) (fdiv (of_long (snd end_time - snd start_time)) (of_long 1000000))"

lemma elapsed_time_exact:
  "elapsed_time of_int (+) (/) (s, us) (s', us') =
     (of_int ((1000000 * s' + us') - (1000000 * s + us)) / 1000000 :: 'a :: field_char_0)"
  by (simp add: elapsed_time_def field_simps)

text \<open>
  What \<open>main\<close> prepares for its threads: the node's number, the arguments with the replicas sorted, the groups,
  the trace, the memory of the store, the two ciphers with the built-in key (\<open>rest\<close> are the unset bytes of the
  packet vector) and each thread's part of the trace.  \<open>Inl\<close> is the early return.
\<close>

definition main_key :: bytes where
  "main_key = [0, 1, 2, 3, 4, 5, 6, 7, 8, 9, 10, 11, 12, 13, 14, 15]"

definition server_main ::
  "('d :: linorder) double_ops \<Rightarrow> (bytes \<Rightarrow> bytes) \<Rightarrow> (nat \<Rightarrow> rng) \<Rightarrow> (nat \<Rightarrow> nat) \<Rightarrow> (u64 \<Rightarrow> u64 option) \<Rightarrow> (u64 \<Rightarrow> u64 option) \<Rightarrow> u64 \<Rightarrow> bytes \<Rightarrow> args \<Rightarrow>
   (int + u64 \<times> args \<times> (bool \<times> nat \<times> nat) list \<times> trace_cmd list \<times> (u64 \<times> u64 \<times> u64) \<times> cipher_ssl \<times> key_iv \<times> (nat \<times> nat) list) option" where
  "server_main d city srand junk mmap mmap' pagesize rest a = do {
     let base_id = args_id a;
     let (infos, order) = permutations (ar_uri a) (ar_replica_info a);
     let a = a\<lparr>ar_replica_info := infos\<rparr>;
     let trace_size = unat (ar_n_cmds a);
     trace \<leftarrow> trace_init_zipfian d city srand junk trace_size (unat (ar_n_keys a))
       (sint (ucast (ar_permille_reads a) :: u32)) (unat (ucast base_id :: u32)) (d_one d);
     alloc \<leftarrow> create_allocator mmap mmap' pagesize (ar_host_memory a) (ar_max_value_size a);
     (case alloc of
        None \<Rightarrow> Some (Inl (-1))
      | Some mem \<Rightarrow> do {
          crypt \<leftarrow> cipher_new main_key main_key;
          packet \<leftarrow> packet_of_cipher crypt rest;
          segs \<leftarrow> create_threads a trace_size;
          Some (Inr (base_id, a, order, trace, mem, crypt, packet, segs))
        })
   }"

section \<open>Connecting\<close>

lemma wait_until_ends: "True \<in> set bs \<Longrightarrow> \<exists>n. wait_until bs = Some n"
  by (induction bs rule: wait_until.induct) auto

lemma init_sessions_all:
  assumes "\<forall>sid. True \<in> set (conn sid)"
  shows "init_sessions cs conn rs = Some (map (\<lambda>r. r\<lparr>ri_session_id := cs (ri_uri r) (ri_base_id r)\<rparr>) rs)"
proof (induction rs)
  case (Cons r rs)
  obtain n where "wait_until (conn (cs (ri_uri r) (ri_base_id r))) = Some n"
    using wait_until_ends assms by blast
  then show ?case using Cons by simp
qed simp

lemma server_replicas_all:
  assumes "\<forall>r \<in> set rs. get_n_threads_from_svr_info r \<noteq> 0"
  shows "server_replicas local_id rs = Some (map (\<lambda>r. \<lparr>ri_session_id = 0, ri_base_id = local_id mod get_n_threads_from_svr_info r,
    ri_uri = get_uri_from_server_info r\<rparr>) rs)"
  using assms by (induction rs) simp_all

definition group_sessions :: "replica_info list \<Rightarrow> bool \<times> nat \<times> nat \<Rightarrow> int list" where
  "group_sessions infos g = (case g of (us, a, b) \<Rightarrow> if us then [ri_session_id (infos ! a), ri_session_id (infos ! b)] else [])"

lemma replica_ordering_all:
  assumes "\<forall>(us, a, b) \<in> set order. us \<longrightarrow> a < length (ab_replicas_infos st) \<and> b < length (ab_replicas_infos st)"
  shows "replica_ordering order st = Some (st\<lparr>ab_replicas := ab_replicas st @ map (group_sessions (ab_replicas_infos st)) order\<rparr>)"
  using assms
proof (induction order arbitrary: st)
  case (Cons g order)
  obtain us a b where g: "g = (us, a, b)" by (cases g)
  show ?case
  proof (cases us)
    case True
    then show ?thesis
      using Cons.IH [of "st\<lparr>ab_replicas := ab_replicas st @ [[ri_session_id (ab_replicas_infos st ! a), ri_session_id (ab_replicas_infos st ! b)]]\<rparr>"]
        Cons.prems g by (simp add: group_sessions_def)
  next
    case False
    then show ?thesis using Cons.IH [of "st\<lparr>ab_replicas := ab_replicas st @ [[]]\<rparr>"] Cons.prems g by (simp add: group_sessions_def)
  qed
qed simp

text \<open>The session of a thread to the peer of an entry.\<close>

definition session_of :: "rpc_env \<Rightarrow> u64 \<Rightarrow> string \<Rightarrow> int" where
  "session_of rpc local_id r =
     rp_create_session rpc (get_uri_from_server_info r) (local_id mod get_n_threads_from_svr_info r)"

lemma abd_init_sessions:
  assumes "\<forall>sid. True \<in> set (rp_is_connected rpc sid)" "size_of (ar_replica_info a) \<in> set (rp_connected rpc)"
    and "ab_replicas_infos st = map (\<lambda>r. \<lparr>ri_session_id = 0, ri_base_id = local_id mod get_n_threads_from_svr_info r,
      ri_uri = get_uri_from_server_info r\<rparr>) (ar_replica_info a)"
  shows "\<exists>infos. abd_init (rp_create_session rpc) (rp_is_connected rpc) (rp_connected rpc) st = Some (st\<lparr>ab_replicas_infos := infos\<rparr>) \<and>
    map ri_session_id infos = map (session_of rpc local_id) (ar_replica_info a)"
proof -
  obtain n where "wait_until (map (\<lambda>c. c = size_of (ar_replica_info a)) (rp_connected rpc)) = Some n"
    using wait_until_ends [of "map (\<lambda>c. c = size_of (ar_replica_info a)) (rp_connected rpc)"] assms(2) by auto
  then have "abd_init (rp_create_session rpc) (rp_is_connected rpc) (rp_connected rpc) st = Some (st\<lparr>ab_replicas_infos :=
      map (\<lambda>r. r\<lparr>ri_session_id := rp_create_session rpc (ri_uri r) (ri_base_id r)\<rparr>) (ab_replicas_infos st)\<rparr>)"
    using assms(3) by (simp add: abd_init_def init_sessions_all [OF assms(1)])
  then show ?thesis by (intro exI conjI, assumption) (simp add: assms(3) session_of_def)
qed

lemma send_cmd_sends:
  assumes ok: "penv_ok env cap" "abd_wf env st" "ev_ok env ev" and "ab_replicas_infos st \<noteq> []" "length cmd + 45 < 2 ^ 64"
  shows "\<exists>st'. send_cmd env ev st cmd = Some st' \<and>
    sends env (st\<lparr>ab_ctxs := ab_ctxs st @ [rc_create (ab_max_package_size st) None]\<rparr>) (rc_create (ab_max_package_size st) None)
      (length (ab_ctxs st)) (map ri_session_id (ab_replicas_infos st)) Cmd CmdRet (cmd @ [0]) [] st'"
proof -
  let ?c = "rc_create (ab_max_package_size st) None" and ?reps = "map ri_session_id (ab_replicas_infos st)"
  have ok': "evp_ok (pe_evp env)" "key_iv_wf (ab_cipher st)" "ig_ok (ev_iv ev)" "fresh_ok (pe_fresh env)"
    using ok by (simp_all add: penv_okD abd_wf_def ev_ok_def)
  obtain ki r where r: "rc_send_msg (pe_evp env) (pe_fresh env) (ev_iv ev) (ab_cipher st) (length (ab_ctxs st)) ?c ?reps Cmd CmdRet
        (encoded (cmd @ [0]) [] []) = Some (ki, ?c\<lparr>rc_n_msgs := length ?reps\<rparr>,
          map (\<lambda>i. \<lparr>rq_session = ?reps ! i, rq_type = Cmd, rq_buf = r, rq_cont = CmdRet, rq_ctx = length (ab_ctxs st), rq_node = i\<rparr>)
            [0..<length ?reps])"
    "key_iv_wf ki" "ki_key ki = ki_key (ab_cipher st)" "packet_of env st r (cmd @ [0]) []"
    using rc_send_msg_carries [OF ok', of "cmd @ [0]" "[]" ?reps "length (ab_ctxs st)" ?c Cmd CmdRet] assms(4,5) by auto
  have "Option.bind (builder_new (size_of (cmd @ [0]))) (\<lambda>b. add_key 1 b (cmd @ [0]) (size_of (cmd @ [0]))) = Some (encoded (cmd @ [0]) [] [])"
    using mb.build_key [of "cmd @ [0]"] assms(5) by simp
  then have b: "Option.bind (builder_new (size_of cmd + 1)) (\<lambda>b. add_key 1 b (cmd @ [0]) (size_of cmd + 1)) = Some (encoded (cmd @ [0]) [] [])"
    by (simp add: add.commute)
  then have b': "Option.bind (builder_new (size_of cmd + 1)) (\<lambda>b. Option.bind (add_key 1 b (cmd @ [0]) (size_of cmd + 1)) f) = f (encoded (cmd @ [0]) [] [])" for f :: "msg \<Rightarrow> 'z option"
    by (simp flip: bind_assoc)
  show ?thesis
    unfolding send_cmd_def b' sends_def using r
    by (simp add: create_rep_context_def ctx_at_def builder_finish_def comp_def) blast
qed

section \<open>The groups of a thread\<close>

lemma order_in_range:
  assumes view: "node_view N x u infos"
  shows "\<forall>(us, a, b) \<in> set (snd (permutations u infos)). us \<longrightarrow> a < length infos \<and> b < length infos"
proof -
  have "a' < length infos \<and> b' < length infos"
    if abc: "(a, b, c) \<in> set (all_triples N)"
      and g: "group_of (fst (tag_of x u (sort infos) a)) (fst (tag_of x u (sort infos) b)) (fst (tag_of x u (sort infos) c)) = (True, a', b')"
    for a b c a' b'
  proof (cases "x \<in> {a, b, c}")
    case True
    then show ?thesis using group_of_tags [OF view abc] g by (auto simp: group_nodes_def split: if_splits)
  next
    case False
    then show ?thesis using g by (auto simp: group_of_def tag_of_def split: if_splits)
  qed
  then show ?thesis unfolding permutations_view [OF view] by auto
qed

text \<open>The sessions of a group are one for each of the two other members.\<close>

definition group_at :: "(string \<Rightarrow> int) \<Rightarrow> string \<Rightarrow> string \<times> string \<times> string \<Rightarrow> int list \<Rightarrow> bool" where
  "group_at session x t g \<longleftrightarrow> (case t of (a, b, c) \<Rightarrow>
     if x \<in> {a, b, c} then \<exists>p q. g = [session p, session q] \<and> {x, p, q} = {a, b, c} else g = [])"

lemma group_sessions_at:
  assumes view: "node_view N x u infos" and rs: "map ri_session_id rs = map session (fst (permutations u infos))"
  shows "list_all2 (group_at session x) (all_triples N) (map (group_sessions rs) (snd (permutations u infos)))"
proof (rule list_all2_all_nthI)
  show len: "length (all_triples N) = length (map (group_sessions rs) (snd (permutations u infos)))"
    by (simp add: permutations_view [OF view])
  fix n assume "n < length (all_triples N)"
  then have n: "n < length (snd (permutations u infos))" using len by simp
  have infos: "length rs = length infos" "fst (permutations u infos) = sort infos"
    using arg_cong [OF rs, of length] by (simp_all add: permutations_def Let_def)
  have at: "ri_session_id (rs ! i) = session (sort infos ! i)" if "i < length infos" for i
    using arg_cong [OF rs, of "\<lambda>l. l ! i"] that infos by simp
  obtain a b c where t: "all_triples N ! n = (a, b, c)" by (cases "all_triples N ! n") auto
  obtain us p q where g: "snd (permutations u infos) ! n = (us, p, q)" by (cases "snd (permutations u infos) ! n") auto
  have "(us, p, q) \<in> set (snd (permutations u infos))" using g nth_mem [OF n] by simp
  then have range: "us \<Longrightarrow> p < length infos \<and> q < length infos" using order_in_range [OF view] by auto
  have "group_nodes x (sort infos) (us, p, q) = (if x \<in> {a, b, c} then Some {a, b, c} else None)"
    using group_entry(2) [OF view n] t g infos(2) by simp
  then have "if x \<in> {a, b, c} then us \<and> {x, sort infos ! p, sort infos ! q} = {a, b, c} else \<not> us"
    using range by (auto simp: group_nodes_def split: if_splits)
  then show "group_at session x (all_triples N ! n) (map (group_sessions rs) (snd (permutations u infos)) ! n)"
    using n g t range at by (auto simp: group_at_def group_sessions_def split: if_splits)
qed

section \<open>A whole run\<close>

text \<open>
  What a thread relies on: its peers connect, and they finish and acknowledge its \<open>DONE\<close>; the requests and
  responses handled on the way keep the state well-formed, and the operations of the trace complete.
\<close>

definition peers_ok :: "rpc_env \<Rightarrow> nat \<Rightarrow> bool" where
  "peers_ok rpc n \<longleftrightarrow> (\<forall>sid. True \<in> set (rp_is_connected rpc sid)) \<and> of_nat n \<in> set (rp_connected rpc) \<and>
     (\<exists>(f, k) \<in> set (rp_progress rpc). n \<le> f \<and> n \<le> k)"

definition drains :: "(nat \<Rightarrow> 's abd \<Rightarrow> 's abd) \<Rightarrow> nat \<Rightarrow> bool" where
  "drains between n \<longleftrightarrow> (\<forall>st. ab_current_traces (between (Suc n) st) = 0)"

lemma progress_ends:
  assumes "peers_ok rpc n"
  shows "\<exists>i. wait_until (map (\<lambda>(f, k). \<not> bench_waits n f k) (rp_progress rpc)) = Some i"
  using assms by (intro wait_until_ends) (force simp: peers_ok_def bench_waits_def not_less)

lemma sends_requests:
  assumes "sends env st c cid reps rt cont k v st'" "y \<in> set reps"
  shows "\<exists>q. Enqueue_request q \<in> set (ab_out st') \<and> rq_session q = y \<and> rq_type q = rt \<and> packet_of env st (rq_buf q) k v"
proof -
  obtain i where "i < length reps" "reps ! i = y" using assms(2) by (auto simp: in_set_conv_nth)
  then show ?thesis using assms(1) by (fastforce simp: sends_def set_ctx_def)
qed

lemma thread_connects:
  assumes "harmless env between" and view: "node_view N x u infos" and a: "ar_replica_info a = fst (permutations u infos)"
    and peers: "peers_ok rpc (length infos)"
    and st: "abd_wf env st" "ab_replicas st = []" "ab_replicas_infos st =
      map (\<lambda>r. \<lparr>ri_session_id = 0, ri_base_id = local_id mod get_n_threads_from_svr_info r, ri_uri = get_uri_from_server_info r\<rparr>) (ar_replica_info a)"
  obtains st' where
    "Option.bind (abd_init (rp_create_session rpc) (rp_is_connected rpc) (rp_connected rpc) st)
       (\<lambda>st. replica_ordering (snd (permutations u infos)) (between 0 st)) = Some st'"
    "abd_wf env st'" "map ri_session_id (ab_replicas_infos st') = map (session_of rpc local_id) (ar_replica_info a)"
    "list_all2 (group_at (session_of rpc local_id) x) (all_triples N) (ab_replicas st')"
proof -
  let ?order = "snd (permutations u infos)"
  have I: "ar_replica_info a = sort infos" using a by (simp add: permutations_def Let_def)
  obtain rs where rs: "abd_init (rp_create_session rpc) (rp_is_connected rpc) (rp_connected rpc) st = Some (st\<lparr>ab_replicas_infos := rs\<rparr>)"
    "map ri_session_id rs = map (session_of rpc local_id) (ar_replica_info a)"
    using abd_init_sessions [of rpc a st local_id] st(3) peers I by (auto simp: peers_ok_def)
  have len: "length rs = length infos" using arg_cong [OF rs(2), of length] I by simp
  let ?b = "between 0 (st\<lparr>ab_replicas_infos := rs\<rparr>)"
  have b: "abd_wf env ?b" "ab_replicas ?b = []" "ab_replicas_infos ?b = rs"
    using assms(1) st by (simp_all add: harmless_def abd_wf_def)
  have "replica_ordering ?order ?b = Some (?b\<lparr>ab_replicas := map (group_sessions rs) ?order\<rparr>)"
    using replica_ordering_all [of ?order ?b] order_in_range [OF view] b len by simp
  then show thesis
    using b rs group_sessions_at [OF view, of rs "session_of rpc local_id"] a
    by (intro that [of "?b\<lparr>ab_replicas := map (group_sessions rs) ?order\<rparr>"]) (simp_all add: abd_wf_def)
qed

lemma server_thread_total:
  assumes ok: "penv_ok env cap" "\<forall>i. ev_ok env (evs i)" "harmless env between"
    and store: "kv_wf (pe_kv env) kv" "key_iv_wf cipher"
    and view: "node_view N x u infos" "all_triples N \<noteq> []"
    and a: "ar_replica_info a = fst (permutations u infos)" "\<forall>r \<in> set infos. get_n_threads_from_svr_info r \<noteq> 0"
      "ar_key_size a = 8" "unat (ar_value_size a) \<le> cap" "unat (ar_value_size a) + 52 < 2 ^ 64"
    and peers: "peers_ok rpc (length infos)" "drains between (length (segment trace seg))" "infos \<noteq> []"
    and trace: "fst seg \<noteq> snd seg" "\<forall>t \<in> set trace. length (tc_key_hash t) = 8"
  shows "\<exists>st'. server_thread env evs between rpc base_id local_id kv a cipher (snd (permutations u infos)) trace seg = Some st' \<and>
    abd_wf env st' \<and> list_all2 (group_at (session_of rpc local_id) x) (all_triples N) (ab_replicas st') \<and>
    (\<forall>y \<in> set infos. \<exists>q. Enqueue_request q \<in> set (ab_out st') \<and> rq_session q = session_of rpc local_id y \<and> rq_type q = Cmd)"
proof -
  let ?ts = "segment trace seg" and ?order = "snd (permutations u infos)"
  have I: "ar_replica_info a = sort infos" using a(1) by (simp add: permutations_def Let_def)
  obtain reps where reps: "server_replicas local_id (ar_replica_info a) = Some reps"
    "reps = map (\<lambda>r. \<lparr>ri_session_id = 0, ri_base_id = local_id mod get_n_threads_from_svr_info r,
      ri_uri = get_uri_from_server_info r\<rparr>) (ar_replica_info a)"
    using server_replicas_all [of "ar_replica_info a" local_id] a(2) I by simp
  define st where "st = abd_new (ar_value_size a) (ucast base_id) kv reps local_id cipher"
  have st: "abd_wf env st" "ab_replicas st = []" "ab_replicas_infos st = reps"
    using store by (simp_all add: st_def abd_new_def abd_wf_def)
  obtain sc where sc: "Option.bind (abd_init (rp_create_session rpc) (rp_is_connected rpc) (rp_connected rpc) st)
       (\<lambda>st. replica_ordering ?order (between 0 st)) = Some sc"
    "abd_wf env sc" "map ri_session_id (ab_replicas_infos sc) = map (session_of rpc local_id) (ar_replica_info a)"
    "list_all2 (group_at (session_of rpc local_id) x) (all_triples N) (ab_replicas sc)"
    by (rule thread_connects [OF ok(3) view(1) a(1) peers(1) st(1,2) st(3) [unfolded reps(2)]]) (rule that)
  have ne: "ab_replicas sc \<noteq> []" using view(2) list_all2_lengthD [OF sc(4)] by auto
  have ts: "\<forall>t \<in> set ?ts. length (tc_key_hash t) = 8" using trace(2) by (auto dest: in_set_takeD in_set_dropD)
  obtain si where si: "issue_all env evs between a 1 sc ?ts = Some si" "abd_wf env si"
    "ab_replicas si = ab_replicas sc" "ab_replicas_infos si = ab_replicas_infos sc"
    using issue_all_total [OF ok a(3-5) sc(2) ne ts, of 1] by auto
  let ?d = "between (Suc (length ?ts)) si"
  have d: "abd_wf env ?d" "ab_replicas ?d = ab_replicas sc" "ab_replicas_infos ?d = ab_replicas_infos sc" "ab_current_traces ?d = 0"
    using ok(3) si peers(2) by (auto simp: harmless_def drains_def)
  have "ab_replicas_infos ?d \<noteq> []" using d(3) arg_cong [OF sc(3), of length] I peers(3) by auto
  then obtain se where se: "send_cmd env (evs (Suc (length ?ts))) ?d DONE = Some se"
    "sends env (?d\<lparr>ab_ctxs := ab_ctxs ?d @ [rc_create (ab_max_package_size ?d) None]\<rparr>) (rc_create (ab_max_package_size ?d) None)
      (length (ab_ctxs ?d)) (map ri_session_id (ab_replicas_infos sc)) Cmd CmdRet (DONE @ [0]) [] se"
    using send_cmd_sends [OF ok(1) d(1), of "evs (Suc (length ?ts))" DONE] ok(2) d(3) by (auto simp: DONE_def)
  obtain i where "wait_until (map (\<lambda>(f, k). \<not> bench_waits (length (ar_replica_info a)) f k) (rp_progress rpc)) = Some i"
    using progress_ends [OF peers(1)] I by auto
  then have "server_thread env evs between rpc base_id local_id kv a cipher ?order trace seg = Some se"
    using reps(1) sc(1) si(1) d(4) se(1) trace(1)
    by (auto simp: server_thread_def run_event_loop_def st_def [symmetric] Let_def bind_eq_Some_conv)
  moreover have "abd_wf env se" "ab_replicas se = ab_replicas sc"
    using sendsD(1,5) [OF se(2)] d(1,2) by (simp_all add: abd_wf_def)
  moreover have "\<forall>y \<in> set infos. \<exists>q. Enqueue_request q \<in> set (ab_out se) \<and> rq_session q = session_of rpc local_id y \<and> rq_type q = Cmd"
    using sends_requests [OF se(2)] I sc(3) by fastforce
  ultimately show ?thesis using sc(4) by auto
qed

end
