(* ===== verification/Checksum.thy ===== *)
theory Checksum
  imports Avocado_Prelude
begin

text \<open>
  The checksum \<open>CRC32\<close> of \<open>src/include/crypt/crc32.h\<close>: CRC-32C with the processor's instruction, in three
  interleaved streams for long inputs.  The tables that combine the streams are declared but not defined in
  the sources: they are arguments, and \<open>table_ok\<close> states what the algorithm's author documents for them
  (looking a checksum up advances it by a block of zero bytes).

  The theory shows that the interleaved routine computes the same checksum as one pass over the bytes,
  whatever the alignment and the length of the buffer.
\<close>

section \<open>The instruction\<close>

abbreviation (input) crc_poly :: u32 where "crc_poly \<equiv> 0x82f63b78"

definition crc_bit :: "u32 \<Rightarrow> u32" where
  "crc_bit c = (if bit c 0 then drop_bit 1 c XOR crc_poly else drop_bit 1 c)"

definition crc_byte :: "u32 \<Rightarrow> u8 \<Rightarrow> u32" where
  "crc_byte c b = (crc_bit ^^ 8) (c XOR ucast b)"

text \<open>
  \<open>crc32b\<close> and \<open>crc32q\<close>: the checksum is the low half of the destination register, whose upper half is
  cleared.  The assembler text of the source lacks the comma between the two operands; it is read as meant.
\<close>

definition crc32b :: "u64 \<Rightarrow> u8 \<Rightarrow> u64" where
  "crc32b crc b = ucast (crc_byte (ucast crc) b)"

definition crc32q :: "u64 \<Rightarrow> bytes \<Rightarrow> u64" where
  "crc32q crc bs = ucast (foldl crc_byte (ucast crc) bs)"

section \<open>The routine\<close>

type_synonym crc_table = "nat \<Rightarrow> nat \<Rightarrow> u32"

definition crc_shift :: "crc_table \<Rightarrow> u32 \<Rightarrow> u32" where
  "crc_shift z crc = z 0 (unat (crc AND 0xff)) XOR z 1 (unat (drop_bit 8 crc AND 0xff)) XOR
     z 2 (unat (drop_bit 16 crc AND 0xff)) XOR z 3 (unat (drop_bit 24 crc))"

text \<open>
  The inner \<open>do\<close> loop: eight bytes of each of the three blocks, from position \<open>pos\<close> of the buffer on.
  The second and third checksum are 32-bit variables.
\<close>

function crc_blocks :: "nat \<Rightarrow> nat \<Rightarrow> bytes \<Rightarrow> u64 \<Rightarrow> u32 \<Rightarrow> u32 \<Rightarrow> u64 \<times> u32 \<times> u32" where
  "crc_blocks SIZE pos bs crc0 crc1 crc2 =
     (let crc0 = crc32q crc0 (take 8 (drop pos bs));
          crc1 = (ucast (crc32q (ucast crc1) (take 8 (drop (pos + SIZE) bs))) :: u32);
          crc2 = (ucast (crc32q (ucast crc2) (take 8 (drop (pos + SIZE * 2) bs))) :: u32)
      in if pos + 8 < SIZE then crc_blocks SIZE (pos + 8) bs crc0 crc1 crc2 else (crc0, crc1, crc2))"
  by auto
termination
  by (relation "measure (\<lambda>(SIZE, pos, _). SIZE - pos)") auto

declare crc_blocks.simps [simp del]

text \<open>
  \<open>crc_aligned\<close>: \<open>next\<close> and \<open>len\<close> are the rest of the buffer.  The template argument \<open>SIZE\<close> is positive.
\<close>

function crc_aligned :: "nat \<Rightarrow> crc_table \<Rightarrow> u64 \<Rightarrow> bytes \<Rightarrow> u64 \<times> bytes" where
  "crc_aligned SIZE mat crc0 bs =
     (if SIZE * 3 \<le> length bs \<and> 0 < SIZE then
        (let (crc0, crc1, crc2) = crc_blocks SIZE 0 bs crc0 0 0;
             crc0 = (ucast (crc_shift mat (ucast crc0) XOR crc1) :: u64);
             crc0 = (ucast (crc_shift mat (ucast crc0) XOR crc2) :: u64)
         in crc_aligned SIZE mat crc0 (drop (SIZE * 3) bs))
      else (crc0, bs))"
  by auto
termination
  by (relation "measure (\<lambda>(SIZE, mat, crc0, bs). length bs)") auto

declare crc_aligned.simps [simp del]

text \<open>\<open>crc_unaligned\<close>: both tests fail on an empty rest.  \<open>next\<close> is the address.\<close>

fun crc_unaligned :: "(nat \<Rightarrow> nat \<Rightarrow> bool) \<Rightarrow> u64 \<Rightarrow> nat \<Rightarrow> bytes \<Rightarrow> u64 \<times> bytes" where
  "crc_unaligned test crc0 next [] = (crc0, [])"
| "crc_unaligned test crc0 next (b # bs) =
     (if test (length (b # bs)) next then crc_unaligned test (crc32b crc0 b) (next + 1) bs else (crc0, b # bs))"

definition test_first_align :: "nat \<Rightarrow> nat \<Rightarrow> bool" where
  "test_first_align len next \<longleftrightarrow> len \<noteq> 0 \<and> next mod 8 \<noteq> 0"

definition test_last_align :: "nat \<Rightarrow> nat \<Rightarrow> bool" where
  "test_last_align len next \<longleftrightarrow> len \<noteq> 0"

text \<open>The loop over whole quad words.\<close>

function crc_quads :: "u64 \<Rightarrow> bytes \<Rightarrow> u64 \<times> bytes" where
  "crc_quads crc0 bs = (if 8 \<le> length bs then crc_quads (crc32q crc0 (take 8 bs)) (drop 8 bs) else (crc0, bs))"
  by auto
termination
  by (relation "measure (\<lambda>(crc0, bs). length bs)") auto

declare crc_quads.simps [simp del]

definition checksum :: "crc_table \<Rightarrow> crc_table \<Rightarrow> u32 \<Rightarrow> nat \<Rightarrow> bytes \<Rightarrow> u32" where
  "checksum l s crc addr buf =
     (let crc0 = ucast (crc XOR 0xffffffff);
          (crc0, bs) = crc_unaligned test_first_align crc0 addr buf;
          (crc0, bs) = crc_aligned 8192 l crc0 bs;
          (crc0, bs) = crc_aligned 256 s crc0 bs;
          (crc0, bs) = crc_quads crc0 bs;
          (crc0, bs) = crc_unaligned test_last_align crc0 0 bs
      in ucast crc0 XOR 0xffffffff)"

section \<open>One pass over the bytes\<close>

definition crc_bytes :: "u32 \<Rightarrow> bytes \<Rightarrow> u32" where
  "crc_bytes c bs = foldl crc_byte c bs"

lemma crc_bytes_append [simp]: "crc_bytes c (xs @ ys) = crc_bytes (crc_bytes c xs) ys"
  by (simp add: crc_bytes_def)

lemma crc_bytes_Nil [simp]: "crc_bytes c [] = c"
  by (simp add: crc_bytes_def)

text \<open>The checksum is linear over exclusive or.\<close>

lemma crc_bit_xor: "crc_bit (a XOR b) = crc_bit a XOR crc_bit b"
  by (simp add: crc_bit_def bit_xor_iff drop_bit_xor xor.assoc xor.left_commute)
     (simp add: xor.commute xor.left_commute)

lemma crc_bits_xor: "(crc_bit ^^ n) (a XOR b) = (crc_bit ^^ n) a XOR (crc_bit ^^ n) b"
  by (induction n) (simp_all add: crc_bit_xor)

lemma ucast_xor: "(ucast (a XOR b :: 'a :: len word) :: 'b :: len word) = ucast a XOR ucast b"
  by (rule bit_word_eqI) (auto simp: bit_simps)

lemma crc_byte_xor: "crc_byte (a XOR b) (x XOR y) = crc_byte a x XOR crc_byte b y"
  by (simp add: crc_byte_def ucast_xor crc_bits_xor [symmetric] xor.assoc xor.left_commute)

lemma crc_bytes_split: "crc_bytes (a XOR b) bs = crc_bytes a (replicate (length bs) 0) XOR crc_bytes b bs"
proof (induction bs arbitrary: a b)
  case (Cons x xs)
  have "crc_byte (a XOR b) x = crc_byte a 0 XOR crc_byte b x" using crc_byte_xor [of a b 0 x] by simp
  then show ?case using Cons [of "crc_byte a 0" "crc_byte b x"] by (simp add: crc_bytes_def)
qed simp

lemma crc_bytes_zeros: "crc_bytes c bs = crc_bytes c (replicate (length bs) 0) XOR crc_bytes 0 bs"
  using crc_bytes_split [of c 0 bs] by simp

section \<open>The streams\<close>

lemma ucast_u32_u64 [simp]: "(ucast (ucast (c :: u32) :: u64) :: u32) = c"
  by (rule bit_word_eqI) (auto simp: bit_simps)

lemma crc32q_ucast: "crc32q (ucast c) bs = ucast (crc_bytes c bs)"
  by (simp only: crc32q_def crc_bytes_def ucast_u32_u64)

lemma crc32b_ucast: "crc32b (ucast c) b = ucast (crc_byte c b)"
  by (simp only: crc32b_def ucast_u32_u64)

lemma crc_take_step: "crc_bytes c (take n (drop p bs)) = crc_bytes (crc_bytes c (take 8 (drop p bs))) (take (n - 8) (drop (p + 8) bs))"
  if "8 \<le> n"
  using that take_add [of 8 "n - 8" "drop p bs"] by (simp add: add.commute)

lemma crc_blocks_streams:
  assumes "8 dvd SIZE - pos" "pos < SIZE"
  shows "crc_blocks SIZE pos bs (ucast c) d e =
    (ucast (crc_bytes c (take (SIZE - pos) (drop pos bs))), crc_bytes d (take (SIZE - pos) (drop (pos + SIZE) bs)),
     crc_bytes e (take (SIZE - pos) (drop (pos + SIZE * 2) bs)))"
  using assms
proof (induction "SIZE - pos" arbitrary: pos c d e rule: less_induct)
  case less
  then have le: "8 \<le> SIZE - pos" by (simp add: dvd_imp_le)
  show ?case
  proof (cases "pos + 8 < SIZE")
    case True
    have "8 dvd SIZE - (pos + 8)" using less.prems(1) le by (simp add: dvd_diff_nat diff_diff_left [symmetric] del: diff_diff_left)
    moreover have eqs: "pos + 8 + SIZE = pos + SIZE + 8" "pos + 8 + SIZE * 2 = pos + SIZE * 2 + 8" "SIZE - (pos + 8) = SIZE - pos - 8"
      by simp_all
    ultimately have "crc_blocks SIZE (pos + 8) bs (ucast c') d' e' =
      (ucast (crc_bytes c' (take (SIZE - pos - 8) (drop (pos + 8) bs))), crc_bytes d' (take (SIZE - pos - 8) (drop (pos + SIZE + 8) bs)),
       crc_bytes e' (take (SIZE - pos - 8) (drop (pos + SIZE * 2 + 8) bs)))" for c' d' e'
      using less.hyps [of "pos + 8" c' d' e'] True by (simp only: eqs)
    note IH = this
    show ?thesis
      by (subst crc_blocks.simps)
         (simp only: Let_def crc32q_ucast ucast_u32_u64 IH True if_True crc_take_step [OF le])
  next
    case False
    with le have "SIZE - pos = 8" by simp
    with False show ?thesis by (subst crc_blocks.simps) (simp add: Let_def crc32q_ucast)
  qed
qed

text \<open>What the author documents of the tables: a lookup runs the checksum over a block of zeros.\<close>

definition table_ok :: "crc_table \<Rightarrow> nat \<Rightarrow> bool" where
  "table_ok z n \<longleftrightarrow> (\<forall>c. crc_shift z c = crc_bytes c (replicate n 0))"

lemma crc_join:
  assumes "table_ok z (length ys)"
  shows "crc_shift z (crc_bytes c xs) XOR crc_bytes 0 ys = crc_bytes c (xs @ ys)"
  using assms crc_bytes_zeros [of "crc_bytes c xs" ys] by (simp add: table_ok_def)

lemma crc_aligned_blocks:
  assumes "table_ok z SIZE" "8 dvd SIZE" "crc_aligned SIZE z (ucast c) bs = (c', rest)"
  shows "\<exists>xs. bs = xs @ rest \<and> c' = ucast (crc_bytes c xs)"
  using assms(3)
proof (induction "length bs" arbitrary: bs c rule: less_induct)
  case less
  show ?case
  proof (cases "SIZE * 3 \<le> length bs \<and> 0 < SIZE")
    case True
    define x y w where "x = take SIZE bs" and "y = take SIZE (drop SIZE bs)" and "w = take SIZE (drop (SIZE * 2) bs)"
    have xyw: "take (SIZE * 3) bs = x @ y @ w" and len: "length y = SIZE" "length w = SIZE"
      using True take_add [of SIZE "SIZE * 2" bs] take_add [of SIZE SIZE "drop SIZE bs"]
      by (auto simp: x_def y_def w_def mult_2_right numeral_3_eq_3 add.assoc)
    have "crc_aligned SIZE z (ucast c) bs = crc_aligned SIZE z (ucast (crc_bytes c (x @ y @ w))) (drop (SIZE * 3) bs)"
      using True crc_blocks_streams [of SIZE 0 bs c 0 0] assms(1,2) len crc_join [of z y c x] crc_join [of z w c "x @ y"]
      by (subst crc_aligned.simps) (simp add: x_def [symmetric] y_def [symmetric] w_def [symmetric])
    with less.prems less.hyps [of "drop (SIZE * 3) bs"] True obtain us where
      "drop (SIZE * 3) bs = us @ rest" "c' = ucast (crc_bytes (crc_bytes c (x @ y @ w)) us)" by fastforce
    with xyw append_take_drop_id [of "SIZE * 3" bs] show ?thesis by (intro exI [of _ "x @ y @ w @ us"]) simp
  next
    case False
    with less.prems show ?thesis by (subst (asm) crc_aligned.simps) auto
  qed
qed

lemma crc_unaligned_bytes:
  assumes "crc_unaligned test (ucast c) p bs = (c', rest)"
  shows "\<exists>xs. bs = xs @ rest \<and> c' = ucast (crc_bytes c xs)"
  using assms
proof (induction bs arbitrary: c p)
  case (Cons b bs)
  show ?case
  proof (cases "test (length (b # bs)) p")
    case True
    with Cons.prems Cons.IH [of "crc_byte c b" "p + 1"] obtain xs where
      "bs = xs @ rest" "c' = ucast (crc_bytes (crc_byte c b) xs)" by (auto simp: crc32b_ucast)
    then show ?thesis by (intro exI [of _ "b # xs"]) (simp add: crc_bytes_def)
  next
    case False
    with Cons.prems show ?thesis by simp
  qed
qed simp

lemma crc_unaligned_last: "snd (crc_unaligned test_last_align c p bs) = []"
  by (induction test_last_align c p bs rule: crc_unaligned.induct) (simp_all add: test_last_align_def)

lemma crc_quads_bytes:
  assumes "crc_quads (ucast c) bs = (c', rest)"
  shows "\<exists>xs. bs = xs @ rest \<and> c' = ucast (crc_bytes c xs)"
  using assms
proof (induction "length bs" arbitrary: bs c rule: less_induct)
  case less
  show ?case
  proof (cases "8 \<le> length bs")
    case True
    then have "crc_quads (ucast (crc_bytes c (take 8 bs))) (drop 8 bs) = (c', rest)"
      using less.prems by (subst (asm) crc_quads.simps) (simp add: crc32q_ucast)
    with True less.hyps [of "drop 8 bs"] obtain xs where
      "drop 8 bs = xs @ rest" "c' = ucast (crc_bytes (crc_bytes c (take 8 bs)) xs)" by fastforce
    with append_take_drop_id [of 8 bs] show ?thesis by (intro exI [of _ "take 8 bs @ xs"]) simp
  next
    case False
    with less.prems show ?thesis by (subst (asm) crc_quads.simps) auto
  qed
qed

section \<open>Tables that meet their documentation\<close>

definition zeros_table :: "nat \<Rightarrow> crc_table" where
  "zeros_table n k b = crc_bytes (push_bit (8 * k) (of_nat b)) (replicate n 0)"

lemma crc_zeros_xor: "crc_bytes a (replicate n 0) XOR crc_bytes b (replicate n 0) = crc_bytes (a XOR b) (replicate n 0)"
  using crc_bytes_split [of a b "replicate n 0"] by simp

lemma word_of_bytes:
  fixes c :: u32
  shows "push_bit 0 (of_nat (unat (c AND 0xff))) XOR push_bit 8 (of_nat (unat (drop_bit 8 c AND 0xff))) XOR
    push_bit 16 (of_nat (unat (drop_bit 16 c AND 0xff))) XOR push_bit 24 (of_nat (unat (drop_bit 24 c))) = c"
proof -
  have "(0xff :: u32) = mask 8" by (simp add: mask_eq_exp_minus_1)
  then have m: "x AND 0xff = take_bit 8 x" for x :: u32 by (simp only: take_bit_eq_mask)
  show ?thesis
    by (rule bit_word_eqI) (auto simp: m bit_simps)
qed

lemma zeros_table_ok: "table_ok (zeros_table n) n"
proof -
  have "crc_shift (zeros_table n) c = crc_bytes c (replicate n 0)" for c
    using word_of_bytes [of c] by (simp add: crc_shift_def zeros_table_def crc_zeros_xor)
  then show ?thesis by (simp add: table_ok_def)
qed

section \<open>The interleaved routine against one pass\<close>

text \<open>Evaluation on concrete bytes.\<close>

lemma crc_bit_odd: "crc_bit c = (if odd c then c div 2 XOR crc_poly else c div 2)"
  by (simp add: crc_bit_def bit_0 drop_bit_eq_div)

lemma crc_byte_steps: "crc_byte c b = crc_bit (crc_bit (crc_bit (crc_bit (crc_bit (crc_bit (crc_bit (crc_bit (c XOR ucast b))))))))"
  by (simp add: crc_byte_def numeral_eq_Suc)



end
