(* ===== verification/Buffer_Lifetime.thy ===== *)
theory Buffer_Lifetime
  imports Avocado_Prelude
begin

text \<open>
  Who releases the message buffers of a fan-out: \<open>NodeReplicaContext\<close>, \<open>NodeDeleter\<close> and the destructors of
  \<open>src/include/protocol/abd/replica_context.h\<close>, and \<open>free_msg_buffer\<close> of \<open>rpc_context.h\<close>.  A context owns its nodes
  and every node holds a reference to the context, so the context lives until the function that created it
  has returned and every node was removed by its continuation.  Buffers are identified by the pointer that eRPC
  returned; the calls of eRPC's \<open>free_msg_buffer\<close> are logged.

  The theory shows that in whatever order the continuations run, no buffer is released while it is in use, and
  at the end every buffer has been released exactly once.
\<close>

section \<open>Contexts, nodes and references\<close>

text \<open>The pointer \<open>buf\<close> of a message buffer, \<open>None\<close> for the null pointer.\<close>

type_synonym buf_ptr = "nat option"

text \<open>\<open>nc_parent\<close>: whether the shared pointer to the context is set.\<close>

record node_ctx =
  nc_parent :: bool
  nc_req :: buf_ptr
  nc_resp :: buf_ptr

text \<open>
  \<open>cl_held\<close>: whether the function that created the context still has its shared pointer; \<open>cl_alive\<close>: whether
  the context has not been destroyed; \<open>cl_freed\<close>: the buffers given back to eRPC, in order.
\<close>

record ctx_life =
  cl_nodes :: "node_ctx list"
  cl_cache :: "buf_ptr list"
  cl_held :: bool
  cl_alive :: bool
  cl_freed :: "nat list"

definition life_new :: ctx_life where
  "life_new = \<lparr>cl_nodes = [], cl_cache = [], cl_held = True, cl_alive = True, cl_freed = []\<rparr>"

definition free_msg_buffer :: "buf_ptr \<Rightarrow> nat list \<Rightarrow> buf_ptr \<times> nat list" where
  "free_msg_buffer buf freed = (case buf of None \<Rightarrow> (None, freed) | Some b \<Rightarrow> (None, freed @ [b]))"

text \<open>The destructor of a node and \<open>remove\<close>.\<close>

definition node_destroy :: "nat list \<Rightarrow> node_ctx \<Rightarrow> nat list" where
  "node_destroy freed n =
     (if \<not> nc_parent n then freed
      else snd (free_msg_buffer (nc_resp n) (snd (free_msg_buffer (nc_req n) freed))))"

definition node_remove :: "node_ctx \<Rightarrow> nat list \<Rightarrow> node_ctx \<times> nat list" where
  "node_remove n freed =
     (if \<not> nc_parent n then (n, freed)
      else let (req, freed) = free_msg_buffer (nc_req n) freed;
               (resp, freed) = free_msg_buffer (nc_resp n) freed
           in (\<lparr>nc_parent = False, nc_req = req, nc_resp = resp\<rparr>, freed))"

text \<open>The destructor of the context: the cached responses, then the nodes.\<close>

definition ctx_destroy :: "ctx_life \<Rightarrow> ctx_life" where
  "ctx_destroy c =
     (let freed = foldl (\<lambda>freed buf. snd (free_msg_buffer buf freed)) (cl_freed c) (cl_cache c);
          freed = foldl node_destroy freed (cl_nodes c)
      in c\<lparr>cl_nodes := [], cl_cache := [], cl_alive := False, cl_freed := freed\<rparr>)"

text \<open>The context is destroyed with the last reference to it.\<close>

definition drop_ref :: "ctx_life \<Rightarrow> ctx_life" where
  "drop_ref c = (if cl_held c \<or> list_ex nc_parent (cl_nodes c) then c else ctx_destroy c)"

section \<open>What happens to a context\<close>

text \<open>\<open>create_buffers\<close>: \<open>alloc k\<close> is the pointer that eRPC returns for the \<open>k\<close>-th allocation.\<close>

definition life_create_buffers :: "(nat \<Rightarrow> nat) \<Rightarrow> nat \<Rightarrow> ctx_life \<Rightarrow> ctx_life" where
  "life_create_buffers alloc n_msgs c =
     c\<lparr>cl_nodes := map (\<lambda>i. \<lparr>nc_parent = True, nc_req = Some (alloc (2 * i)), nc_resp = Some (alloc (2 * i + 1))\<rparr>) [0..<n_msgs]\<rparr>"

text \<open>The buffer part of \<open>add_to_cache\<close>: the response moves from the node into the cache.\<close>

definition move_to_cache :: "nat \<Rightarrow> ctx_life \<Rightarrow> ctx_life" where
  "move_to_cache i c = c\<lparr>cl_cache := cl_cache c @ [nc_resp (cl_nodes c ! i)],
     cl_nodes := (cl_nodes c)[i := (cl_nodes c ! i)\<lparr>nc_resp := None\<rparr>]\<rparr>"

text \<open>
  The creating function returns, or the continuation of a node runs: \<open>req_conts\<close> takes the node, moves its
  response and at the end the deleter removes the node.  Using a destroyed context or a removed node has no
  result.
\<close>

datatype life_event = Scope_end | Cont nat

fun life_step :: "life_event \<Rightarrow> ctx_life \<Rightarrow> ctx_life option" where
  "life_step Scope_end c = do {
     _ \<leftarrow> assert_that (cl_alive c \<and> cl_held c);
     Some (drop_ref (c\<lparr>cl_held := False\<rparr>))
   }"
| "life_step (Cont i) c = do {
     _ \<leftarrow> assert_that (cl_alive c \<and> i < length (cl_nodes c) \<and> nc_parent (cl_nodes c ! i));
     let c = move_to_cache i c;
     let (n, freed) = node_remove (cl_nodes c ! i) (cl_freed c);
     Some (drop_ref (c\<lparr>cl_nodes := (cl_nodes c)[i := n], cl_freed := freed\<rparr>))
   }"

fun life_run :: "life_event list \<Rightarrow> ctx_life \<Rightarrow> ctx_life option" where
  "life_run [] c = Some c"
| "life_run (e # es) c = Option.bind (life_step e c) (life_run es)"

lemma life_run_append: "life_run (xs @ ys) c = Option.bind (life_run xs c) (life_run ys)"
  by (induction xs arbitrary: c) (auto simp: bind_eq_Some_conv split: bind_splits)

section \<open>The states on the way\<close>

definition in_use :: "ctx_life \<Rightarrow> nat set" where
  "in_use c = {b. Some b \<in> set (cl_cache c) \<or> (\<exists>n \<in> set (cl_nodes c). nc_req n = Some b \<or> nc_resp n = Some b)}"

text \<open>The state after the continuations of the nodes \<open>js\<close>, in this order.\<close>

definition life_state :: "(nat \<Rightarrow> nat) \<Rightarrow> nat \<Rightarrow> bool \<Rightarrow> nat list \<Rightarrow> ctx_life" where
  "life_state alloc n held js =
     \<lparr>cl_nodes = map (\<lambda>i. if i \<in> set js then \<lparr>nc_parent = False, nc_req = None, nc_resp = None\<rparr>
        else \<lparr>nc_parent = True, nc_req = Some (alloc (2 * i)), nc_resp = Some (alloc (2 * i + 1))\<rparr>) [0..<n],
      cl_cache = map (\<lambda>i. Some (alloc (2 * i + 1))) js, cl_held = held, cl_alive = True,
      cl_freed = map (\<lambda>i. alloc (2 * i)) js\<rparr>"

lemma life_state_start: "life_create_buffers alloc n life_new = life_state alloc n True []"
  by (simp add: life_create_buffers_def life_new_def life_state_def)

lemma life_state_refs: "list_ex nc_parent (cl_nodes (life_state alloc n held js)) \<longleftrightarrow> \<not> {0..<n} \<subseteq> set js"
proof -
  have "list_ex nc_parent (cl_nodes (life_state alloc n held js)) \<longleftrightarrow> (\<exists>i \<in> {0..<n}. i \<notin> set js)"
    unfolding life_state_def by (auto simp: list_ex_iff simp del: if_image_distrib split: if_splits)
  then show ?thesis by auto
qed

lemma drop_ref_state:
  "drop_ref (life_state alloc n held js) =
    (if held \<or> \<not> {0..<n} \<subseteq> set js then life_state alloc n held js else ctx_destroy (life_state alloc n held js))"
proof -
  have "cl_held (life_state alloc n held js) = held" by (simp add: life_state_def)
  then show ?thesis by (simp only: drop_ref_def life_state_refs)
qed

definition conts :: "life_event list \<Rightarrow> nat list" where
  "conts evs = concat (map (\<lambda>e. case e of Scope_end \<Rightarrow> [] | Cont i \<Rightarrow> [i]) evs)"

lemma set_conts [simp]: "set (conts evs) = {i. Cont i \<in> set evs}"
  by (auto simp: conts_def split: life_event.splits)

lemma distinct_conts: "distinct evs \<Longrightarrow> distinct (conts evs)"
proof (induction evs)
  case (Cons e evs)
  then have "distinct (conts evs)" by simp
  then show ?case using Cons.prems set_conts [of evs] by (cases e) (auto simp: conts_def simp del: set_conts)
qed (simp add: conts_def)

lemma life_step_state:
  assumes "e \<notin> set evs" "e \<in> insert Scope_end (Cont ` {0..<n})"
  shows "life_step e (life_state alloc n (Scope_end \<notin> set evs) (conts evs)) =
    Some (drop_ref (life_state alloc n (Scope_end \<notin> set (evs @ [e])) (conts (evs @ [e]))))"
proof (cases e)
  case Scope_end
  then show ?thesis using assms(1) by (simp add: life_state_def conts_def)
next
  case (Cont i)
  let ?c = "life_state alloc n (Scope_end \<notin> set evs) (conts evs)"
  have i: "i < n" "i \<notin> set (conts evs)" using assms Cont by auto
  then have "nc_parent (cl_nodes ?c ! i)" "i < length (cl_nodes ?c)" "cl_alive ?c" by (simp_all add: life_state_def)
  moreover have "(cl_nodes ?c)[i := \<lparr>nc_parent = False, nc_req = None, nc_resp = None\<rparr>] =
      cl_nodes (life_state alloc n (Scope_end \<notin> set evs) (conts evs @ [i]))"
    using i by (intro nth_equalityI) (auto simp: life_state_def nth_list_update)
  ultimately show ?thesis
    using i Cont by (simp add: move_to_cache_def node_remove_def free_msg_buffer_def)
      (simp add: life_state_def conts_def)
qed

abbreviation all_events :: "nat \<Rightarrow> life_event set" where
  "all_events n \<equiv> insert Scope_end (Cont ` {0..<n})"

lemma life_run_incomplete:
  assumes "distinct evs" "set evs \<subset> all_events n"
  shows "life_run evs (life_create_buffers alloc n life_new) = Some (life_state alloc n (Scope_end \<notin> set evs) (conts evs))"
  using assms
proof (induction evs rule: rev_induct)
  case Nil
  then show ?case by (simp add: life_state_start conts_def)
next
  case (snoc e evs)
  have "Scope_end \<notin> set (evs @ [e]) \<or> \<not> {0..<n} \<subseteq> set (conts (evs @ [e]))" using snoc.prems by auto
  then have "drop_ref (life_state alloc n (Scope_end \<notin> set (evs @ [e])) (conts (evs @ [e]))) =
      life_state alloc n (Scope_end \<notin> set (evs @ [e])) (conts (evs @ [e]))"
    by (simp only: drop_ref_state if_True)
  moreover have "life_run evs (life_create_buffers alloc n life_new) = Some (life_state alloc n (Scope_end \<notin> set evs) (conts evs))"
    using snoc.prems by (intro snoc.IH) auto
  moreover have "e \<notin> set evs" "e \<in> all_events n" using snoc.prems by auto
  ultimately show ?case using life_step_state [of e evs n alloc] by (simp add: life_run_append)
qed

lemma alloc_eq:
  fixes alloc :: "nat \<Rightarrow> nat"
  assumes "inj alloc"
  shows "alloc (2 * a) = alloc (2 * b) \<longleftrightarrow> a = b" "alloc (Suc (2 * a)) = alloc (Suc (2 * b)) \<longleftrightarrow> a = b"
    "alloc (2 * a) \<noteq> alloc (Suc (2 * b))" "alloc (Suc (2 * b)) \<noteq> alloc (2 * a)"
proof -
  have "2 * a \<noteq> Suc (2 * b)" by presburger
  then show "alloc (2 * a) = alloc (2 * b) \<longleftrightarrow> a = b" "alloc (Suc (2 * a)) = alloc (Suc (2 * b)) \<longleftrightarrow> a = b"
    "alloc (2 * a) \<noteq> alloc (Suc (2 * b))" "alloc (Suc (2 * b)) \<noteq> alloc (2 * a)"
    using inj_eq [OF assms] by auto
qed

lemma distinct_buffers:
  fixes alloc :: "nat \<Rightarrow> nat"
  assumes "inj alloc" "distinct js"
  shows "distinct (map (\<lambda>i. alloc (2 * i)) js @ map (\<lambda>i. alloc (2 * i + 1)) js)"
  using assms(2) by (auto simp: distinct_map inj_on_def alloc_eq [OF assms(1)])

lemma in_use_state:
  assumes "inj alloc"
  shows "in_use (life_state alloc n held js) \<inter> set (cl_freed (life_state alloc n held js)) = {}"
  by (auto simp: in_use_def life_state_def alloc_eq [OF assms] split: if_splits)

lemma free_cache: "foldl (\<lambda>freed buf. snd (free_msg_buffer buf freed)) fs (map (\<lambda>i. Some (g i)) js) = fs @ map g js"
  by (induction js arbitrary: fs) (simp_all add: free_msg_buffer_def)

lemma destroy_gone: "\<forall>n \<in> set ns. \<not> nc_parent n \<Longrightarrow> foldl node_destroy fs ns = fs"
  by (induction ns arbitrary: fs) (simp_all add: node_destroy_def)

lemma ctx_destroy_state:
  assumes "{0..<n} \<subseteq> set js"
  shows "cl_freed (ctx_destroy (life_state alloc n held js)) = map (\<lambda>i. alloc (2 * i)) js @ map (\<lambda>i. alloc (2 * i + 1)) js"
    and "\<not> cl_alive (ctx_destroy (life_state alloc n held js))"
proof -
  have "\<forall>n \<in> set (cl_nodes (life_state alloc n held js)). \<not> nc_parent n" using assms by (auto simp: life_state_def)
  moreover have "cl_cache (life_state alloc n held js) = map (\<lambda>i. Some (alloc (2 * i + 1))) js"
    "cl_freed (life_state alloc n held js) = map (\<lambda>i. alloc (2 * i)) js" by (simp_all add: life_state_def)
  ultimately show "cl_freed (ctx_destroy (life_state alloc n held js)) = map (\<lambda>i. alloc (2 * i)) js @ map (\<lambda>i. alloc (2 * i + 1)) js"
    by (simp only: ctx_destroy_def Let_def free_cache destroy_gone) simp
qed (simp add: ctx_destroy_def Let_def)

lemma even_odd_image: "(\<lambda>i. 2 * i) ` {0..<n} \<union> (\<lambda>i. 2 * i + 1) ` {0..<n} = {0..<2 * n :: nat}"
proof -
  have "x \<in> (\<lambda>i. 2 * i) ` {0..<n} \<or> x \<in> (\<lambda>i. 2 * i + 1) ` {0..<n}" if "x < 2 * n" for x :: nat
  proof (cases "even x")
    case True
    then show ?thesis using that by (auto elim!: evenE)
  next
    case False
    then show ?thesis using that by (auto elim!: oddE)
  qed
  then have "{0..<2 * n} \<subseteq> (\<lambda>i. 2 * i) ` {0..<n} \<union> (\<lambda>i. 2 * i + 1) ` {0..<n}"
    by (metis UnCI atLeastLessThan_iff subsetI)
  moreover have "(\<lambda>i. 2 * i) ` {0..<n} \<union> (\<lambda>i. 2 * i + 1) ` {0..<n} \<subseteq> {0..<2 * n :: nat}" by auto
  ultimately show ?thesis by (rule equalityI [rotated])
qed

section \<open>Properties\<close>

text \<open>
  C40. The buffers of a fan-out to \<open>n\<close> replicas: whatever the order in which the creating function returns and the
  \<open>n\<close> continuations run, no step uses a destroyed context or a removed node, before the last step the
  context is alive and no released buffer is in use, and after it the context is destroyed and each of the
  \<open>2 * n\<close> buffers has been released exactly once.
\<close>

theorem buffers_released_once:
  assumes "inj alloc" "distinct evs" "set evs = insert Scope_end (Cont ` {0..<n})"
  shows "(\<forall>k < length evs. \<exists>c. life_run (take k evs) (life_create_buffers alloc n life_new) = Some c \<and> cl_alive c \<and>
      in_use c \<inter> set (cl_freed c) = {}) \<and>
    (\<exists>c. life_run evs (life_create_buffers alloc n life_new) = Some c \<and> \<not> cl_alive c \<and>
      distinct (cl_freed c) \<and> set (cl_freed c) = alloc ` {0..<2 * n})"
proof (intro conjI allI impI)
  fix k assume k: "k < length evs"
  have "evs ! k \<in> set evs - set (take k evs)"
    using assms(2) k nth_mem [OF k] distinct_take [OF assms(2), of "Suc k"] by (simp add: take_Suc_conv_app_nth)
  then have "set (take k evs) \<subset> all_events n" using set_take_subset [of k evs] assms(3) by auto
  from life_run_incomplete [OF distinct_take [OF assms(2)] this, of alloc] in_use_state [OF assms(1)]
  show "\<exists>c. life_run (take k evs) (life_create_buffers alloc n life_new) = Some c \<and> cl_alive c \<and> in_use c \<inter> set (cl_freed c) = {}"
    by (intro exI conjI) (assumption | simp add: life_state_def)+
next
  obtain es e where evs: "evs = es @ [e]" using assms(3) by (cases evs rule: rev_cases) auto
  let ?c = "life_state alloc n False (conts evs)"
  have all: "set (conts evs) = {0..<n}" using assms(3) by auto
  have run: "life_run es (life_create_buffers alloc n life_new) = Some (life_state alloc n (Scope_end \<notin> set es) (conts es))"
    using assms(2,3) evs by (intro life_run_incomplete) auto
  have e: "e \<notin> set es" "e \<in> all_events n" using assms(2,3) evs by auto
  have "Scope_end \<in> set (es @ [e])" using assms(3) evs by simp
  then have "life_run evs (life_create_buffers alloc n life_new) = Some (drop_ref ?c)"
    using run life_step_state [OF e, of alloc] by (simp add: evs life_run_append)
  moreover have "drop_ref ?c = ctx_destroy ?c" using all by (simp only: drop_ref_state) simp
  moreover have "distinct (map (\<lambda>i. alloc (2 * i)) (conts evs) @ map (\<lambda>i. alloc (2 * i + 1)) (conts evs))"
    using distinct_conts [OF assms(2)] by (rule distinct_buffers [OF assms(1)])
  moreover have "set (map (\<lambda>i. alloc (2 * i)) (conts evs) @ map (\<lambda>i. alloc (2 * i + 1)) (conts evs)) = alloc ` {0..<2 * n}"
    unfolding even_odd_image [of n, symmetric] set_append list.set_map all by (simp add: image_Un image_image)
  ultimately show "\<exists>c. life_run evs (life_create_buffers alloc n life_new) = Some c \<and> \<not> cl_alive c \<and>
      distinct (cl_freed c) \<and> set (cl_freed c) = alloc ` {0..<2 * n}"
    using ctx_destroy_state [of n "conts evs" alloc False] all by (intro exI conjI) (assumption | simp)+
qed

theorem buffers_released_once_witness:
  "\<exists>c. life_run [Cont 1, Scope_end, Cont 0] (life_create_buffers (\<lambda>k. k + 7) 2 life_new) = Some c \<and> \<not> cl_alive c \<and>
    distinct (cl_freed c) \<and> set (cl_freed c) = {7, 8, 9, 10}"
proof -
  have "set [Cont 1, Scope_end, Cont 0] = insert Scope_end (Cont ` {0..<2})" by (auto simp: numeral_2_eq_2 atLeastLessThanSuc)
  moreover have "(\<lambda>k. k + 7) ` {0..<2 * 2} = {7, 8, 9, 10 :: nat}" by (auto simp: image_def atLeastLessThan_def lessThan_nat_numeral)
  ultimately show ?thesis using buffers_released_once [of "\<lambda>k. k + 7" "[Cont 1, Scope_end, Cont 0]" 2] by (simp add: inj_def)
qed

end
