(* ===== verification/Statistics.thy ===== *)
theory Statistics
  imports Packet Hash_Ssl "HOL-Library.Multiset"
begin

text \<open>
  The statistics variants of the ciphers and of the eRPC calls: \<open>src/include/stats/debug/stats\<close>.  Each class wraps
  an operation of the release variant, takes the time stamp counter before and after, and adds to shared atomic
  counters.  The two time stamps are arguments; \<open>Stats_Files\<close> has what becomes of the counters.

  The theory shows that the wrappers return what the wrapped operation returns, that the counters are the sums
  over all calls in whatever order the threads' atomic additions interleave, and that the byte count of
  decrypted packets, corrected at the end, is the number of message bytes.
\<close>

section \<open>Counters\<close>

record event_count =
  ec_n_events :: u64

record event_time = event_count +
  et_total_time :: u64

record size_event_data = event_time +
  se_n_bytes :: u64

definition event_add :: "('z) event_count_scheme \<Rightarrow> 'z event_count_scheme" where
  "event_add d = d\<lparr>ec_n_events := ec_n_events d + 1\<rparr>"

definition event_time_add :: "u64 \<Rightarrow> 'z event_time_scheme \<Rightarrow> 'z event_time_scheme" where
  "event_time_add time d = (let d = event_add d in d\<lparr>et_total_time := et_total_time d + time\<rparr>)"

definition size_event_add :: "u64 \<Rightarrow> u64 \<Rightarrow> 'z size_event_data_scheme \<Rightarrow> 'z size_event_data_scheme" where
  "size_event_add sz time d = event_time_add time (d\<lparr>se_n_bytes := se_n_bytes d + sz\<rparr>)"

definition no_events :: size_event_data where
  "no_events = \<lparr>ec_n_events = 0, et_total_time = 0, se_n_bytes = 0\<rparr>"

section \<open>Wrapped ciphers\<close>

record crypt_stats =
  cr_encrypt :: size_event_data
  cr_decrypt :: size_event_data

definition stats_cipher_encrypt ::
  "evp \<Rightarrow> u64 \<Rightarrow> u64 \<Rightarrow> cipher_ssl \<Rightarrow> bytes \<Rightarrow> bytes \<Rightarrow> u64 \<Rightarrow> bytes \<Rightarrow> crypt_stats \<Rightarrow> ((bool \<times> bytes \<times> bytes) \<times> crypt_stats) option" where
  "stats_cipher_encrypt e start stop c dst src src_size mac s = do {
     res \<leftarrow> cipher_encrypt e c dst src (unat src_size) mac;
     Some (res, s\<lparr>cr_encrypt := size_event_add src_size (stop - start) (cr_encrypt s)\<rparr>)
   }"

definition stats_cipher_decrypt ::
  "evp \<Rightarrow> u64 \<Rightarrow> u64 \<Rightarrow> cipher_ssl \<Rightarrow> bytes \<Rightarrow> bytes \<Rightarrow> u64 \<Rightarrow> bytes \<Rightarrow> crypt_stats \<Rightarrow> ((bool \<times> bytes) \<times> crypt_stats) option" where
  "stats_cipher_decrypt e start stop c dst src src_size mac s = do {
     res \<leftarrow> cipher_decrypt e c dst src (unat src_size) mac;
     Some (res, s\<lparr>cr_decrypt := size_event_add src_size (stop - start) (cr_decrypt s)\<rparr>)
   }"

definition stats_packet_cipher ::
  "evp \<Rightarrow> u64 \<Rightarrow> u64 \<Rightarrow> key_iv \<Rightarrow> iv_garbage \<Rightarrow> bytes \<Rightarrow> bytes \<Rightarrow> u64 \<Rightarrow> packet_func \<Rightarrow> crypt_stats \<Rightarrow>
   ((bool \<times> key_iv \<times> bytes) \<times> crypt_stats) option" where
  "stats_packet_cipher e start stop ki g dst src src_size func s = do {
     res \<leftarrow> packet_cipher e ki g dst src src_size func;
     Some (res, if func = ENCRYPT then s\<lparr>cr_encrypt := size_event_add src_size (stop - start) (cr_encrypt s)\<rparr>
       else s\<lparr>cr_decrypt := size_event_add src_size (stop - start) (cr_decrypt s)\<rparr>)
   }"

definition stats_packet_encrypt ::
  "evp \<Rightarrow> u64 \<Rightarrow> u64 \<Rightarrow> key_iv \<Rightarrow> iv_garbage \<Rightarrow> bytes \<Rightarrow> bytes \<Rightarrow> u64 \<Rightarrow> crypt_stats \<Rightarrow> ((bool \<times> key_iv \<times> bytes) \<times> crypt_stats) option" where
  "stats_packet_encrypt e start stop ki g dst src src_size s = do {
     res \<leftarrow> packet_encrypt e ki g dst src src_size;
     Some (res, s\<lparr>cr_encrypt := size_event_add src_size (stop - start) (cr_encrypt s)\<rparr>)
   }"

definition stats_packet_decrypt ::
  "evp \<Rightarrow> u64 \<Rightarrow> u64 \<Rightarrow> key_iv \<Rightarrow> bytes \<Rightarrow> bytes \<Rightarrow> u64 \<Rightarrow> crypt_stats \<Rightarrow> ((bool \<times> bytes) \<times> crypt_stats) option" where
  "stats_packet_decrypt e start stop ki dst src src_size s = do {
     res \<leftarrow> packet_decrypt e ki dst src src_size;
     Some (res, s\<lparr>cr_decrypt := size_event_add src_size (stop - start) (cr_decrypt s)\<rparr>)
   }"

text \<open>The destructor of \<open>PacketSslStats\<close> takes the vector and the tag off the decrypted bytes.\<close>

definition packet_stats_final :: "crypt_stats \<Rightarrow> crypt_stats" where
  "packet_stats_final s =
     s\<lparr>cr_decrypt := (cr_decrypt s)\<lparr>se_n_bytes := se_n_bytes (cr_decrypt s) - ec_n_events (cr_decrypt s) * MetaDataSize\<rparr>\<rparr>"

text \<open>The wrapped hash keeps its own sums and reports them when it is finalized.\<close>

record 'c stats_hash =
  sh_base :: "'c hash_ssl"
  sh_bytes :: u64
  sh_time :: u64

definition stats_hash_update :: "'c evp_stream \<Rightarrow> u64 \<Rightarrow> u64 \<Rightarrow> bytes \<Rightarrow> 'c stats_hash \<Rightarrow> (bool \<times> 'c stats_hash) option" where
  "stats_hash_update e start stop src h = do {
     (res, b) \<leftarrow> hash_update e src (sh_base h);
     Some (res, h\<lparr>sh_base := b, sh_bytes := sh_bytes h + size_of src, sh_time := sh_time h + (stop - start)\<rparr>)
   }"

definition stats_hash_finalize ::
  "'c evp_stream \<Rightarrow> u64 \<Rightarrow> u64 \<Rightarrow> 'c stats_hash \<Rightarrow> size_event_data \<Rightarrow> (bool \<times> 'c stats_hash \<times> size_event_data) option" where
  "stats_hash_finalize e start stop h data = do {
     (res, b) \<leftarrow> hash_finalize e (sh_base h);
     let h = h\<lparr>sh_base := b, sh_time := sh_time h + (stop - start)\<rparr>;
     Some (res, h, size_event_add (sh_bytes h) (sh_time h) data)
   }"

text \<open>
  The wrapped streaming cipher sums the bytes and the time of its updates.  Its \<open>finalize\<close> does not compile when it
  is used and is left out; \<open>update_encrypt\<close> and \<open>update_decrypt\<close> are what it means to call at the end.
\<close>

record 'c stats_split =
  ss_base :: "'c split_cipher"
  ss_bytes :: u64
  ss_time :: u64

definition stats_split_update ::
  "'c evp_stream \<Rightarrow> u64 \<Rightarrow> u64 \<Rightarrow> bytes \<Rightarrow> 'c stats_split \<Rightarrow> (nat \<times> 'c stats_split) option" where
  "stats_split_update e start stop src h = do {
     (res, b) \<leftarrow> sc_update e src (ss_base h);
     Some (res, h\<lparr>ss_base := b, ss_bytes := ss_bytes h + size_of src, ss_time := ss_time h + (stop - start)\<rparr>)
   }"

definition update_encrypt :: "u64 \<Rightarrow> u64 \<Rightarrow> crypt_stats \<Rightarrow> crypt_stats" where
  "update_encrypt bytes time s = s\<lparr>cr_encrypt := size_event_add bytes time (cr_encrypt s)\<rparr>"

definition update_decrypt :: "u64 \<Rightarrow> u64 \<Rightarrow> crypt_stats \<Rightarrow> crypt_stats" where
  "update_decrypt bytes time s = s\<lparr>cr_decrypt := size_event_add bytes time (cr_decrypt s)\<rparr>"

section \<open>Wrapped eRPC calls\<close>

record alloc_stats = size_event_data +
  al_stalls :: u64

record rpc_stats =
  rs_alloc :: alloc_stats
  rs_free_calls :: event_time
  rs_enqueue_request :: event_count
  rs_enqueue_response :: event_count

definition add_stall :: "alloc_stats \<Rightarrow> alloc_stats" where
  "add_stall d = d\<lparr>al_stalls := al_stalls d + 1\<rparr>"

text \<open>\<open>res\<close> is eRPC's answer: a refused allocation counts as a stall and as an event without bytes.\<close>

definition stats_alloc_msg_buffer :: "'b option \<Rightarrow> u64 \<Rightarrow> u64 \<Rightarrow> u64 \<Rightarrow> rpc_stats \<Rightarrow> 'b option \<times> rpc_stats" where
  "stats_alloc_msg_buffer res start stop max_data_size s =
     (let (d, max_data_size) = (if res = None then (add_stall (rs_alloc s), 0) else (rs_alloc s, max_data_size))
      in (res, s\<lparr>rs_alloc := size_event_add max_data_size (stop - start) d\<rparr>))"

definition stats_free_msg_buffer :: "u64 \<Rightarrow> u64 \<Rightarrow> rpc_stats \<Rightarrow> rpc_stats" where
  "stats_free_msg_buffer start stop s = s\<lparr>rs_free_calls := event_time_add (stop - start) (rs_free_calls s)\<rparr>"

definition stats_enqueue_request :: "rpc_stats \<Rightarrow> rpc_stats" where
  "stats_enqueue_request s = s\<lparr>rs_enqueue_request := event_add (rs_enqueue_request s)\<rparr>"

definition stats_enqueue_response :: "rpc_stats \<Rightarrow> rpc_stats" where
  "stats_enqueue_response s = s\<lparr>rs_enqueue_response := event_add (rs_enqueue_response s)\<rparr>"

section \<open>Additions in any order\<close>

text \<open>Updates of a shared state that commute: the interleaving of the threads does not matter.\<close>

locale commuting_updates =
  fixes upd :: "'a \<Rightarrow> 's \<Rightarrow> 's"
  assumes commute: "upd a (upd b s) = upd b (upd a s)"
begin

lemma any_order: "mset xs = mset ys \<Longrightarrow> fold upd xs = fold upd ys"
  by (rule fold_multiset_equiv) (auto simp: fun_eq_iff commute)

lemma interleaved: "mset zs = mset xs + mset ys \<Longrightarrow> fold upd zs s = fold upd ys (fold upd xs s)"
  using any_order [of zs "xs @ ys"] by simp

end

interpretation size_events: commuting_updates "\<lambda>(sz, time). size_event_add sz time :: size_event_data \<Rightarrow> size_event_data"
  by unfold_locales (auto simp: size_event_add_def event_time_add_def event_add_def Let_def ac_simps)

lemma size_events_sums:
  "fold (\<lambda>(sz, time). size_event_add sz time) calls d =
     d\<lparr>ec_n_events := ec_n_events d + size_of calls, et_total_time := et_total_time d + sum_list (map snd calls),
       se_n_bytes := se_n_bytes d + sum_list (map fst calls)\<rparr>" for d :: size_event_data
  by (induction calls arbitrary: d) (auto simp: size_event_add_def event_time_add_def event_add_def Let_def ac_simps)

text \<open>
  Two threads whose calls interleave: the counters are the sums of both, and after the correction the
  decrypted bytes are the bytes of the messages, for packets of \<open>n\<close> message bytes and the 28 others.
\<close>

lemma interleaved_sums:
  assumes "mset zs = mset xs + mset ys"
  shows "fold (\<lambda>(sz, time). size_event_add sz time) zs no_events =
    \<lparr>ec_n_events = size_of xs + size_of ys, et_total_time = sum_list (map snd xs) + sum_list (map snd ys),
     se_n_bytes = sum_list (map fst xs) + sum_list (map fst ys)\<rparr>"
  by (subst size_events.interleaved [OF assms]) (simp add: size_events_sums no_events_def)

lemma sum_with_meta: "sum_list (map (\<lambda>n. n + MetaDataSize) ns) = sum_list ns + size_of ns * MetaDataSize"
  by (induction ns) (simp_all add: algebra_simps)

lemma packet_stats_message_bytes:
  assumes "map fst calls = map (\<lambda>n. n + MetaDataSize) ns"
  shows "se_n_bytes (cr_decrypt (packet_stats_final
    \<lparr>cr_encrypt = d, cr_decrypt = fold (\<lambda>(sz, time). size_event_add sz time) calls no_events\<rparr>)) = sum_list ns"
proof -
  have "length calls = length ns" using arg_cong [OF assms, of length] by simp
  then show ?thesis by (simp add: packet_stats_final_def size_events_sums no_events_def assms sum_with_meta)
qed

section \<open>Transparency\<close>

text \<open>The wrappers return what the wrapped operations return.\<close>

lemma wrappers_transparent:
  "map_option fst (stats_cipher_encrypt e t u c dst src n mac s) = cipher_encrypt e c dst src (unat n) mac"
  "map_option fst (stats_cipher_decrypt e t u c dst src n mac s) = cipher_decrypt e c dst src (unat n) mac"
  "map_option fst (stats_packet_encrypt e t u ki g dst src n s) = packet_encrypt e ki g dst src n"
  "map_option fst (stats_packet_decrypt e t u ki dst src n s) = packet_decrypt e ki dst src n"
  "map_option fst (stats_packet_cipher e t u ki g dst src n func s) = packet_cipher e ki g dst src n func"
  by (simp_all add: stats_cipher_encrypt_def stats_cipher_decrypt_def stats_packet_encrypt_def stats_packet_decrypt_def
      stats_packet_cipher_def map_option_case split: option.split bind_split)

lemma hash_wrapper_transparent:
  "map_option (\<lambda>(ok, h). (ok, sh_base h)) (stats_hash_update es t u src h) = hash_update es src (sh_base h)"
  "map_option (\<lambda>(ok, h, d). (ok, sh_base h)) (stats_hash_finalize es t u h d) = hash_finalize es (sh_base h)"
  by (auto simp: stats_hash_update_def stats_hash_finalize_def map_option_case Let_def split: option.split bind_split)

text \<open>Allocations: the bytes are those of the granted ones, the stalls the number of refusals.\<close>

lemma alloc_counts:
  "fold (\<lambda>(res, n, t, u) s. snd (stats_alloc_msg_buffer res t u n s)) calls s = s' \<Longrightarrow>
    al_stalls (rs_alloc s') = al_stalls (rs_alloc s) + size_of (filter (\<lambda>(res, _). res = None) calls) \<and>
    se_n_bytes (rs_alloc s') = se_n_bytes (rs_alloc s) + sum_list (map (\<lambda>(res, n, _). if res = None then 0 else n) calls) \<and>
    ec_n_events (rs_alloc s') = ec_n_events (rs_alloc s) + size_of calls"
  by (induction calls arbitrary: s)
    (auto simp: stats_alloc_msg_buffer_def size_event_add_def event_time_add_def event_add_def add_stall_def Let_def ac_simps)

end
