(* ===== verification/End_To_End.thy ===== *)
theory End_To_End
  imports Protocol_Properties
begin

text \<open>
  Whole operations across nodes: the request a node enqueued is what another node's handler gets, and the
  response this handler enqueued is what the continuation of the first node gets (the role of eRPC).

  Shown here: a put that one replica answers completes and is stored at both nodes; a get that follows
  at the replica returns its value; and a get at a third node that is behind writes something else than
  the value under the clock of the put into a replica that the put has not reached yet, which then
  rejects the value itself.
\<close>

section \<open>Delivering requests and responses\<close>

definition requests :: "action list \<Rightarrow> request list" where
  "requests out = concat (map (\<lambda>a. case a of Enqueue_request q \<Rightarrow> [q] | _ \<Rightarrow> []) out)"

definition responses :: "action list \<Rightarrow> bytes list" where
  "responses out = concat (map (\<lambda>a. case a of Enqueue_response h kind r \<Rightarrow> [r] | _ \<Rightarrow> []) out)"

text \<open>The newest request to the \<open>j\<close>th replica of its group, and the newest response.\<close>

definition newest_request :: "nat \<Rightarrow> 's abd \<Rightarrow> request option" where
  "newest_request j st = find (\<lambda>q. rq_node q = j) (rev (requests (ab_out st)))"

definition newest_response :: "'s abd \<Rightarrow> bytes option" where
  "newest_response st = (case rev (responses (ab_out st)) of [] \<Rightarrow> None | r # rs \<Rightarrow> Some r)"

definition deliver :: "('s, 'p) penv \<Rightarrow> event \<Rightarrow> nat \<Rightarrow> nat \<Rightarrow> 's abd \<Rightarrow> 's abd \<Rightarrow> 's abd option" where
  "deliver env ev h j A B = do {
     q \<leftarrow> newest_request j A;
     abd_request env ev B (rq_type q) h (rq_buf q)
   }"

definition reply :: "('s, 'p) penv \<Rightarrow> event \<Rightarrow> nat \<Rightarrow> 's abd \<Rightarrow> 's abd \<Rightarrow> 's abd option" where
  "reply env ev j A B = do {
     q \<leftarrow> newest_request j A;
     r \<leftarrow> newest_response B;
     req_conts env ev A (rq_cont q) (rq_ctx q) r
   }"

text \<open>One round trip: the request of \<open>A\<close> to its \<open>j\<close>th replica, which is \<open>B\<close>, and the response.\<close>

definition exchange ::
  "('s, 'p) penv \<Rightarrow> event \<Rightarrow> event \<Rightarrow> nat \<Rightarrow> nat \<Rightarrow> 's abd \<Rightarrow> 's abd \<Rightarrow> ('s abd \<times> 's abd) option" where
  "exchange env eb ea h j A B = do {
     B \<leftarrow> deliver env eb h j A B;
     A \<leftarrow> reply env ea j A B;
     Some (A, B)
   }"

lemma requests_append [simp]: "requests (xs @ ys) = requests xs @ requests ys"
  by (simp add: requests_def)

lemma responses_append [simp]: "responses (xs @ ys) = responses xs @ responses ys"
  by (simp add: responses_def)

lemma requests_Enqueue [simp]: "requests (map (\<lambda>i. Enqueue_request (f i)) is) = map f is"
  by (induction "is") (simp_all add: requests_def)

lemma find_rev_node:
  "j < n \<Longrightarrow> \<forall>i < n. rq_node (f i) = i \<Longrightarrow> find (\<lambda>q. rq_node q = j) (rev (map f [0..<n]) @ qs) = Some (f j)"
proof (induction n)
  case (Suc n)
  then show ?case by (cases "j = n") auto
qed simp

text \<open>All nodes share one key, and packets depend on nothing else of the state.\<close>

abbreviation same_key :: "'s abd \<Rightarrow> 's abd \<Rightarrow> bool" where
  "same_key A B \<equiv> ki_key (ab_cipher A) = ki_key (ab_cipher B)"

abbreviation same_config :: "'s abd \<Rightarrow> 's abd \<Rightarrow> bool" where
  "same_config A B \<equiv> same_key A B \<and> ab_replicas A = ab_replicas B \<and> ab_max_package_size A = ab_max_package_size B"

lemma packet_of_same_key: "same_key A B \<Longrightarrow> packet_of env A r k v = packet_of env B r k v"
  by (simp add: carries_def)

text \<open>\<open>asks env st cid j rt cont k v\<close>: the newest request of \<open>st\<close> to replica \<open>j\<close>.\<close>

definition asks ::
  "('s, 'p) penv \<Rightarrow> 's abd \<Rightarrow> nat \<Rightarrow> nat \<Rightarrow> req_type \<Rightarrow> cont_type \<Rightarrow> bytes \<Rightarrow> bytes \<Rightarrow> bool" where
  "asks env st cid j rt cont k v \<longleftrightarrow> (\<exists>q. newest_request j st = Some q \<and> rq_type q = rt \<and> rq_cont q = cont \<and>
     rq_ctx q = cid \<and> packet_of env st (rq_buf q) k v)"

lemma sends_asks:
  assumes "sends env st c cid reps rt cont k v st'" "j < length reps"
  shows "asks env st' cid j rt cont k v"
proof -
  obtain ki r where st': "st' = (set_ctx st cid (c\<lparr>rc_n_msgs := length reps\<rparr>))
       \<lparr>ab_cipher := ki,
        ab_out := ab_out st @ map (\<lambda>i. Enqueue_request
          \<lparr>rq_session = reps ! i, rq_type = rt, rq_buf = r, rq_cont = cont, rq_ctx = cid, rq_node = i\<rparr>)
          [0..<length reps]\<rparr>"
    "ki_key ki = ki_key (ab_cipher st)" "packet_of env st r k v"
    using assms(1) by (auto simp: sends_def)
  have "newest_request j st' = Some
      \<lparr>rq_session = reps ! j, rq_type = rt, rq_buf = r, rq_cont = cont, rq_ctx = cid, rq_node = j\<rparr>"
    unfolding newest_request_def st'(1)
    using find_rev_node [OF assms(2), of "\<lambda>i. \<lparr>rq_session = reps ! i, rq_type = rt, rq_buf = r, rq_cont = cont,
      rq_ctx = cid, rq_node = i\<rparr>"] by simp
  moreover have "packet_of env st' r k v" using st' by (simp add: carries_def)
  ultimately show ?thesis by (simp add: asks_def)
qed

lemma asks_cong: "ab_out A = ab_out B \<Longrightarrow> same_key A B \<Longrightarrow> asks env A = asks env B"
  by (simp add: fun_eq_iff asks_def newest_request_def carries_def)

lemma asks_emit [simp]:
  "asks env (emit (Get_ret s) st) = asks env st" "asks env (decrement_traces st) = asks env st"
  by (simp_all add: fun_eq_iff asks_def newest_request_def carries_def requests_def)

lemma answers_asks: "answers env st h k v st' \<Longrightarrow> asks env st' = asks env st"
  by (auto simp: fun_eq_iff answers_def asks_def newest_request_def carries_def requests_def)

lemma answers_response:
  assumes "answers env st h k v st'"
  obtains r where "newest_response st' = Some r" "packet_of env st r k v"
  using assms by (auto simp: answers_def newest_response_def responses_def)

section \<open>A fan-out that waits for its first response\<close>

text \<open>Groups have two members beside the node, so one response is enough.\<close>

definition waits :: "replica_context \<Rightarrow> bool" where
  "waits c \<longleftrightarrow> rc_wf c \<and> rc_cache c = [] \<and> \<not> rc_done c \<and> rc_n_msgs c = 2"

lemma waits_create [simp]: "waits ((rc_create n h)\<lparr>rc_data := d, rc_n_msgs := 2\<rparr>)" "waits ((rc_create n h)\<lparr>rc_n_msgs := 2\<rparr>)"
  by (simp_all add: waits_def rc_create_def rc_wf_def)

lemma first_response:
  assumes "ctx_at A cid = Some c" "waits c" "call \<noteq> CmdRet" "packet_of env A r k v"
  obtains c' where
    "req_conts env ev A call cid r = req_conts_impl env ev (set_ctx A cid c') call 1 cid"
    "ctx_at (set_ctx A cid c') cid = Some c'" "rc_wf c'" "rc_cache c' = [r]" "rc_data c' = rc_data c"
    "rc_max_package_size c' = rc_max_package_size c" "rc_handle c' = rc_handle c" "rc_n_msgs c' = 2"
proof -
  have len: "28 < length r" "length r < 2 ^ 64" using assms(4) by (auto simp: carries_def)
  have q: "quorum (rc_n_msgs c) = 1" "rc_n_resp c = 0" using assms(2) by (auto simp: waits_def quorum_def rc_wf_def)
  obtain c' where c': "gate c r = Some (c', True)" "rc_n_msgs c' = 2" "rc_n_resp c' = 1"
    "rc_cache c' = [r]" "rc_data c' = rc_data c" "rc_max_package_size c' = rc_max_package_size c"
    "rc_handle c' = rc_handle c"
    using gate_total [OF len, of c] assms(2) q by (auto simp: waits_def)
  have "rc_wf c'" using gate_wf [OF c'(1)] assms(2) len by (simp add: waits_def)
  moreover have "ctx_at (set_ctx A cid c') cid = Some c'" using ctx_atD [OF assms(1)] by (simp add: ctx_at_def)
  ultimately show ?thesis
    using req_conts_gate [OF assms(3,1) c'(1)] c' by (intro that [of c']) simp_all
qed

lemma set_ctx_wf [simp]: "abd_wf env (set_ctx st cid c) = abd_wf env st"
  by (simp add: abd_wf_def)

lemma holds_n_msgs [simp]: "holds env (c\<lparr>rc_n_msgs := n\<rparr>) = holds env c"
  by (simp add: holds_def fun_eq_iff)

lemma started:
  assumes s: "sends env (with_ctx (increment_traces A) None n) c (length (ab_ctxs A)) (key_group A k) rt cont k' v' A1"
    and c: "c = (rc_create (ab_max_package_size A) None)\<lparr>rc_data := n\<rparr>"
    and A: "abd_wf env A" "length (key_group A k) = 2"
  shows "abd_wf env A1" "look env A1 = look env A" "same_key A1 A" "ab_replicas A1 = ab_replicas A"
    "ab_m_id A1 = ab_m_id A" "ctx_at A1 (length (ab_ctxs A)) = Some (c\<lparr>rc_n_msgs := 2\<rparr>)" "waits (c\<lparr>rc_n_msgs := 2\<rparr>)"
    "j < 2 \<Longrightarrow> asks env A1 (length (ab_ctxs A)) j rt cont k' v'"
  using sendsD [OF s] sends_asks [OF s, of j] c A
  by (simp_all add: ctx_at_def with_ctx_def kv_look_def fun_eq_iff)
    (auto simp: abd_wf_def kv_wf_def kv_look_def with_ctx_def)

section \<open>Deliveries\<close>

lemma deliver_asks:
  assumes "asks env A cid j rt cont k v" "same_key A B"
  obtains req where "deliver env ev h j A B = abd_request env ev B rt h req" "packet_of env B req k v"
  using assms by (auto simp: asks_def deliver_def carries_def)

lemma reply_asks:
  assumes "asks env A cid j rt cont k v" "newest_response B = Some r"
  shows "reply env ev j A B = req_conts env ev A cont cid r"
  using assms by (auto simp: asks_def reply_def)

lemma deliver_time_query:
  assumes ok: "penv_ok env cap" "abd_wf env B" "ev_ok env ev"
    and q: "asks env A cid j GetTimeStamp cont k v" "same_key A B"
  obtains B' where "deliver env ev h j A B = Some B'"
    "answers env B (Some h) (lamport_bytes (old_clock (look env B k))) [] B'"
proof -
  obtain req where "deliver env ev h j A B = abd_request env ev B GetTimeStamp h req" "packet_of env B req k v"
    by (rule deliver_asks [OF q]) (rule that)
  then show ?thesis using handle_get_time_stamp_spec [OF ok, of req k v h] that by auto
qed

lemma deliver_value_query:
  assumes ok: "penv_ok env cap" "abd_wf env B" "ev_ok env ev"
    and q: "asks env A cid j GetValueTimeStamp cont k u" "same_key A B"
    and look: "look env B k = Some (c, v)" "length k + length v + 52 < 2 ^ 64"
  obtains B' where "deliver env ev h j A B = Some B'" "answers env B (Some h) (k @ lamport_bytes c) v B'"
proof -
  obtain req where "deliver env ev h j A B = abd_request env ev B GetValueTimeStamp h req" "packet_of env B req k u"
    by (rule deliver_asks [OF q]) (rule that)
  then show ?thesis
    using handle_get_value_time_stamp_spec [OF ok, of req k u h] look that by auto
qed

lemma deliver_put:
  assumes ok: "penv_ok env cap" "abd_wf env B" "ev_ok env ev" "ev_attempts ev = []"
    and q: "asks env A cid j PutReplica cont (k @ lamport_bytes c) v" "same_key A B" and cap: "length v \<le> cap"
  obtains B' r where "deliver env ev h j A B = Some B'" "abd_wf env B'" "same_config B' B"
    "look env B' = (look env B)(k \<mapsto> newer (look env B k) (c, v))"
    "newest_response B' = Some r" "packet_of env B r [65] []"
proof -
  obtain req where req: "deliver env ev h j A B = abd_request env ev B PutReplica h req"
    "packet_of env B req (k @ lamport_bytes c) v"
    by (rule deliver_asks [OF q]) (rule that)
  obtain kv B' where B': "handle_put_replica env ev B h req = Some B'"
    "answers env (B\<lparr>ab_kv := kv\<rparr>) (Some h) [65] [] B'" "kv_wf (pe_kv env) kv"
    "kv_look (pe_kv env) kv = (look env B)(k \<mapsto> newer (look env B k) (c, v))"
    by (rule handle_put_replica_spec [OF ok(1-3) req(2) cap ok(4)])
  obtain r where "newest_response B' = Some r" "packet_of env (B\<lparr>ab_kv := kv\<rparr>) r [65] []"
    by (rule answers_response [OF B'(2)])
  moreover have "abd_wf env (B\<lparr>ab_kv := kv\<rparr>)" using ok(2) B'(3) by (simp add: abd_wf_def)
  ultimately show ?thesis
    using answersD [OF B'(2)] B' req(1) by (intro that [of B' r]) simp_all
qed

section \<open>A put up to its second phase\<close>

text \<open>The clock a put at \<open>A\<close> takes when \<open>B\<close> is the first to answer.\<close>

definition put_clock :: "('s, 'p) penv \<Rightarrow> 's abd \<Rightarrow> 's abd \<Rightarrow> bytes \<Rightarrow> lamport" where
  "put_clock env A B k =
     Lamport (top_count (get_count (old_clock (look env A k))) [old_clock (look env B k)] + 1) (ab_m_id A)"

lemma put_clock_newer:
  assumes "top_count (get_count (old_clock (look env A k))) [old_clock (look env B k)] < - 1"
  shows "old_clock (look env A k) < put_clock env A B k" "old_clock (look env B k) < put_clock env A B k"
    "newer (look env A k) (put_clock env A B k, v) = (put_clock env A B k, v)"
    "newer (look env B k) (put_clock env A B k, v) = (put_clock env A B k, v)"
proof -
  show A: "old_clock (look env A k) < put_clock env A B k" and B: "old_clock (look env B k) < put_clock env A B k"
    unfolding put_clock_def using next_clock_greater [OF assms] by simp_all
  show "newer (look env A k) (put_clock env A B k, v) = (put_clock env A B k, v)"
    using A by (cases "look env A k") auto
  show "newer (look env B k) (put_clock env A B k, v) = (put_clock env A B k, v)"
    using B by (cases "look env B k") auto
qed

lemma put_until_sent:
  assumes ok: "penv_ok env cap" "abd_wf env A" "abd_wf env B" "ev_ok env e0" "ev_ok env eb" "ev_ok env ea" "ev_attempts ea = []"
    and key: "k \<noteq> []" "length v \<le> cap" "length k + length v + 52 < 2 ^ 64"
    and reps: "ab_replicas A \<noteq> []" "length (key_group A k) = 2" and net: "same_key A B" "j < 2"
  obtains A1 A2 B1 c2 where "benchmark_put env e0 A (encoded k v []) = Some A1" "exchange env eb ea h j A1 B = Some (A2, B1)"
    "abd_wf env A2" "same_key A2 A" "look env A2 = (look env A)(k \<mapsto> newer (look env A k) (put_clock env A B k, v))"
    "abd_wf env B1" "same_config B1 B" "look env B1 = look env B"
    "\<And>i. i < 2 \<Longrightarrow> asks env A2 (Suc (length (ab_ctxs A))) i PutReplica AckPutTime (k @ lamport_bytes (put_clock env A B k)) v"
    "ctx_at A2 (Suc (length (ab_ctxs A))) = Some c2" "waits c2"
proof -
  let ?cid = "length (ab_ctxs A)" and ?clock = "put_clock env A B k" and ?lB = "old_clock (look env B k)"
  have len: "length k + length v + 44 < 2 ^ 64" "key_group A k \<noteq> []" using key(3) reps(2) by auto
  obtain n A1 c where A1: "benchmark_put env e0 A (encoded k v []) = Some A1"
    "c = (rc_create (ab_max_package_size A) None)\<lparr>rc_data := n\<rparr>" "holds env c k v lamport_min"
    "sends env (with_ctx (increment_traces A) None n) c ?cid (key_group A k) GetTimeStamp GetTime k [] A1"
    by (rule benchmark_put_spec [OF ok(1,2,4) key(1,2) len(1) reps(1) len(2)]) (rule that)
  note st = started [OF A1(4,2) ok(2) reps(2)]
  obtain B1 where B1: "deliver env eb h j A1 B = Some B1" "answers env B (Some h) (lamport_bytes ?lB) [] B1"
    by (rule deliver_time_query [OF ok(1,3,5) st(8) [OF net(2)]]) (use st(3) net(1) in auto)
  obtain r where r: "newest_response B1 = Some r" "packet_of env B r (lamport_bytes ?lB) []"
    by (rule answers_response [OF B1(2)])
  then have rA: "packet_of env A1 r (lamport_bytes ?lB) []" using st(3) net(1) by (simp add: carries_def)
  obtain c' where c': "req_conts env ea A1 GetTime ?cid r = req_conts_impl env ea (set_ctx A1 ?cid c') GetTime 1 ?cid"
    "ctx_at (set_ctx A1 ?cid c') ?cid = Some c'" "rc_wf c'" "rc_cache c' = [r]" "rc_data c' = rc_data (c\<lparr>rc_n_msgs := 2\<rparr>)"
    "rc_handle c' = rc_handle (c\<lparr>rc_n_msgs := 2\<rparr>)"
    by (rule first_response [OF st(6,7) _ rA, of GetTime ea]) (simp, rule that)
  let ?A = "set_ctx A1 ?cid c'"
  have hold: "holds env c' k v lamport_min" using A1(3) c'(5) by (simp add: holds_def)
  have resp: "clock_responses env ?A c' [?lB]" using c'(4) rA by (simp add: clock_responses_def)
  have wf: "abd_wf env ?A" "ab_replicas ?A \<noteq> []" "key_group ?A k \<noteq> []" using st(1,4) reps(1) len(2) by simp_all
  have clock: "?clock = Lamport (top_count (get_count (old_clock (look env ?A k))) [?lB] + 1) (ab_m_id ?A)"
    using st(2,5) by (simp add: put_clock_def)
  obtain st1 A2 where A2: "cont_get_time env ea ?A ?cid = Some A2"
    "sends env (fst (create_rep_context ?A (rc_handle c'))) (rc_create (ab_max_package_size ?A) (rc_handle c'))
       (length (ab_ctxs ?A)) (key_group ?A k) PutReplica AckPutTime (k @ lamport_bytes ?clock) v st1"
    "abd_wf env A2" "ab_out A2 = ab_out st1" "ab_cipher A2 = ab_cipher st1" "length (ab_ctxs A2) = length (ab_ctxs st1)"
    "\<forall>i < length (ab_ctxs st1). i \<noteq> ?cid \<longrightarrow> ab_ctxs A2 ! i = ab_ctxs st1 ! i"
    "look env A2 = (look env ?A)(k \<mapsto> newer (look env ?A k) (?clock, v))"
    by (rule cont_get_time_spec [OF ok(1) wf(1) ok(6,7) c'(2) hold c'(3) resp key(1,3) wf(2,3) clock]) (rule that)
  have n: "length (ab_ctxs ?A) = Suc ?cid" using A1(4) by (auto simp: sends_def with_ctx_def)
  have grp: "length (key_group ?A k) = 2" using st(4) reps(2) by simp
  have asks: "asks env A2 (Suc ?cid) i PutReplica AckPutTime (k @ lamport_bytes ?clock) v" if "i < 2" for i
    using sends_asks [OF A2(2), of i] that grp n asks_cong [OF A2(4), of env] A2(5) by simp
  have "reply env ea j A1 B1 = Some A2" using reply_asks [OF st(8) [OF net(2)] r(1), of ea] c'(1) A2(1) by simp
  then have "exchange env eb ea h j A1 B = Some (A2, B1)" using B1(1) by (simp add: exchange_def)
  moreover have "ctx_at A2 (Suc ?cid) = Some ((rc_create (ab_max_package_size ?A) (rc_handle c'))\<lparr>rc_n_msgs := 2\<rparr>)"
    using A2(6,7) sendsD(3) [OF A2(2)] n grp by (simp add: ctx_at_def)
  moreover have "same_key A2 A" using A2(5) sendsD(4) [OF A2(2)] st(3) by simp
  ultimately show ?thesis
    using A1(1) A2(3,8) answersD [OF B1(2)] ok(3) st(2) asks 
    by (intro that [of A1 A2 B1 "(rc_create (ab_max_package_size ?A) (rc_handle c'))\<lparr>rc_n_msgs := 2\<rparr>"]) simp_all
qed

section \<open>A complete put\<close>

text \<open>
  The put of \<open>A\<close> that \<open>B\<close> answers in both phases: it ends with the acknowledgement to the client, and
  value and clock are at both nodes.
\<close>

definition put_run ::
  "('s, 'p) penv \<Rightarrow> event \<Rightarrow> event \<Rightarrow> event \<Rightarrow> nat \<Rightarrow> nat \<Rightarrow> msg \<Rightarrow> 's abd \<Rightarrow> 's abd \<Rightarrow> ('s abd \<times> 's abd) option" where
  "put_run env e0 eb ea h j m A B = do {
     A \<leftarrow> benchmark_put env e0 A m;
     (A, B) \<leftarrow> exchange env eb ea h j A B;
     exchange env eb ea h j A B
   }"

lemma put_run_spec:
  assumes ok: "penv_ok env cap" "abd_wf env A" "abd_wf env B" "ev_ok env e0" "ev_ok env eb" "ev_ok env ea"
      "ev_attempts ea = []" "ev_attempts eb = []"
    and key: "k \<noteq> []" "length v \<le> cap" "length k + length v + 52 < 2 ^ 64"
    and reps: "ab_replicas A \<noteq> []" "length (key_group A k) = 2" and net: "same_key A B" "j < 2"
  obtains A' B' where "put_run env e0 eb ea h j (encoded k v []) A B = Some (A', B')" "abd_wf env A'" "abd_wf env B'"
    "same_key A' A" "same_config B' B" "\<exists>out. ab_out A' = out @ [Put_ret ACK]"
    "look env A' = (look env A)(k \<mapsto> newer (look env A k) (put_clock env A B k, v))"
    "look env B' = (look env B)(k \<mapsto> newer (look env B k) (put_clock env A B k, v))"
proof -
  let ?cid = "Suc (length (ab_ctxs A))"
  obtain A1 A2 B1 c2 where D: "benchmark_put env e0 A (encoded k v []) = Some A1" "exchange env eb ea h j A1 B = Some (A2, B1)"
    "abd_wf env A2" "same_key A2 A" "look env A2 = (look env A)(k \<mapsto> newer (look env A k) (put_clock env A B k, v))"
    "abd_wf env B1" "same_config B1 B" "look env B1 = look env B"
    "\<And>i. i < 2 \<Longrightarrow> asks env A2 ?cid i PutReplica AckPutTime (k @ lamport_bytes (put_clock env A B k)) v"
    "ctx_at A2 ?cid = Some c2" "waits c2"
    by (rule put_until_sent [OF ok(1-7) key reps net]) (rule that)
  have key2: "same_key A2 B1" using D(4,7) net(1) by simp
  obtain B2 r where B2: "deliver env eb h j A2 B1 = Some B2" "abd_wf env B2" "same_config B2 B1"
    "look env B2 = (look env B1)(k \<mapsto> newer (look env B1 k) (put_clock env A B k, v))"
    "newest_response B2 = Some r" "packet_of env B1 r [65] []"
    by (rule deliver_put [OF ok(1) D(6) ok(5,8) D(9) [OF net(2)] key2 key(2)]) (rule that)
  have rA: "packet_of env A2 r [65] []" using B2(6) key2 by (simp add: carries_def)
  obtain c' where c': "req_conts env ea A2 AckPutTime ?cid r = req_conts_impl env ea (set_ctx A2 ?cid c') AckPutTime 1 ?cid"
    by (rule first_response [OF D(10,11) _ rA, of AckPutTime ea]) (simp, rule that)
  let ?A = "cont_ack_put_time (set_ctx A2 ?cid c')"
  have "reply env ea j A2 B2 = Some ?A" using reply_asks [OF D(9) [OF net(2)] B2(5), of ea] c' by simp
  then have "exchange env eb ea h j A2 B1 = Some (?A, B2)" using B2(1) by (simp add: exchange_def)
  then have "put_run env e0 eb ea h j (encoded k v []) A B = Some (?A, B2)"
    using D(1,2) by (simp add: put_run_def)
  then show ?thesis
    using D(3-5,7,8) B2(2-4)
    by (intro that [of ?A B2]) (simp_all add: cont_ack_put_time_def abd_wf_def emit_def)
qed

section \<open>A get\<close>

definition get_run ::
  "('s, 'p) penv \<Rightarrow> event \<Rightarrow> event \<Rightarrow> event \<Rightarrow> nat \<Rightarrow> nat \<Rightarrow> msg \<Rightarrow> 's abd \<Rightarrow> 's abd \<Rightarrow> ('s abd \<times> 's abd) option" where
  "get_run env e0 eb ea h j m A B = do {
     A \<leftarrow> benchmark_get env e0 A m;
     exchange env eb ea h j A B
   }"

text \<open>
  A get at \<open>A\<close> that \<open>B\<close> answers with its entry: what it returns (\<open>s\<close>) and writes back is the result of
  the fold over this one answer.
\<close>

lemma get_run_fold:
  assumes ok: "penv_ok env cap" "abd_wf env A" "abd_wf env B" "ev_ok env e0" "ev_ok env eb" "ev_ok env ea"
    and key: "k \<noteq> []" "length k + length u + 44 < 2 ^ 64"
    and reps: "ab_replicas A \<noteq> []" "length (key_group A k) = 2" and net: "same_key A B" "j < 2"
    and B: "look env B k = Some (cB, vB)" "length k + length vB + 52 < 2 ^ 64"
      "length k + 8 + length vB \<le> unat (ab_max_package_size A)"
    and best: "rf_max (foldl (read_step k)
        (read_init (old_clock (look env A k)) (ret_span (look env A k)) (ab_max_package_size A)) [(cB, vB)]) = (clock, s)"
      "span_bytes s = Some bs" "length k + length bs + 52 < 2 ^ 64"
  obtains A' B' st where "get_run env e0 eb ea h j (encoded k u []) A B = Some (A', B')"
    "A' = emit (Get_ret s) (decrement_traces st)" "abd_wf env A'" "same_key A' A" "look env A' = look env A"
    "answers env B (Some h) (k @ lamport_bytes cB) vB B'"
    "\<And>i. i < 2 \<Longrightarrow> bs \<noteq> [] \<Longrightarrow>
       asks env A' (Suc (length (ab_ctxs A))) i PutReplica RetGetPutUpdate (k @ lamport_bytes clock) bs"
proof -
  let ?cid = "length (ab_ctxs A)"
  have grp: "key_group A k \<noteq> []" using reps(2) by auto
  obtain A1 n c where A1: "benchmark_get env e0 A (encoded k u []) = Some A1"
    "c = (rc_create (ab_max_package_size A) None)\<lparr>rc_data := n\<rparr>" "holds env c k [] lamport_min"
    "sends env (with_ctx (increment_traces A) None n) c ?cid (key_group A k) GetValueTimeStamp RetValue k u A1"
    by (rule benchmark_get_spec [OF ok(1,2,4) key reps(1) grp]) (rule that)
  note st = started [OF A1(4,2) ok(2) reps(2)]
  obtain B1 where B1: "deliver env eb h j A1 B = Some B1" "answers env B (Some h) (k @ lamport_bytes cB) vB B1"
    by (rule deliver_value_query [OF ok(1,3,5) st(8) [OF net(2)] _ B(1,2)]) (use st(3) net(1) in auto)
  obtain r where r: "newest_response B1 = Some r" "packet_of env B r (k @ lamport_bytes cB) vB"
    by (rule answers_response [OF B1(2)])
  then have rA: "packet_of env A1 r (k @ lamport_bytes cB) vB" using st(3) net(1) by (simp add: carries_def)
  obtain c' where c': "req_conts env ea A1 RetValue ?cid r = req_conts_impl env ea (set_ctx A1 ?cid c') RetValue 1 ?cid"
    "ctx_at (set_ctx A1 ?cid c') ?cid = Some c'" "rc_wf c'" "rc_cache c' = [r]" "rc_data c' = rc_data (c\<lparr>rc_n_msgs := 2\<rparr>)"
    "rc_max_package_size c' = rc_max_package_size (c\<lparr>rc_n_msgs := 2\<rparr>)" "rc_n_msgs c' = 2"
    by (rule first_response [OF st(6,7) _ rA, of RetValue ea]) (simp, rule that)
  let ?A = "set_ctx A1 ?cid c'"
  have hold: "holds env c' k [] lamport_min" using A1(3) c'(5) by (simp add: holds_def)
  have resp: "value_responses env ?A c' k [(cB, vB)]" using c'(4) rA by (simp add: value_responses_def)
  have wf: "abd_wf env ?A" "ab_replicas ?A \<noteq> []" "key_group ?A k \<noteq> []" using st(1,4) reps(1) grp by simp_all
  have size: "rc_max_package_size c' = ab_max_package_size A" using c'(6) A1(2) by (simp add: rc_create_def)
  then have fit: "\<forall>(l, w) \<in> set [(cB, vB)]. length k + 8 + length w \<le> unat (rc_max_package_size c')" using B(3) by simp
  have best': "rf_max (foldl (read_step k) (read_init (old_clock (look env ?A k)) (ret_span (look env ?A k))
      (rc_max_package_size c')) [(cB, vB)]) = (clock, s)"
    using best(1) st(2) size by simp
  obtain st1 where st1: "cont_ret_value env ea ?A ?cid = Some (emit (Get_ret s) (decrement_traces st1))"
    "if bs \<noteq> [] \<and> \<not> (\<exists>x \<in> fst ` set [(cB, vB)]. count_list (map fst [(cB, vB)]) x > rc_n_msgs c' div 2)
     then sends env (fst (create_rep_context ?A (rc_handle c'))) (rc_create (ab_max_package_size ?A) (rc_handle c'))
            (length (ab_ctxs ?A)) (key_group ?A k) PutReplica RetGetPutUpdate (k @ lamport_bytes clock) bs st1
     else st1 = ?A"
    by (rule cont_ret_value_best [OF ok(1) wf(1) ok(6) c'(2) hold c'(3) resp fit key(1) wf(2,3) best' best(2,3)]) (rule that)
  have n: "length (ab_ctxs ?A) = Suc ?cid" using A1(4) by (auto simp: sends_def with_ctx_def)
  let ?sends = "sends env (fst (create_rep_context ?A (rc_handle c'))) (rc_create (ab_max_package_size ?A) (rc_handle c'))
            (length (ab_ctxs ?A)) (key_group ?A k) PutReplica RetGetPutUpdate (k @ lamport_bytes clock) bs st1"
  have cons: "(bs \<noteq> [] \<and> \<not> (\<exists>x \<in> fst ` set [(cB, vB)]. count_list (map fst [(cB, vB)]) x > rc_n_msgs c' div 2)) = (bs \<noteq> [])"
    using c'(7) by simp
  have snd: "?sends" if "bs \<noteq> []" using st1(2) [unfolded cons] that by (simp only: simp_thms if_True)
  have same: "st1 = ?A" if "bs = []" using st1(2) [unfolded cons] that by (simp only: simp_thms if_False)
  have st1': "abd_wf env st1 \<and> ab_kv st1 = ab_kv ?A \<and> same_key st1 ?A"
  proof (cases "bs = []")
    case True
    with same [OF True] wf(1) show ?thesis by (simp only: simp_thms)
  next
    case False
    have "abd_wf env (fst (create_rep_context ?A (rc_handle c')))" using wf(1) by (simp add: abd_wf_def)
    from sendsD(1) [OF snd [OF False] this] sendsD(2,4) [OF snd [OF False]] show ?thesis by simp
  qed
  have asks: "asks env (emit (Get_ret s) (decrement_traces st1)) (Suc ?cid) i PutReplica RetGetPutUpdate (k @ lamport_bytes clock) bs"
    if "i < 2" "bs \<noteq> []" for i
    using sends_asks [OF snd [OF that(2)], of i] that(1) n st(4) reps(2) by simp
  have "reply env ea j A1 B1 = Some (emit (Get_ret s) (decrement_traces st1))"
    using reply_asks [OF st(8) [OF net(2)] r(1), of ea] c'(1) st1(1) by simp
  then have "get_run env e0 eb ea h j (encoded k u []) A B = Some (emit (Get_ret s) (decrement_traces st1), B1)"
    using A1(1) B1(1) by (simp add: get_run_def exchange_def)
  then show ?thesis
    using asks st1' st(2,3) B1(2) 
    by (intro that [of "emit (Get_ret s) (decrement_traces st1)" B1 st1])
      (auto simp only: emit_sel traces_sel traces_wf set_ctx_sel abd_wf_def)
qed

section \<open>Operations that meet\<close>

text \<open>A get that finds the clock of the answer in the local store returns the local value.\<close>

lemma get_run_local:
  assumes ok: "penv_ok env cap" "abd_wf env A" "abd_wf env B" "ev_ok env e0" "ev_ok env eb" "ev_ok env ea"
    and key: "k \<noteq> []" "length k + length u + 44 < 2 ^ 64"
    and reps: "ab_replicas A \<noteq> []" "length (key_group A k) = 2" and net: "same_key A B" "j < 2"
    and look: "look env A k = Some (c, v)" "look env B k = Some (c, v)" "length k + length v + 52 < 2 ^ 64"
      "length k + 8 + length v \<le> unat (ab_max_package_size A)"
  obtains A' B' s st where "get_run env e0 eb ea h j (encoded k u []) A B = Some (A', B')"
    "A' = emit (Get_ret s) st" "span_bytes s = Some v" "look env A' = look env A" "look env B' = look env B"
proof -
  have le: "\<forall>(l, w) \<in> set [(c, v)]. l \<le> c" and len: "length v < 2 ^ 64" using look(3) by simp_all
  note best = best_local [OF look(1) le len]
  show ?thesis
    by (rule get_run_fold [OF ok key reps net look(2,3,4) best(1,2) look(3)])
      (rule that, assumption, assumption, rule best(2), assumption, simp add: answersD(2))
qed

text \<open>A get that finds a newer clock in the answer returns the key part of the answer.\<close>

lemma get_run_remote:
  assumes ok: "penv_ok env cap" "abd_wf env A" "abd_wf env B" "ev_ok env e0" "ev_ok env eb" "ev_ok env ea"
    and key: "k \<noteq> []" "length k + length u + 44 < 2 ^ 64" "2 * length k + 60 < 2 ^ 64"
    and reps: "ab_replicas A \<noteq> []" "length (key_group A k) = 2" and net: "same_key A B" "j < 2"
    and look: "old_clock (look env A k) < c" "look env B k = Some (c, v)" "length k + length v + 52 < 2 ^ 64"
      "length k + 8 + length v \<le> unat (ab_max_package_size A)" "16 \<le> length v"
  obtains A' B' s st where "get_run env e0 eb ea h j (encoded k u []) A B = Some (A', B')"
    "A' = emit (Get_ret s) st" "span_bytes s = Some (k @ lamport_bytes c)" "abd_wf env A'" "same_key A' A"
    "answers env B (Some h) (k @ lamport_bytes c) v B'"
    "\<And>i. i < 2 \<Longrightarrow>
       asks env A' (Suc (length (ab_ctxs A))) i PutReplica RetGetPutUpdate (k @ lamport_bytes c) (k @ lamport_bytes c)"
proof -
  let ?f = "read_init (old_clock (look env A k)) (ret_span (look env A k)) (ab_max_package_size A)"
  have mem: "(c, v) \<in> set [(c, v)]" by simp
  have less: "fst (rf_max ?f) < c" using look(1) by (simp add: read_init_def)
  have long: "\<forall>(l, w) \<in> set [(c, v)]. 16 \<le> length w \<and> length k + 8 < 2 ^ 64" using look(5) key(3) by simp
  obtain l s where s: "rf_max (foldl (read_step k) ?f [(c, v)]) = (l, s)" "l \<in> fst ` set [(c, v)]"
    "span_bytes s = Some (k @ lamport_bytes l)"
    by (rule read_max_remote [OF mem less long]) (rule that)
  have l: "l = c" using s(2) by simp
  note best = s(1) [unfolded l] s(3) [unfolded l]
  have len: "length k + length (k @ lamport_bytes c) + 52 < 2 ^ 64" using key(3) by simp
  show ?thesis
    by (rule get_run_fold [OF ok key(1,2) reps net look(2,3,4) best len])
      (rule that, assumption, assumption, rule best(2), assumption, assumption, assumption, use key(1) in simp)
qed

text \<open>
  C4. A put at node \<open>A\<close> whose two phases one replica \<open>B\<close> of its group answers, with every packet sealed by
  the sender and opened by the receiver: it is acknowledged to the client, and key, value and the
  new clock (above both old ones) are in both stores, where nothing else changed.  A get at \<open>B\<close> that \<open>A\<close>
  answers then returns the value.
\<close>

theorem put_then_get_across_nodes:
  assumes "penv_ok env cap" "abd_wf env A" "abd_wf env B" "ev_ok env e0" "ev_ok env eb" "ev_ok env ea"
    and "ev_attempts ea = []" "ev_attempts eb = []"
    and "k \<noteq> []" "length v \<le> cap" "length k + length v + 52 < 2 ^ 64" "length k + length u + 44 < 2 ^ 64"
    and "ab_replicas A \<noteq> []" "length (key_group A k) = 2" "ab_replicas B \<noteq> []" "length (key_group B k) = 2"
    and "same_key A B" "j < 2" "i < 2" "length k + 8 + length v \<le> unat (ab_max_package_size B)"
    and "top_count (get_count (old_clock (look env A k))) [old_clock (look env B k)] < - 1"
  shows "\<exists>A' B' out. put_run env e0 eb ea h j (encoded k v []) A B = Some (A', B') \<and> ab_out A' = out @ [Put_ret ACK] \<and>
    look env A' = (look env A)(k \<mapsto> (put_clock env A B k, v)) \<and> look env B' = (look env B)(k \<mapsto> (put_clock env A B k, v)) \<and>
    (\<exists>B'' A'' s st. get_run env e0 ea eb h i (encoded k u []) B' A' = Some (B'', A'') \<and>
       B'' = emit (Get_ret s) st \<and> span_bytes s = Some v)"
proof -
  note newer = put_clock_newer(3,4) [OF assms(21), of v]
  obtain A' B' where P: "put_run env e0 eb ea h j (encoded k v []) A B = Some (A', B')" "abd_wf env A'" "abd_wf env B'"
    "same_key A' A" "same_config B' B" "\<exists>out. ab_out A' = out @ [Put_ret ACK]"
    "look env A' = (look env A)(k \<mapsto> newer (look env A k) (put_clock env A B k, v))"
    "look env B' = (look env B)(k \<mapsto> newer (look env B k) (put_clock env A B k, v))"
    by (rule put_run_spec [OF assms(1-11,13,14,17,18)]) (rule that)
  have B': "ab_replicas B' \<noteq> []" "length (key_group B' k) = 2" "same_key B' A'"
    "length k + 8 + length v \<le> unat (ab_max_package_size B')"
    using P(4,5) assms(15-17,20) by auto
  have l: "look env B' k = Some (put_clock env A B k, v)" "look env A' k = Some (put_clock env A B k, v)"
    using P(7,8) newer by simp_all
  obtain B'' A'' s st where "get_run env e0 ea eb h i (encoded k u []) B' A' = Some (B'', A'')"
    "B'' = emit (Get_ret s) st" "span_bytes s = Some v"
    by (rule get_run_local [OF assms(1) P(3,2) assms(4,6,5,9,12) B'(1-3) assms(19) l assms(11) B'(4)]) (rule that)
  with P newer show ?thesis by simp blast
qed

lemma demo_put_clock [simp]: "put_clock demo_penv demo_abd demo_abd k = Lamport 1 7"
  by (simp add: put_clock_def top_count_def lamport_min_def) (simp add: demo_abd_def abd_new_def)

lemma demo_top_count [simp]: "top_count (get_count lamport_min) [lamport_min] = 0"
  by (simp add: top_count_def lamport_min_def)

lemma demo_max_package_size [simp]: "ab_max_package_size demo_abd = 68"
  by (simp add: demo_abd_def abd_new_def MetaDataSize_def)

theorem put_then_get_across_nodes_witness:
  "\<exists>A B out s st B1 A1. put_run demo_penv demo_event demo_event demo_event 0 1 (encoded [1] [9] []) demo_abd demo_abd = Some (A, B) \<and>
     ab_out A = out @ [Put_ret ACK] \<and> look demo_penv A [1] = Some (Lamport 1 7, [9]) \<and>
     get_run demo_penv demo_event demo_event demo_event 0 0 (encoded [1] [] []) B A = Some (B1, A1) \<and>
     B1 = emit (Get_ret s) st \<and> span_bytes s = Some [9]"
proof -
  have "(0 :: u32) < - 1" by (simp add: word_neq_0_conv [symmetric])
  then show ?thesis
    using put_then_get_across_nodes [OF demo_penv_ok demo_abd_inv(2,2) demo_event_ok(1,1,1,2,2),
      of "[1]" "[9]" "[]" 1 0 0] by (simp del: One_nat_def) fastforce
qed

text \<open>
  C5. A read can spoil a replica.  A put at \<open>A\<close> has sent its value to the group and stored it, but node \<open>B\<close>
  has not got the packet yet.  A get at a third node \<open>C\<close>, which is behind, is answered by \<open>A\<close>: it returns
  key and clock bytes in place of the value and writes these back to the group, under the clock of
  the put.  When the write-back reaches \<open>B\<close> before the put does, \<open>B\<close> stores the wrong value and ignores the
  put, so two nodes have different values under one clock.
\<close>

theorem read_spoils_replica:
  assumes "penv_ok env cap" "abd_wf env A" "abd_wf env B" "abd_wf env C" "ev_ok env ev" "ev_attempts ev = []"
    and "k \<noteq> []" "length v \<le> cap" "length k + 8 \<le> cap" "16 \<le> length v"
    and "length k + length v + 52 < 2 ^ 64" "length k + length u + 44 < 2 ^ 64" "2 * length k + 60 < 2 ^ 64"
    and "ab_replicas A \<noteq> []" "length (key_group A k) = 2" "ab_replicas C \<noteq> []" "length (key_group C k) = 2"
    and "same_key A B" "same_key A C" "length k + 8 + length v \<le> unat (ab_max_package_size C)"
    and "top_count (get_count (old_clock (look env A k))) [old_clock (look env B k)] < - 1"
    and "old_clock (look env C k) < put_clock env A B k" "j < 2" "i < 2" "i' < 2"
  shows "\<exists>A1 A2 B1 C2 A3 s st B2 B3. benchmark_put env ev A (encoded k v []) = Some A1 \<and>
    exchange env ev ev h j A1 B = Some (A2, B1) \<and>
    get_run env ev ev ev h i (encoded k u []) C A2 = Some (C2, A3) \<and>
    C2 = emit (Get_ret s) st \<and> span_bytes s = Some (k @ lamport_bytes (put_clock env A B k)) \<and>
    deliver env ev h i' C2 B1 = Some B2 \<and> deliver env ev h j A3 B2 = Some B3 \<and>
    look env A3 k = Some (put_clock env A B k, v) \<and>
    look env B3 k = Some (put_clock env A B k, k @ lamport_bytes (put_clock env A B k))"
proof -
  let ?c = "put_clock env A B k"
  note newer = put_clock_newer(3) [OF assms(21), of v] put_clock_newer(4) [OF assms(21), of "k @ lamport_bytes ?c"]
  obtain A1 A2 B1 where P: "benchmark_put env ev A (encoded k v []) = Some A1" "exchange env ev ev h j A1 B = Some (A2, B1)"
    "abd_wf env A2" "same_key A2 A" "look env A2 = (look env A)(k \<mapsto> newer (look env A k) (?c, v))"
    "abd_wf env B1" "same_config B1 B" "look env B1 = look env B"
    "\<And>i. i < 2 \<Longrightarrow> asks env A2 (Suc (length (ab_ctxs A))) i PutReplica AckPutTime (k @ lamport_bytes ?c) v"
    by (rule put_until_sent [OF assms(1-3,5,5,5,6,7,8,11,14,15,18,23)]) (rule that)
  have lA: "look env A2 k = Some (?c, v)" using P(5) newer(1) by simp
  have key: "same_key C A2" using P(4) assms(19) by simp
  obtain C2 A3 s st where G: "get_run env ev ev ev h i (encoded k u []) C A2 = Some (C2, A3)"
    "C2 = emit (Get_ret s) st" "span_bytes s = Some (k @ lamport_bytes ?c)" "abd_wf env C2" "same_key C2 C"
    "answers env A2 (Some h) (k @ lamport_bytes ?c) v A3"
    "\<And>i. i < 2 \<Longrightarrow> asks env C2 (Suc (length (ab_ctxs C))) i PutReplica RetGetPutUpdate (k @ lamport_bytes ?c) (k @ lamport_bytes ?c)"
    by (rule get_run_remote [OF assms(1,4) P(3) assms(5,5,5,7,12,13,16,17) key assms(24,22) lA assms(11,20,10)]) (rule that)
  have "same_key C2 B1" "length (k @ lamport_bytes ?c) \<le> cap" using G(5) P(7) assms(9,18,19) by simp_all
  note put1 = deliver_put [OF assms(1) P(6) assms(5,6) G(7) [OF assms(25)] this]
  obtain B2 where B2: "deliver env ev h i' C2 B1 = Some B2" "abd_wf env B2" "same_config B2 B1"
    "look env B2 = (look env B1)(k \<mapsto> newer (look env B1 k) (?c, k @ lamport_bytes ?c))"
    by (rule put1) (rule that)
  have ask: "asks env A3 (Suc (length (ab_ctxs A))) j PutReplica AckPutTime (k @ lamport_bytes ?c) v"
    using P(9) [OF assms(23)] answers_asks [OF G(6)] by simp
  have "same_key A3 B2" using answersD(4) [OF G(6)] P(4,7) B2(3) assms(18) by simp
  note put2 = deliver_put [OF assms(1) B2(2) assms(5,6) ask this assms(8)]
  obtain B3 where B3: "deliver env ev h j A3 B2 = Some B3"
    "look env B3 = (look env B2)(k \<mapsto> newer (look env B2 k) (?c, v))"
    by (rule put2) (rule that)
  have "look env B2 k = Some (?c, k @ lamport_bytes ?c)" using B2(4) P(8) newer(2) by simp
  then have "look env B3 k = Some (?c, k @ lamport_bytes ?c)" using B3(2) by simp
  moreover have "look env A3 k = Some (?c, v)" using answersD(2) [OF G(6)] lA by simp
  ultimately show ?thesis using P(1,2) G(1-3) B2(1) B3(1) by blast
qed

theorem read_spoils_replica_witness:
  "\<exists>A1 A2 B1 C2 A3 s st B2 B3. benchmark_put demo_penv demo_event demo_abd (encoded [1] (replicate 16 9) []) = Some A1 \<and>
    exchange demo_penv demo_event demo_event 0 0 A1 demo_abd = Some (A2, B1) \<and>
    get_run demo_penv demo_event demo_event demo_event 0 0 (encoded [1] [] []) demo_abd A2 = Some (C2, A3) \<and>
    C2 = emit (Get_ret s) st \<and> span_bytes s = Some ([1] @ lamport_bytes (Lamport 1 7)) \<and>
    deliver demo_penv demo_event 0 1 C2 B1 = Some B2 \<and> deliver demo_penv demo_event 0 0 A3 B2 = Some B3 \<and>
    look demo_penv A3 [1] = Some (Lamport 1 7, replicate 16 9) \<and>
    look demo_penv B3 [1] = Some (Lamport 1 7, [1] @ lamport_bytes (Lamport 1 7))"
proof -
  have "(0 :: u32) < - 1" by (simp add: word_neq_0_conv [symmetric])
  moreover have "lamport_min < Lamport 1 7" by (simp add: lamport_min_def lamport_less_iff)
  ultimately show ?thesis
    using read_spoils_replica [OF demo_penv_ok demo_abd_inv(2,2,2) demo_event_ok,
      of "[1]" "replicate 16 9" "[]" 0 0 1 0] by simp
qed

end
