(* ===== verification/Process.thy ===== *)
theory Process
  imports Protocol_Properties
begin

text \<open>
  One server process: \<open>create_threads\<close> starts several threads, each with an \<open>ABD\<close> object of its own, but
  all with the same store and the same machine id (\<open>server_thread\<close> passes \<open>base_id\<close> and \<open>*store\<close>).  The
  steps of the threads interleave at the calls of the store; the only continuation with two of them is
  \<open>req_conts_impl<GetTime>\<close>, which reads the clock, sends the put, and then puts into the store.

  Shown here: under every interleaving the shared store is well-formed and takes larger entries only
  (interfaces \<open>monotone_system\<close> and \<open>refinement_mapping\<close>); and two threads can take the same clock
  for two different values, after which one of the two acknowledged puts is in no store.
\<close>

record 's process =
  pr_kv :: "'s kv_store"
  pr_thread :: "nat \<Rightarrow> 's abd"
  pr_pending :: "nat \<Rightarrow> node option"

text \<open>The object of thread \<open>i\<close> with the shared store.\<close>

definition thread :: "'s process \<Rightarrow> nat \<Rightarrow> 's abd" where
  "thread p i = (pr_thread p i)\<lparr>ab_kv := pr_kv p\<rparr>"

definition set_thread :: "'s process \<Rightarrow> nat \<Rightarrow> 's abd \<Rightarrow> 's process" where
  "set_thread p i st = p\<lparr>pr_kv := ab_kv st, pr_thread := (pr_thread p)(i := st)\<rparr>"

text \<open>
  A response that completes the quorum of a timestamp query, up to the put into the store, and this
  put.
\<close>

definition time_response ::
  "('s, 'p) penv \<Rightarrow> event \<Rightarrow> 's abd \<Rightarrow> nat \<Rightarrow> bytes \<Rightarrow> ('s abd \<times> node) option" where
  "time_response env ev st cid resp = do {
     c \<leftarrow> ctx_at st cid;
     (c, fires) \<leftarrow> gate c resp;
     _ \<leftarrow> assert_that fires;
     cont_get_time_send env ev (set_ctx st cid c) cid
   }"

definition time_put :: "('s, 'p) penv \<Rightarrow> 's process \<Rightarrow> nat \<Rightarrow> 's process option" where
  "time_put env p i = do {
     n \<leftarrow> pr_pending p i;
     (kv, b) \<leftarrow> kv_put (pe_kv env) [] (pr_kv p) n;
     Some (p\<lparr>pr_kv := kv, pr_pending := (pr_pending p)(i := None)\<rparr>)
   }"

inductive process_step :: "('s, 'p) penv \<Rightarrow> 's process \<Rightarrow> 's process \<Rightarrow> bool" for env where
  whole: "pr_pending p i = None \<Longrightarrow> node_event env (thread p i) st \<Longrightarrow> process_step env p (set_thread p i st)"
| send: "pr_pending p i = None \<Longrightarrow> ev_ok env ev \<Longrightarrow> time_response env ev (thread p i) cid resp = Some (st, n) \<Longrightarrow>
    process_step env p ((set_thread p i st)\<lparr>pr_pending := (pr_pending p)(i := Some n)\<rparr>)"
| put: "time_put env p i = Some q \<Longrightarrow> process_step env p q"

inductive_cases process_stepE: "process_step env p q"

text \<open>The two halves without another step between them are the continuation.\<close>

lemma time_response_put:
  assumes "time_response env ev st cid resp = Some (st', n)" "kv_put (pe_kv env) [] (ab_kv st') n = Some (kv, b)"
    and "ev_attempts ev = []"
  shows "req_conts env ev st GetTime cid resp = Some (st'\<lparr>ab_kv := kv\<rparr>)"
  using assms
  by (auto simp: time_response_def bind_eq_Some_conv cont_get_time_split req_conts_gate)

section \<open>Every interleaving keeps the store\<close>

definition process_ok :: "('s, 'p) penv \<Rightarrow> 's process \<Rightarrow> bool" where
  "process_ok env p \<longleftrightarrow> (\<forall>i. abd_inv env (thread p i)) \<and>
     (\<forall>i n. pr_pending p i = Some n \<longrightarrow> (\<exists>m. nd_meta n = Some m \<and> meta_ok (pe_kv env) m))"

lemma abd_inv_kv: "abd_inv env st \<Longrightarrow> kv_wf (pe_kv env) kv \<Longrightarrow> abd_inv env (st\<lparr>ab_kv := kv\<rparr>)"
  by (simp add: abd_inv_def abd_wf_def)

lemma process_ok_set:
  assumes "process_ok env p" "abd_inv env st"
  shows "process_ok env (set_thread p i st)"
proof -
  have "kv_wf (pe_kv env) (ab_kv st)" using assms(2) by (simp add: abd_inv_def abd_wf_def)
  then have "abd_inv env ((thread p j)\<lparr>ab_kv := ab_kv st\<rparr>)" for j
    using assms(1) by (intro abd_inv_kv) (simp_all add: process_ok_def)
  with assms show ?thesis by (simp add: process_ok_def set_thread_def thread_def)
qed

lemma cont_get_time_send_keeps:
  assumes ok: "penv_ok env cap" "ev_ok env ev" and c: "cont_get_time_send env ev st cid = Some (st', n)"
  shows "keeps env st st'" "abd_inv env st \<Longrightarrow> \<exists>m. nd_meta n = Some m \<and> meta_ok (pe_kv env) m" "ab_kv st' = ab_kv st"
proof -
  obtain c meta clock bld st2 where D: "ctx_at st cid = Some c" "nd_meta (rc_data c) = Some meta"
    "abd_send_msg env ev (st\<lparr>ab_ctxs := ab_ctxs st @ [rc_create (ab_max_package_size st) (rc_handle c)]\<rparr>)
       (length (ab_ctxs st)) (node_span (rc_data c)) PutReplica AckPutTime bld = Some st2"
    "set_ctx_data st2 cid n = Some st'" "n = (rc_data c)\<lparr>nd_meta := Some (meta\<lparr>md_clock := clock\<rparr>)\<rparr>"
    using c by (auto simp: cont_get_time_send_def Let_def bind_eq_Some_conv create_rep_context_def)
  have m: "meta_ok (pe_kv env) (meta\<lparr>md_clock := clock\<rparr>)" if "abd_inv env st"
    using ctx_at_meta_ok [OF that D(1,2)] by (simp add: meta_ok_def meta_value_def)
  have 1: "keeps env st st2" by (rule keeps_trans [OF keeps_create_rep_context abd_send_msg_keeps [OF D(3) ok(2)]])
  have 2: "keeps env st2 st'" if "abd_inv env st"
    using D(4,5) m [OF that] by (auto simp: set_ctx_data_def intro!: keeps_set_ctx)
  show "keeps env st st'" by (rule keeps_if_inv) (rule keeps_trans [OF 1 2])
  show "\<exists>m. nd_meta n = Some m \<and> meta_ok (pe_kv env) m" if "abd_inv env st" using m [OF that] D(5) by auto
  show "ab_kv st' = ab_kv st"
    using D(3,4) by (auto simp: set_ctx_data_def abd_send_msg_def bind_eq_Some_conv Let_def split: if_splits)
qed

lemma time_response_keeps:
  assumes ok: "penv_ok env cap" "ev_ok env ev" and c: "time_response env ev st cid resp = Some (st', n)"
  shows "keeps env st st'" "abd_inv env st \<Longrightarrow> \<exists>m. nd_meta n = Some m \<and> meta_ok (pe_kv env) m"
proof -
  obtain c c' where D: "ctx_at st cid = Some c" "gate c resp = Some (c', True)"
    "cont_get_time_send env ev (set_ctx st cid c') cid = Some (st', n)"
    using c by (auto simp: time_response_def bind_eq_Some_conv)
  have data: "rc_data c' = rc_data c" using D(2) by (auto simp: gate_def add_to_cache_def bind_eq_Some_conv Let_def)
  have mem: "c \<in> set (ab_ctxs st)" using ctx_atD [OF D(1)] by (metis nth_mem)
  have 1: "keeps env st (set_ctx st cid c')" using data mem by (intro keeps_set_ctx) auto
  note 2 = cont_get_time_send_keeps [OF ok D(3)]
  show "keeps env st st'" by (rule keeps_trans [OF 1 2(1)])
  show "\<exists>m. nd_meta n = Some m \<and> meta_ok (pe_kv env) m" if "abd_inv env st"
    using 1 that by (intro 2(2)) (simp add: keeps_def)
qed

lemma process_step_ok:
  assumes ok: "penv_ok env cap" "process_ok env p" and step: "process_step env p q"
  shows "process_ok env q \<and> reg_write\<^sup>*\<^sup>* (kv_look (pe_kv env) (pr_kv p)) (kv_look (pe_kv env) (pr_kv q))"
  using step
proof (cases rule: process_step.cases)
  case (whole i st)
  have inv: "abd_inv env (thread p i)" using ok(2) by (simp add: process_ok_def)
  with node_event_keeps [OF ok(1) whole(3)] whole(1) show ?thesis
    using process_ok_set [OF ok(2), of st i] by (simp add: keeps_def thread_def set_thread_def)
next
  case (send i ev cid resp st n)
  have inv: "abd_inv env (thread p i)" using ok(2) by (simp add: process_ok_def)
  note keep = time_response_keeps [OF ok(1) send(3,4)]
  have "process_ok env (set_thread p i st)" using keep(1) inv by (intro process_ok_set [OF ok(2)]) (simp add: keeps_def)
  with keep inv send(1) show ?thesis
    by (auto simp: process_ok_def keeps_def thread_def set_thread_def)
next
  case (put i)
  obtain n kv b where n: "pr_pending p i = Some n" "kv_put (pe_kv env) [] (pr_kv p) n = Some (kv, b)"
    "q = p\<lparr>pr_kv := kv, pr_pending := (pr_pending p)(i := None)\<rparr>"
    using put by (auto simp: time_put_def bind_eq_Some_conv)
  obtain m where m: "nd_meta n = Some m" "meta_ok (pe_kv env) m"
    using ok(2) n(1) unfolding process_ok_def by blast
  have "abd_inv env (thread p i)" using ok(2) by (simp add: process_ok_def)
  then have wf: "kv_wf (pe_kv env) (pr_kv p)" by (simp add: abd_inv_def abd_wf_def thread_def)
  note w = kv_put_reg_write [OF penv_okD(1) [OF ok(1)] wf m n(2)]
  have "abd_inv env ((thread p j)\<lparr>ab_kv := kv\<rparr>)" for j
    using ok(2) w(1) by (intro abd_inv_kv) (simp_all add: process_ok_def)
  then show ?thesis
    using w(2) ok(2) n(3) by (auto simp: process_ok_def thread_def)
qed

definition process_inv :: "nat \<times> ('s, 'p) penv \<times> 's process \<Rightarrow> bool" where
  "process_inv = (\<lambda>(cap, env, p). penv_ok env cap \<and> process_ok env p)"

definition process_next :: "nat \<times> ('s, 'p) penv \<times> 's process \<Rightarrow> nat \<times> ('s, 'p) penv \<times> 's process \<Rightarrow> bool" where
  "process_next = (\<lambda>(cap, env, p) (cap', env', q). cap' = cap \<and> env' = env \<and> process_step env p q)"

definition process_regs :: "nat \<times> ('s, 'p) penv \<times> 's process \<Rightarrow> registers" where
  "process_regs = (\<lambda>(cap, env, p). kv_look (pe_kv env) (pr_kv p))"

interpretation process_sim: refinement_mapping process_inv process_regs process_next reg_write
  by unfold_locales (auto simp: process_inv_def process_next_def process_regs_def dest: process_step_ok)

interpretation process: monotone_system process_inv "\<lambda>x k. old_clock (process_regs x k)" process_next
  by unfold_locales
    (auto intro: process_sim.inv_step reg_writes_clock [OF process_sim.sim_step])

lemma process_run_next:
  "(process_step env)\<^sup>*\<^sup>* p q \<Longrightarrow> process_next\<^sup>*\<^sup>* (cap, env, p) (cap, env, q)"
proof (induction rule: rtranclp_induct)
  case (step q r)
  then have "process_next (cap, env, q) (cap, env, r)" by (simp add: process_next_def)
  with step.IH show ?case by (rule rtranclp.rtrancl_into_rtrancl)
qed simp

lemma process_run:
  assumes "penv_ok env cap" "process_ok env p" "(process_step env)\<^sup>*\<^sup>* p q"
  shows "process_ok env q" "evolves (kv_look (pe_kv env) (pr_kv p) k) (kv_look (pe_kv env) (pr_kv q) k)"
  using process_sim.run_inv [OF process_run_next [OF assms(3), of cap]]
    reg_writes_evolve [OF process_sim.run_sim [OF process_run_next [OF assms(3), of cap]], of k] assms(1,2)
  by (simp_all add: process_inv_def process_regs_def)

section \<open>Two threads, one clock\<close>

text \<open>
  Thread \<open>i\<close> has a pending put of \<open>k\<close> with value \<open>v\<close>; response \<open>r\<close> completes its quorum, and \<open>ls\<close> are the
  clocks of its responses.
\<close>

definition put_ready ::
  "('s, 'p) penv \<Rightarrow> 's abd \<Rightarrow> nat \<Rightarrow> bytes \<Rightarrow> bytes \<Rightarrow> bytes \<Rightarrow> lamport list \<Rightarrow> replica_context \<Rightarrow> bool" where
  "put_ready env st cid r k v ls c' \<longleftrightarrow> (\<exists>c. ctx_at st cid = Some c \<and> gate c r = Some (c', True)) \<and>
     holds env c' k v lamport_min \<and> rc_wf c' \<and> clock_responses env st c' ls \<and>
     ab_replicas st \<noteq> [] \<and> key_group st k \<noteq> []"

lemma time_response_spec:
  fixes st :: "'s abd"
  assumes ok: "penv_ok env cap" "abd_wf env st" "ev_ok env ev" and r: "put_ready env st cid r k v ls c'"
    and key: "k \<noteq> []" "length k + length v + 52 < 2 ^ 64"
    and clock: "clock = Lamport (top_count (get_count (old_clock (look env st k))) ls + 1) (ab_m_id st)"
  obtains st1 st' m where "time_response env ev st cid r = Some (st', \<lparr>nd_key = k, nd_meta = Some m\<rparr>)"
    "meta_value (pe_kv env) m = Some v" "md_clock m = clock" "meta_ok (pe_kv env) m" "ab_kv st' = ab_kv st"
    "ab_out st' = ab_out st1"
    "sends env (fst (create_rep_context (set_ctx st cid c') (rc_handle c'))) (rc_create (ab_max_package_size st) (rc_handle c'))
       (length (ab_ctxs st)) (key_group st k) PutReplica AckPutTime (k @ lamport_bytes clock) v st1"
proof -
  obtain c where c: "ctx_at st cid = Some c" "gate c r = Some (c', True)" using r by (auto simp: put_ready_def)
  let ?st = "set_ctx st cid c'"
  have ctx: "ctx_at ?st cid = Some c'" using ctx_atD [OF c(1)] by (simp add: ctx_at_def)
  have H: "abd_wf env ?st" "holds env c' k v lamport_min" "rc_wf c'" "clock_responses env ?st c' ls"
    "ab_replicas ?st \<noteq> []" "key_group ?st k \<noteq> []"
    "clock = Lamport (top_count (get_count (old_clock (look env ?st k))) ls + 1) (ab_m_id ?st)"
    using r ok(2) clock by (simp_all add: put_ready_def clock_responses_def abd_wf_def)
  obtain st1 st' m where "cont_get_time_send env ev ?st cid = Some (st', \<lparr>nd_key = k, nd_meta = Some m\<rparr>)"
    "meta_value (pe_kv env) m = Some v" "md_clock m = clock" "meta_ok (pe_kv env) m"
    "sends env (fst (create_rep_context ?st (rc_handle c'))) (rc_create (ab_max_package_size ?st) (rc_handle c'))
       (length (ab_ctxs ?st)) (key_group ?st k) PutReplica AckPutTime (k @ lamport_bytes clock) v st1"
    "st' = set_ctx st1 cid (c'\<lparr>rc_data := \<lparr>nd_key = k, nd_meta = Some m\<rparr>\<rparr>)" "ab_kv st1 = ab_kv ?st"
    by (rule cont_get_time_send_spec [OF ok(1) H(1) ok(3) ctx H(2-4) key H(5-7)]) (rule that)
  then show ?thesis using c by (intro that [of st' m st1]) (simp_all add: time_response_def)
qed

lemma time_put_spec:
  assumes ok: "penv_ok env cap" "kv_wf (pe_kv env) (pr_kv p)"
    and n: "pr_pending p i = Some \<lparr>nd_key = k, nd_meta = Some m\<rparr>" "meta_value (pe_kv env) m = Some v" "meta_ok (pe_kv env) m"
  obtains kv where "time_put env p i = Some (p\<lparr>pr_kv := kv, pr_pending := (pr_pending p)(i := None)\<rparr>)"
    "kv_wf (pe_kv env) kv"
    "kv_look (pe_kv env) kv = (kv_look (pe_kv env) (pr_kv p))
       (k \<mapsto> newer (kv_look (pe_kv env) (pr_kv p) k) (md_clock m, v))"
  by (rule kv_put_alone [OF penv_okD(1) [OF ok(1)] ok(2) n(2,3), of k]) (auto simp: time_put_def n(1) intro: that)

text \<open>Two threads send their requests one after the other; neither has stored yet.\<close>

lemma two_responses:
  assumes "ev_ok env ev" "i \<noteq> j" "pr_pending p i = None" "pr_pending p j = None"
    and "time_response env ev (thread p i) ci ri = Some (ti, n)" "ab_kv ti = ab_kv (thread p i)"
    and "time_response env ev (thread p j) cj rj = Some (tj, m)" "ab_kv tj = ab_kv (thread p j)"
  obtains q where "(process_step env)\<^sup>*\<^sup>* p q" "pr_kv q = pr_kv p" "pr_pending q i = Some n" "pr_pending q j = Some m"
    "ab_out (thread q i) = ab_out ti" "ab_out (thread q j) = ab_out tj"
proof -
  have kv: "ab_kv ti = pr_kv p" "ab_kv tj = pr_kv p" using assms(6,8) by (simp_all add: thread_def)
  let ?p1 = "(set_thread p i ti)\<lparr>pr_pending := (pr_pending p)(i := Some n)\<rparr>"
  let ?q = "(set_thread ?p1 j tj)\<lparr>pr_pending := (pr_pending ?p1)(j := Some m)\<rparr>"
  have "process_step env p ?p1" by (rule process_step.send [OF assms(3,1,5)])
  moreover have "thread ?p1 j = thread p j" using assms(2) kv(1) by (simp add: thread_def set_thread_def)
  then have "process_step env ?p1 ?q"
    using assms(2,4,7) by (intro process_step.send [OF _ assms(1)]) simp_all
  ultimately have "(process_step env)\<^sup>*\<^sup>* p ?q" by (meson r_into_rtranclp rtranclp.rtrancl_into_rtrancl)
  then show thesis using assms(2) kv by (intro that [of ?q]) (simp_all add: thread_def set_thread_def)
qed

text \<open>The two stores of a clock that is newer than the stored one: the first value stays.\<close>

lemma equal_clocks_first_stays:
  assumes "penv_ok env cap" "kv_wf (pe_kv env) (pr_kv p)" "i \<noteq> j"
    and "pr_pending p i = Some \<lparr>nd_key = k, nd_meta = Some m\<rparr>" "pr_pending p j = Some \<lparr>nd_key = k, nd_meta = Some n\<rparr>"
    and "meta_value (pe_kv env) m = Some v" "meta_ok (pe_kv env) m" "meta_value (pe_kv env) n = Some w" "meta_ok (pe_kv env) n"
    and "md_clock m = clock" "md_clock n = clock" "old_clock (kv_look (pe_kv env) (pr_kv p) k) < clock"
  obtains q where "(process_step env)\<^sup>*\<^sup>* p q" "pr_pending q i = None" "pr_pending q j = None"
    "\<And>l. ab_out (thread q l) = ab_out (thread p l)"
    "kv_look (pe_kv env) (pr_kv q) = (kv_look (pe_kv env) (pr_kv p))(k \<mapsto> (clock, v))"
proof -
  from time_put_spec [OF assms(1,2,4,6,7)] obtain kv3 where
    T3: "time_put env p i = Some (p\<lparr>pr_kv := kv3, pr_pending := (pr_pending p)(i := None)\<rparr>)" "kv_wf (pe_kv env) kv3"
    "kv_look (pe_kv env) kv3 = (kv_look (pe_kv env) (pr_kv p))(k \<mapsto> newer (kv_look (pe_kv env) (pr_kv p) k) (clock, v))"
    unfolding assms(10) by blast
  let ?p3 = "p\<lparr>pr_kv := kv3, pr_pending := (pr_pending p)(i := None)\<rparr>"
  have P3: "pr_kv ?p3 = kv3" "pr_pending ?p3 j = Some \<lparr>nd_key = k, nd_meta = Some n\<rparr>" using assms(3,5) by simp_all
  have "kv_wf (pe_kv env) (pr_kv ?p3)" using T3(2) by simp
  from time_put_spec [OF assms(1) this P3(2) assms(8,9)] obtain kv4 where
    T4: "time_put env ?p3 j = Some (?p3\<lparr>pr_kv := kv4, pr_pending := (pr_pending ?p3)(j := None)\<rparr>)"
    "kv_look (pe_kv env) kv4 = (kv_look (pe_kv env) kv3)(k \<mapsto> newer (kv_look (pe_kv env) kv3 k) (clock, w))"
    unfolding P3(1) assms(11) by blast
  let ?q = "?p3\<lparr>pr_kv := kv4, pr_pending := (pr_pending ?p3)(j := None)\<rparr>"
  have "newer (kv_look (pe_kv env) (pr_kv p) k) (clock, v) = (clock, v)"
    using assms(12) by (cases "kv_look (pe_kv env) (pr_kv p) k") auto
  then have "kv_look (pe_kv env) (pr_kv ?q) = (kv_look (pe_kv env) (pr_kv p))(k \<mapsto> (clock, v))"
    using T3(3) T4(2) by simp
  moreover have "(process_step env)\<^sup>*\<^sup>* p ?q"
    using process_step.put [OF T3(1)] process_step.put [OF T4(1)] by (meson rtranclp.rtrancl_refl rtranclp.rtrancl_into_rtrancl)
  moreover have "pr_pending ?q i = None" "pr_pending ?q j = None" using assms(3) by simp_all
  moreover have "ab_out (thread ?q l) = ab_out (thread p l)" for l by (simp add: thread_def)
  ultimately show thesis by (intro that [of ?q])
qed

text \<open>
  C7. Two threads of one process share a machine id.  When both have a put of the same key under way and both
  read the same largest counter, there is an interleaving in which both send their values under the same clock
  to the group, and the store keeps the value of the one that puts first.  From then on the entry changes only to
  a larger clock, so the value of the other thread never gets into the store.
\<close>

theorem threads_take_one_clock:
  fixes p :: "'s process"
  assumes "penv_ok env cap" "process_ok env p" "ev_ok env ev" "i \<noteq> j" "pr_pending p i = None" "pr_pending p j = None"
    and "ab_m_id (thread p i) = ab_m_id (thread p j)"
    and "put_ready env (thread p i) ci ri k v ls xi" "put_ready env (thread p j) cj rj k w ls' xj"
    and "k \<noteq> []" "length k + length v + 52 < 2 ^ 64" "length k + length w + 52 < 2 ^ 64"
    and "old = old_clock (kv_look (pe_kv env) (pr_kv p) k)"
    and "top_count (get_count old) ls = top_count (get_count old) ls'" "top_count (get_count old) ls < - 1"
    and "clock = Lamport (top_count (get_count old) ls + 1) (ab_m_id (thread p i))"
  shows "\<exists>q sti stj oi oj. (process_step env)\<^sup>*\<^sup>* p q \<and> pr_pending q i = None \<and> pr_pending q j = None \<and>
    sends env oi (rc_create (ab_max_package_size (thread p i)) (rc_handle xi)) (length (ab_ctxs (thread p i)))
      (key_group (thread p i) k) PutReplica AckPutTime (k @ lamport_bytes clock) v sti \<and>
    sends env oj (rc_create (ab_max_package_size (thread p j)) (rc_handle xj)) (length (ab_ctxs (thread p j)))
      (key_group (thread p j) k) PutReplica AckPutTime (k @ lamport_bytes clock) w stj \<and>
    ab_out (thread q i) = ab_out sti \<and> ab_out (thread q j) = ab_out stj \<and>
    kv_look (pe_kv env) (pr_kv q) = (kv_look (pe_kv env) (pr_kv p))(k \<mapsto> (clock, v)) \<and>
    (\<forall>q'. (process_step env)\<^sup>*\<^sup>* q q' \<longrightarrow> evolves (Some (clock, v)) (kv_look (pe_kv env) (pr_kv q') k))"
proof -
  have wf: "abd_wf env (thread p i)" "abd_wf env (thread p j)" "kv_wf (pe_kv env) (pr_kv p)"
    using assms(2) by (simp_all add: process_ok_def abd_inv_def) (simp add: abd_wf_def thread_def)
  have look: "look env (thread p l) = kv_look (pe_kv env) (pr_kv p)" for l by (simp add: thread_def)
  have ci: "clock = Lamport (top_count (get_count (old_clock (look env (thread p i) k))) ls + 1) (ab_m_id (thread p i))"
    and cj: "clock = Lamport (top_count (get_count (old_clock (look env (thread p j) k))) ls' + 1) (ab_m_id (thread p j))"
    using assms(7,13,14,16) look by simp_all
  obtain sti ti m where I: "time_response env ev (thread p i) ci ri = Some (ti, \<lparr>nd_key = k, nd_meta = Some m\<rparr>)"
    "meta_value (pe_kv env) m = Some v" "md_clock m = clock" "meta_ok (pe_kv env) m" "ab_kv ti = ab_kv (thread p i)"
    "ab_out ti = ab_out sti"
    "sends env (fst (create_rep_context (set_ctx (thread p i) ci xi) (rc_handle xi)))
       (rc_create (ab_max_package_size (thread p i)) (rc_handle xi)) (length (ab_ctxs (thread p i))) (key_group (thread p i) k)
       PutReplica AckPutTime (k @ lamport_bytes clock) v sti"
    by (rule time_response_spec [OF assms(1) wf(1) assms(3,8,10,11) ci]) (rule that)
  obtain stj tj n where J: "time_response env ev (thread p j) cj rj = Some (tj, \<lparr>nd_key = k, nd_meta = Some n\<rparr>)"
    "meta_value (pe_kv env) n = Some w" "md_clock n = clock" "meta_ok (pe_kv env) n" "ab_kv tj = ab_kv (thread p j)"
    "ab_out tj = ab_out stj"
    "sends env (fst (create_rep_context (set_ctx (thread p j) cj xj) (rc_handle xj)))
       (rc_create (ab_max_package_size (thread p j)) (rc_handle xj)) (length (ab_ctxs (thread p j))) (key_group (thread p j) k)
       PutReplica AckPutTime (k @ lamport_bytes clock) w stj"
    by (rule time_response_spec [OF assms(1) wf(2) assms(3,9,10,12) cj]) (rule that)
  obtain p2 where P2: "(process_step env)\<^sup>*\<^sup>* p p2" "pr_kv p2 = pr_kv p" "pr_pending p2 i = Some \<lparr>nd_key = k, nd_meta = Some m\<rparr>"
    "pr_pending p2 j = Some \<lparr>nd_key = k, nd_meta = Some n\<rparr>" "ab_out (thread p2 i) = ab_out ti" "ab_out (thread p2 j) = ab_out tj"
    by (rule two_responses [OF assms(3-6) I(1,5) J(1,5)]) (rule that)
  have kv2: "kv_wf (pe_kv env) (pr_kv p2)" using wf(3) P2(2) by (simp only:)
  have new: "old_clock (kv_look (pe_kv env) (pr_kv p2) k) < clock"
    unfolding P2(2) assms(13) [symmetric] assms(16) using next_clock_greater [OF assms(15)] by simp
  obtain q where q: "(process_step env)\<^sup>*\<^sup>* p2 q" "pr_pending q i = None" "pr_pending q j = None"
    "\<And>l. ab_out (thread q l) = ab_out (thread p2 l)"
    "kv_look (pe_kv env) (pr_kv q) = (kv_look (pe_kv env) (pr_kv p))(k \<mapsto> (clock, v))"
    by (rule equal_clocks_first_stays [OF assms(1) kv2 assms(4) P2(3,4) I(2,4) J(2,4) I(3) J(3) new]) (rule that, simp_all only: P2(2))
  have run: "(process_step env)\<^sup>*\<^sup>* p q" using P2(1) q(1) by (rule rtranclp_trans)
  have "evolves (Some (clock, v)) (kv_look (pe_kv env) (pr_kv q') k)" if "(process_step env)\<^sup>*\<^sup>* q q'" for q'
    using process_run(2) [OF assms(1) process_run(1) [OF assms(1,2) run] that, of k] unfolding q(5) by simp
  moreover have "ab_out (thread p2 i) = ab_out sti" "ab_out (thread p2 j) = ab_out stj"
    using P2(5,6) I(6) J(6) by simp_all
  ultimately show ?thesis using I(7) J(7) run q(2-5) by metis
qed

text \<open>Two threads of one node that both wait for a response to the timestamp query of a put.\<close>

definition demo_process :: "node list process" where
  "demo_process = \<lparr>pr_kv = \<lparr>kv_skip = [], kv_next = 0\<rparr>,
     pr_thread = (\<lambda>i. demo_run [1] (if i = 0 then [9] else [8]) []), pr_pending = (\<lambda>i. None)\<rparr>"

lemma demo_thread: "thread demo_process i = demo_run [1] (if i = 0 then [9] else [8]) []"
  by (simp add: thread_def demo_process_def demo_run_def demo_abd_def abd_new_def)

lemma demo_process_ok: "process_ok demo_penv demo_process"
proof -
  have "abd_inv demo_penv (demo_run [1] v [])" if v: "length v \<le> 32" for v
  proof -
    obtain m where "rc_data (demo_ctx [1] v []) = \<lparr>nd_key = [1], nd_meta = Some m\<rparr>" "meta_ok (pe_kv demo_penv) m"
      using demo_ctx_holds [of v "[1]" "[]"] v by (auto simp: holds_def)
    moreover have "ab_ctxs (demo_run [1] v []) = [demo_ctx [1] v []]" by (simp add: demo_run_def)
    ultimately show ?thesis by (simp add: abd_inv_def)
  qed
  then show ?thesis by (simp add: process_ok_def demo_thread) (simp add: demo_process_def)
qed

lemma demo_put_ready:
  assumes "length v \<le> 32" "st = demo_run [1] v []"
  obtains c where "put_ready demo_penv st 0 (demo_packet (encoded (lamport_bytes (Lamport 4 2)) [] [])) [1] v [Lamport 4 2] c"
    "rc_handle c = None"
proof -
  let ?r = "demo_packet (encoded (lamport_bytes (Lamport 4 2)) [] [])" and ?c = "demo_ctx [1] v []"
  have len: "28 < length ?r" "length ?r < 2 ^ 64" by (simp_all add: demo_packet_def)
  have c: "rc_n_resp ?c = 0" "rc_n_msgs ?c = 2" "\<not> rc_done ?c" "rc_cache ?c = []" "rc_handle ?c = None"
    by (simp_all add: demo_ctx_def rc_create_def)
  obtain c' where c': "gate ?c ?r = Some (c', True)" "rc_cache c' = [?r]" "rc_data c' = rc_data ?c" "rc_handle c' = None"
    using gate_total [OF len, of ?c] c by (auto simp: quorum_def)
  have "rc_wf ?c" by (rule demo_ctx_wf) simp
  then have "rc_wf c'" by (rule gate_wf [OF c'(1) _ len(2)])
  moreover have "holds demo_penv c' [1] v lamport_min"
    using demo_ctx_holds [of v "[1]" "[]"] assms(1) c'(3) by (simp add: holds_def)
  moreover have "clock_responses demo_penv st c' [Lamport 4 2]"
    using c'(2) demo_packet_carries [of "lamport_bytes (Lamport 4 2)" "[]" st] by (simp add: clock_responses_def)
  ultimately show ?thesis using c'(1,4) assms(2) by (intro that [of c']) (simp_all add: put_ready_def)
qed

theorem threads_take_one_clock_witness:
  "\<exists>q sti stj. (process_step demo_penv)\<^sup>*\<^sup>* demo_process q \<and>
    kv_look demo_env (pr_kv q) [1] = Some (Lamport 5 7, [9]) \<and>
    (\<exists>o'. sends demo_penv o' (rc_create 68 None) 1 [1, 2] PutReplica AckPutTime ([1] @ lamport_bytes (Lamport 5 7)) [9] sti) \<and>
    (\<exists>o'. sends demo_penv o' (rc_create 68 None) 1 [1, 2] PutReplica AckPutTime ([1] @ lamport_bytes (Lamport 5 7)) [8] stj) \<and>
    ab_out (thread q 0) = ab_out sti \<and> ab_out (thread q 1) = ab_out stj"
proof -
  obtain x where x: "put_ready demo_penv (thread demo_process 0) 0 (demo_packet (encoded (lamport_bytes (Lamport 4 2)) [] []))
      [1] [9] [Lamport 4 2] x" "rc_handle x = None"
    by (rule demo_put_ready [of "[9]" "thread demo_process 0"]) (simp_all add: demo_thread)
  obtain y where y: "put_ready demo_penv (thread demo_process 1) 0 (demo_packet (encoded (lamport_bytes (Lamport 4 2)) [] []))
      [1] [8] [Lamport 4 2] y" "rc_handle y = None"
    by (rule demo_put_ready [of "[8]" "thread demo_process 1"]) (simp_all add: demo_thread)
  have pending: "pr_pending demo_process l = None" for l by (simp add: demo_process_def)
  have sel: "ab_m_id (thread demo_process l) = 7" "ab_max_package_size (thread demo_process l) = 68"
    "length (ab_ctxs (thread demo_process l)) = 1" "ab_replicas (thread demo_process l) = [[1, 2]]" for l
    by (simp_all add: demo_thread) (simp_all add: demo_run_def demo_abd_def abd_new_def MetaDataSize_def)
  have env: "pe_kv demo_penv = demo_env" by (simp add: demo_penv_def)
  have "kv_look demo_env (pr_kv demo_process) = look demo_penv demo_abd"
    by (simp add: demo_process_def demo_penv_def demo_abd_def abd_new_def)
  then have none: "kv_look demo_env (pr_kv demo_process) [1] = None" by simp
  have top: "top_count (get_count lamport_min) [Lamport 4 2] = 4" by (simp add: top_count_def lamport_min_def)
  have lt: "(4 :: u32) < - 1" by simp
  let ?c = "Lamport 5 7" and ?t = "thread demo_process"
  obtain q sti stj oi oj where q: "(process_step demo_penv)\<^sup>*\<^sup>* demo_process q"
    "sends demo_penv oi (rc_create (ab_max_package_size (?t 0)) (rc_handle x)) (length (ab_ctxs (?t 0)))
      (key_group (?t 0) [1]) PutReplica AckPutTime ([1] @ lamport_bytes ?c) [9] sti"
    "sends demo_penv oj (rc_create (ab_max_package_size (?t 1)) (rc_handle y)) (length (ab_ctxs (?t 1)))
      (key_group (?t 1) [1]) PutReplica AckPutTime ([1] @ lamport_bytes ?c) [8] stj"
    "ab_out (thread q 0) = ab_out sti" "ab_out (thread q 1) = ab_out stj"
    "kv_look (pe_kv demo_penv) (pr_kv q) = (kv_look (pe_kv demo_penv) (pr_kv demo_process))([1] \<mapsto> (?c, [9]))"
    using threads_take_one_clock [OF demo_penv_ok demo_process_ok demo_event_ok(1) _ pending pending _ x(1) y(1) _ _ _ refl _ _, of ?c]
    by (auto simp only: env none top lt sel option.case list.size list.distinct not_False_eq_True zero_neq_one) (simp_all, blast)
  show ?thesis
    using q(1,4,5) q(2,3) [unfolded sel x(2) y(2)] q(6) by (intro exI [of _ q] exI [of _ sti] exI [of _ stj]) (auto simp: env)
qed

end
