(* ===== verification/Hash_Cbc.thy ===== *)
theory Hash_Cbc
  imports Cipher
begin

text \<open>
  The second hash of the repository, class \<open>HashSsl\<close> of \<open>src/include/crypt/hash_openssl.h\<close>: the last
  block of an AES-CBC encryption of the input.  OpenSSL's context is the type \<open>'c\<close>, the calls on it are the
  parameter record \<open>evp_cbc\<close>.

  The theory shows for every update whether it stays within the block (\<open>hc_update_sized\<close>): the
  offset that an update leaves behind is the number of bytes of its last output, that is zero or the
  whole block, and after the latter a short update that completes a block writes behind the object.
  The finalisation never succeeds.
\<close>

section \<open>The parameter\<close>

text \<open>
  \<open>ec_new\<close>: the context \<open>EVP_CIPHER_CTX_new\<close> returns, \<open>None\<close> for the null pointer; \<open>ec_init\<close>, \<open>ec_update\<close>,
  \<open>ec_final\<close>: result of \<open>EVP_EncryptInit_ex\<close>, \<open>EVP_EncryptUpdate\<close> and \<open>EVP_DecryptFinal_ex\<close> with the bytes
  they write and the changed context, \<open>None\<close> for a final call that fails without setting the length; \<open>ec_copy\<close>: the target of \<open>EVP_CIPHER_CTX_copy\<close> afterwards.
\<close>

record 'c evp_cbc =
  ec_new :: "'c option"
  ec_init :: "'c \<Rightarrow> bytes \<Rightarrow> bytes \<Rightarrow> bool \<times> 'c"
  ec_copy :: "'c \<Rightarrow> 'c option \<Rightarrow> 'c"
  ec_update :: "'c \<Rightarrow> bytes \<Rightarrow> bool \<times> bytes \<times> 'c"
  ec_final :: "'c \<Rightarrow> bool \<times> bytes option \<times> 'c"

text \<open>
  What the EVP interface documents for a block cipher with blocks of sixteen bytes: \<open>fill c\<close> bytes of
  an incomplete block wait in the context, an update writes the blocks it completes, and the final call
  writes at most one block.
\<close>

definition evp_cbc_ok :: "'c evp_cbc \<Rightarrow> ('c \<Rightarrow> nat) \<Rightarrow> bool" where
  "evp_cbc_ok e fill \<longleftrightarrow>
     (\<forall>c. fill c < 16) \<and>
     (\<forall>c bs. fst (ec_update e c bs) \<and>
        length (fst (snd (ec_update e c bs))) = 16 * ((fill c + length bs) div 16) \<and>
        fill (snd (snd (ec_update e c bs))) = (fill c + length bs) mod 16) \<and>
     (\<forall>c. case fst (snd (ec_final e c)) of None \<Rightarrow> \<not> fst (ec_final e c) | Some out \<Rightarrow> length out \<le> 16)"

section \<open>The class\<close>

record 'c hash_cbc =
  hc_ctx :: "'c option"
  hc_ok :: bool
  hc_key :: bytes
  hc_iv :: bytes
  hc_block :: bytes
  hc_offset :: u64

definition hc_adjust_size :: "u64 \<Rightarrow> u64" where
  "hc_adjust_size org_size =
     (if org_size AND 15 = 0 then org_size else org_size + (16 - (org_size AND 15)))"

text \<open>The object before the body of a constructor; \<open>key\<close> and \<open>iv\<close> are its uninitialised memory.\<close>

definition hc_raw :: "bytes \<Rightarrow> bytes \<Rightarrow> 'c hash_cbc" where
  "hc_raw key iv = \<lparr>hc_ctx = None, hc_ok = True, hc_key = key, hc_iv = iv, hc_block = replicate 16 0, hc_offset = 0\<rparr>"

text \<open>
  AES-CBC takes a vector of sixteen bytes, but \<open>_iv\<close> has twelve: OpenSSL reads on into \<open>hashblock\<close>, the next
  member.
\<close>

definition hc_init :: "'c evp_cbc \<Rightarrow> bytes \<Rightarrow> bytes \<Rightarrow> 'c hash_cbc \<Rightarrow> 'c hash_cbc option" where
  "hc_init e key iv s = do {
     k \<leftarrow> mem_read key 0 KeySize;
     i \<leftarrow> mem_read iv 0 IvSize;
     let s = s\<lparr>hc_key := k, hc_iv := i\<rparr>;
     case ec_new e of
       None \<Rightarrow> Some (s\<lparr>hc_ctx := None, hc_ok := False\<rparr>)
     | Some c \<Rightarrow> (let r = ec_init e c k (i @ take 4 (hc_block s)) in Some (s\<lparr>hc_ctx := Some (snd r), hc_ok := fst r\<rparr>))
   }"

definition hc_copy :: "'c evp_cbc \<Rightarrow> 'c hash_cbc \<Rightarrow> 'c hash_cbc \<Rightarrow> 'c hash_cbc" where
  "hc_copy e other s =
     (case ec_new e of
        None \<Rightarrow> s\<lparr>hc_ctx := None, hc_ok := False\<rparr>
      | Some c \<Rightarrow> s\<lparr>hc_ctx := Some (ec_copy e c (hc_ctx other)), hc_ok := hc_ok other,
                    hc_block := hc_block other, hc_offset := hc_offset other\<rparr>)"

definition hc_new :: "'c evp_cbc \<Rightarrow> bytes \<Rightarrow> bytes \<Rightarrow> bytes \<Rightarrow> bytes \<Rightarrow> 'c hash_cbc option" where
  "hc_new e raw_key raw_iv key iv = hc_init e key iv (hc_raw raw_key raw_iv)"

definition hc_of_cipher :: "'c evp_cbc \<Rightarrow> bytes \<Rightarrow> bytes \<Rightarrow> cipher_ssl \<Rightarrow> 'c hash_cbc option" where
  "hc_of_cipher e raw_key raw_iv cipher = hc_init e (cs_key cipher) (cs_iv cipher) (hc_raw raw_key raw_iv)"

definition hc_copied :: "'c evp_cbc \<Rightarrow> bytes \<Rightarrow> bytes \<Rightarrow> 'c hash_cbc \<Rightarrow> 'c hash_cbc" where
  "hc_copied e raw_key raw_iv other = hc_copy e other (hc_raw raw_key raw_iv)"

text \<open>The new object and what is left of the old one.\<close>

definition hc_moved :: "'c hash_cbc \<Rightarrow> 'c hash_cbc \<times> 'c hash_cbc" where
  "hc_moved other =
     (\<lparr>hc_ctx = hc_ctx other, hc_ok = hc_ok other, hc_key = hc_key other, hc_iv = hc_iv other,
       hc_block = hc_block other, hc_offset = hc_offset other\<rparr>, other\<lparr>hc_ctx := None, hc_ok := False\<rparr>)"

definition hc_assign_cipher :: "'c evp_cbc \<Rightarrow> 'c hash_cbc \<Rightarrow> cipher_ssl \<Rightarrow> 'c hash_cbc option" where
  "hc_assign_cipher e s cipher = hc_init e (cs_key cipher) (cs_iv cipher) s"

definition hc_assign :: "'c evp_cbc \<Rightarrow> 'c hash_cbc \<Rightarrow> 'c hash_cbc \<Rightarrow> 'c hash_cbc" where
  "hc_assign e s other = hc_copy e other s"

definition hc_move_assign :: "'c hash_cbc \<Rightarrow> 'c hash_cbc \<Rightarrow> 'c hash_cbc \<times> 'c hash_cbc" where
  "hc_move_assign s other =
     (s\<lparr>hc_ctx := hc_ctx other, hc_key := hc_key other, hc_iv := hc_iv other, hc_block := hc_block other,
        hc_ok := hc_ok other, hc_offset := hc_offset other\<rparr>, other\<lparr>hc_ctx := None, hc_ok := False\<rparr>)"

section \<open>Updates\<close>

text \<open>
  One call of \<open>EVP_EncryptUpdate\<close> with \<open>n\<close> bytes of \<open>src\<close> from \<open>pos\<close>, whose output goes to the block
  at \<open>off\<close>: the object, the result of the call, and the length of the output.
\<close>

definition hc_encrypt ::
  "'c evp_cbc \<Rightarrow> 'c hash_cbc \<Rightarrow> u64 \<Rightarrow> bytes \<Rightarrow> u64 \<Rightarrow> u64 \<Rightarrow> ('c hash_cbc \<times> bool \<times> nat) option" where
  "hc_encrypt e s off src pos n = do {
     c \<leftarrow> hc_ctx s;
     bs \<leftarrow> mem_read src (unat pos) (unat n);
     let (ok, out, c) = ec_update e c bs;
     block \<leftarrow> mem_write (hc_block s) (unat off) out;
     Some (s\<lparr>hc_ctx := Some c, hc_ok := ok, hc_block := block\<rparr>, ok, length out)
   }"

text \<open>The loop over the whole blocks: object, result, remaining size and position.\<close>

function hc_loop ::
  "'c evp_cbc \<Rightarrow> bytes \<Rightarrow> 'c hash_cbc \<Rightarrow> u64 \<Rightarrow> u64 \<Rightarrow> ('c hash_cbc \<times> bool \<times> u64 \<times> u64) option" where
  "hc_loop e src s sz pos =
     (if sz \<ge> 16
      then (case hc_encrypt e s 0 src pos 16 of
              None \<Rightarrow> None
            | Some (s, ok, outl) \<Rightarrow> if ok then hc_loop e src s (sz - 16) (pos + 16) else Some (s, False, sz, pos))
      else Some (s, True, sz, pos))"
  by pat_completeness auto
termination
  by (relation "measure (\<lambda>(e, src, s, sz, pos). unat sz)") (auto simp: unat_sub word_le_nat_alt)

declare hc_loop.simps [simp del]

definition hc_update :: "'c evp_cbc \<Rightarrow> 'c hash_cbc \<Rightarrow> bytes \<Rightarrow> u64 \<Rightarrow> 'c hash_cbc option" where
  "hc_update e s src sz = do {
     let n = (if sz < 16 then sz else 16 - hc_offset s);
     (s, ok, len) \<leftarrow> hc_encrypt e s (hc_offset s) src 0 n;
     if \<not> ok then Some s
     else do {
       (s, ok, sz, pos) \<leftarrow> hc_loop e src s (sz - n) n;
       if \<not> ok then Some s
       else if sz > 0 then do {
         (s, ok, outl) \<leftarrow> hc_encrypt e s 0 src pos sz;
         Some (s\<lparr>hc_offset := of_nat outl\<rparr>)
       }
       else Some s
     }
   }"

section \<open>The result\<close>

definition hc_is_ok :: "'c hash_cbc \<Rightarrow> bool" where
  "hc_is_ok s = hc_ok s"

text \<open>
  \<open>raw_len\<close> is the uninitialised variable \<open>len\<close>; the comparison converts it to the unsigned \<open>size_t\<close>.
\<close>

definition hc_end :: "'c evp_cbc \<Rightarrow> u32 \<Rightarrow> 'c hash_cbc \<Rightarrow> 'c hash_cbc option" where
  "hc_end e raw_len s =
     (case hc_ctx s of
        None \<Rightarrow> Some (s\<lparr>hc_block := replicate 16 0\<rparr>)
      | Some c \<Rightarrow> do {
          let (ok, out, c) = ec_final e c;
          block \<leftarrow> (case out of None \<Rightarrow> Some (hc_block s) | Some out \<Rightarrow> mem_write (hc_block s) (unat (hc_offset s)) out);
          let len = (case out of None \<Rightarrow> raw_len | Some out \<Rightarrow> of_nat (length out));
          _ \<leftarrow> assert_that ((scast len :: u64) > 16);
          Some (s\<lparr>hc_ctx := Some c, hc_ok := ok, hc_block := block\<rparr>)
        })"

text \<open>The sign of \<open>memcmp\<close> for two buffers of the same length.\<close>

fun memcmp_sign :: "bytes \<Rightarrow> bytes \<Rightarrow> int" where
  "memcmp_sign (x # xs) (y # ys) = (if x < y then - 1 else if y < x then 1 else memcmp_sign xs ys)"
| "memcmp_sign _ _ = 0"

definition hc_compare :: "'c hash_cbc \<Rightarrow> bytes \<Rightarrow> int option" where
  "hc_compare s mac = map_option (memcmp_sign (hc_block s)) (mem_read mac 0 16)"

definition hc_get :: "'c hash_cbc \<Rightarrow> bytes \<Rightarrow> bytes option" where
  "hc_get s mac = mem_write mac 0 (hc_block s)"

section \<open>Which updates stay within the block\<close>

text \<open>
  \<open>hc_sized s f off\<close>: a usable object with \<open>f\<close> waiting bytes and offset \<open>off\<close>.
\<close>

definition hc_sized :: "('c \<Rightarrow> nat) \<Rightarrow> 'c hash_cbc \<Rightarrow> nat \<Rightarrow> nat \<Rightarrow> bool" where
  "hc_sized fill s f off \<longleftrightarrow> (\<exists>c. hc_ctx s = Some c \<and> fill c = f) \<and> length (hc_block s) = 16 \<and>
     hc_offset s = of_nat off \<and> (off = 0 \<or> off = 16)"

lemma hc_encrypt_sized:
  assumes ok: "evp_cbc_ok e fill" and s: "hc_sized fill s f off" and src: "unat pos + unat n \<le> length src"
  shows "16 < unat at' + 16 * ((f + unat n) div 16) \<Longrightarrow> hc_encrypt e s at' src pos n = None"
    and "unat at' + 16 * ((f + unat n) div 16) \<le> 16 \<Longrightarrow>
      \<exists>s'. hc_encrypt e s at' src pos n = Some (s', True, 16 * ((f + unat n) div 16)) \<and>
        hc_sized fill s' ((f + unat n) mod 16) off"
proof -
  obtain c where c: "hc_ctx s = Some c" "fill c = f" "length (hc_block s) = 16" "hc_offset s = of_nat off" "off = 0 \<or> off = 16"
    using s by (auto simp: hc_sized_def)
  obtain bs where bs: "mem_read src (unat pos) (unat n) = Some bs" "length bs = unat n"
    using src by (auto simp: mem_read_def)
  obtain out c' where u: "ec_update e c bs = (True, out, c')" "length out = 16 * ((f + unat n) div 16)"
    "fill c' = (f + unat n) mod 16"
    using ok c(2) bs(2) by (cases "ec_update e c bs") (auto simp: evp_cbc_ok_def dest!: spec [where x = c] spec [where x = bs])
  show "hc_encrypt e s at' src pos n = None" if "16 < unat at' + 16 * ((f + unat n) div 16)"
    using that c u bs by (simp add: hc_encrypt_def mem_write_def)
  show "\<exists>s'. hc_encrypt e s at' src pos n = Some (s', True, 16 * ((f + unat n) div 16)) \<and>
        hc_sized fill s' ((f + unat n) mod 16) off" if "unat at' + 16 * ((f + unat n) div 16) \<le> 16"
    using that c u bs by (simp add: hc_encrypt_def mem_write_def hc_sized_def)
qed

lemma evp_cbc_fill: "evp_cbc_ok e fill \<Longrightarrow> hc_sized fill s f off \<Longrightarrow> f < 16"
  by (auto simp: evp_cbc_ok_def hc_sized_def)

lemma hc_loop_sized:
  "evp_cbc_ok e fill \<Longrightarrow> hc_sized fill s f off \<Longrightarrow> unat pos + unat sz \<le> length src \<Longrightarrow> length src < 2 ^ 64 \<Longrightarrow>
    \<exists>s' pos'. hc_loop e src s sz pos = Some (s', True, of_nat (unat sz mod 16), pos') \<and>
      unat pos' + unat sz mod 16 \<le> length src \<and> hc_sized fill s' f off"
proof (induction e src s sz pos rule: hc_loop.induct)
  case (1 e src s sz pos)
  show ?case
  proof (cases "sz \<ge> 16")
    case True
    have f: "(f + 16) div 16 = 1" "(f + 16) mod 16 = f" using evp_cbc_fill [OF "1.prems"(1,2)] by auto
    have sz: "16 \<le> unat sz" "unat (sz - 16) = unat sz - 16" using True by (simp_all add: word_le_nat_alt unat_sub)
    have "unat pos + 16 < 2 ^ 64" using "1.prems"(3,4) sz(1) by simp
    then have pos: "unat (pos + 16) = unat pos + 16" by (simp add: unat_word_ariths)
    have "unat pos + unat (16 :: u64) \<le> length src" using "1.prems"(3) sz(1) by simp
    from hc_encrypt_sized(2) [OF "1.prems"(1,2) this, of 0] obtain s1 where
      s1: "hc_encrypt e s 0 src pos 16 = Some (s1, True, 16)" "hc_sized fill s1 f off"
      using f by auto
    have "unat (pos + 16) + unat (sz - 16) \<le> length src" using "1.prems"(3) sz pos by simp
    then obtain s' pos' where "hc_loop e src s1 (sz - 16) (pos + 16) = Some (s', True, of_nat (unat (sz - 16) mod 16), pos')"
      "unat pos' + unat (sz - 16) mod 16 \<le> length src" "hc_sized fill s' f off"
      using "1.IH" [OF True s1(1) refl refl TrueI "1.prems"(1) s1(2) _ "1.prems"(4)] by blast
    moreover have "unat (sz - 16) mod 16 = unat sz mod 16" using sz by (simp add: le_mod_geq [of 16 "unat sz"])
    ultimately show ?thesis using True s1(1) by (simp add: hc_loop.simps [of e src s sz pos])
  next
    case False
    then show ?thesis using "1.prems" by (auto simp: hc_loop.simps [of e] word_le_nat_alt not_le)
  qed
qed

text \<open>
  The effect of an update of \<open>n\<close> bytes on the waiting bytes and the offset; \<open>None\<close> is an update that
  writes behind the block.
\<close>

definition size_update :: "nat \<times> nat \<Rightarrow> nat \<Rightarrow> (nat \<times> nat) option" where
  "size_update = (\<lambda>(f, off) n.
     if n < 16 then (if off = 16 \<and> 16 \<le> f + n then None else Some ((f + n) mod 16, off))
     else Some ((f + n) mod 16, if n mod 16 = 0 then off else if 16 \<le> f + n mod 16 then 16 else 0))"

lemma hc_update_sized:
  assumes ok: "evp_cbc_ok e fill" and s: "hc_sized fill s f off" and src: "length src < 2 ^ 64"
  shows "case size_update (f, off) (length src) of
      None \<Rightarrow> hc_update e s src (size_of src) = None
    | Some (f', off') \<Rightarrow> \<exists>s'. hc_update e s src (size_of src) = Some s' \<and> hc_sized fill s' f' off'"
proof -
  have f: "f < 16" by (rule evp_cbc_fill [OF ok s])
  have off: "hc_offset s = of_nat off" "off = 0 \<or> off = 16" using s by (auto simp: hc_sized_def)
  have n: "unat (size_of src) = length src" using src by (simp add: unat_of_nat_eq)
  show ?thesis
  proof (cases "length src < 16")
    case True
    then have sz: "size_of src < 16" using n by (simp add: word_less_nat_alt)
    have d: "(f + length src) div 16 \<le> 1" "(f + length src) div 16 = 0 \<longleftrightarrow> f + length src < 16" using f True by auto
    note enc = hc_encrypt_sized [OF ok s, of 0 "size_of src" src "hc_offset s"]
    show ?thesis
    proof (cases "off = 16 \<and> 16 \<le> f + length src")
      case True
      then have "hc_encrypt e s (hc_offset s) src 0 (size_of src) = None" using enc(1) off n d by simp
      with True \<open>length src < 16\<close> sz show ?thesis by (simp add: size_update_def hc_update_def)
    next
      case False
      then have "unat (hc_offset s) + 16 * ((f + length src) div 16) \<le> 16" using off d by auto
      then obtain s' where "hc_encrypt e s (hc_offset s) src 0 (size_of src) = Some (s', True, 16 * ((f + length src) div 16))"
        "hc_sized fill s' ((f + length src) mod 16) off"
        using enc(2) n by auto
      with False \<open>length src < 16\<close> sz show ?thesis
        by (auto simp: size_update_def hc_update_def hc_loop.simps [of e])
    qed
  next
    case False
    then have sz: "\<not> size_of src < 16" "16 \<le> unat (size_of src)" using n by (simp_all add: word_less_nat_alt)
    let ?n = "16 - hc_offset s"
    have un: "unat ?n = 16 - off" using off by auto
    have rest: "unat (size_of src - ?n) = length src - (16 - off)"
      using sz(2) n un by (subst unat_sub) (simp_all add: word_le_nat_alt)
    have "unat 0 + unat ?n \<le> length src" using un False by simp
    note enc = hc_encrypt_sized(2) [OF ok s this]
    have "unat (hc_offset s) + 16 * ((f + unat ?n) div 16) \<le> 16" "(f + unat ?n) mod 16 = f"
      using off un f by auto
    with enc [of "hc_offset s"] obtain s1 outl where
      s1: "hc_encrypt e s (hc_offset s) src 0 ?n = Some (s1, True, outl)" "hc_sized fill s1 f off" by auto
    have "unat ?n + unat (size_of src - ?n) \<le> length src" using un rest False by simp
    from hc_loop_sized [OF ok s1(2) this src] obtain s2 pos where
      s2: "hc_loop e src s1 (size_of src - ?n) ?n = Some (s2, True, of_nat (length src mod 16), pos)"
      "unat pos + length src mod 16 \<le> length src" "hc_sized fill s2 f off"
      using off rest False le_mod_geq [of 16 "length src"] by auto
    have m: "unat (of_nat (length src mod 16) :: u64) = length src mod 16" by (simp add: unat_of_nat_eq)
    show ?thesis
    proof (cases "length src mod 16 = 0")
      case True
      have "(f + length src) mod 16 = f" using True f by (metis add.right_neutral mod_add_right_eq mod_less)
      with True False sz s1 s2 show ?thesis by (simp add: size_update_def hc_update_def Let_def)
    next
      case nz: False
      then have pos0: "0 < (of_nat (length src mod 16) :: u64)" using m by (simp add: word_less_nat_alt)
      have d: "(f + length src mod 16) div 16 = (if 16 \<le> f + length src mod 16 then 1 else 0)" using f by auto
      have "unat pos + unat (of_nat (length src mod 16) :: u64) \<le> length src" using s2(2) m by simp
      from hc_encrypt_sized(2) [OF ok s2(3) this, of 0] obtain s3 where
        s3: "hc_encrypt e s2 0 src pos (of_nat (length src mod 16)) =
             Some (s3, True, 16 * ((f + length src mod 16) div 16))"
        "hc_sized fill s3 ((f + length src mod 16) mod 16) off"
        using m d by (auto split: if_splits)
      have "hc_sized fill (s3\<lparr>hc_offset := of_nat (16 * ((f + length src mod 16) div 16))\<rparr>)
          ((f + length src) mod 16) (if 16 \<le> f + length src mod 16 then 16 else 0)"
        using s3(2) d by (auto simp: hc_sized_def mod_add_right_eq)
      moreover have "hc_update e s src (size_of src) = Some (s3\<lparr>hc_offset := of_nat (16 * ((f + length src mod 16) div 16))\<rparr>)"
        using sz s1(1) s2(1) s3(1) pos0 by (simp add: hc_update_def Let_def)
      ultimately show ?thesis using False nz by (simp add: size_update_def)
    qed
  qed
qed

fun hc_updates :: "'c evp_cbc \<Rightarrow> 'c hash_cbc \<Rightarrow> bytes list \<Rightarrow> 'c hash_cbc option" where
  "hc_updates e s [] = Some s"
| "hc_updates e s (x # xs) = do {
     s \<leftarrow> hc_update e s x (size_of x);
     hc_updates e s xs
   }"

fun size_updates :: "nat \<times> nat \<Rightarrow> nat list \<Rightarrow> (nat \<times> nat) option" where
  "size_updates st [] = Some st"
| "size_updates st (n # ns) = do {
     st \<leftarrow> size_update st n;
     size_updates st ns
   }"

lemma hc_updates_sized:
  assumes "evp_cbc_ok e fill" "hc_sized fill s f off" "\<forall>x \<in> set xs. length x < 2 ^ 64"
  shows "case size_updates (f, off) (map length xs) of
      None \<Rightarrow> hc_updates e s xs = None
    | Some (f', off') \<Rightarrow> \<exists>s'. hc_updates e s xs = Some s' \<and> hc_sized fill s' f' off'"
  using assms(2,3)
proof (induction xs arbitrary: s f off)
  case Nil
  then show ?case by auto
next
  case (Cons x xs)
  have "length x < 2 ^ 64" using Cons.prems(2) by simp
  note upd = hc_update_sized [OF assms(1) Cons.prems(1) this]
  show ?case
  proof (cases "size_update (f, off) (length x)")
    case None
    with upd show ?thesis by simp
  next
    case (Some st)
    obtain f1 off1 where st: "st = (f1, off1)" by (cases st)
    obtain s1 where "hc_update e s x (size_of x) = Some s1" "hc_sized fill s1 f1 off1" using upd Some st by auto
    then have eq: "hc_updates e s (x # xs) = hc_updates e s1 xs" and s1: "hc_sized fill s1 f1 off1" by simp_all
    show ?thesis unfolding eq using Cons.IH [OF s1] Cons.prems(2) Some st by simp
  qed
qed

lemma small_len: "n \<le> 16 \<Longrightarrow> \<not> (16 :: u64) < scast (of_nat n :: u32)"
proof -
  assume "n \<le> 16"
  then have "n \<in> set [0..<17]" by simp
  then show ?thesis by (auto simp: upt_rec)
qed

lemma hc_end_fails:
  assumes "evp_cbc_ok e fill" "hc_ctx s = Some c" "hc_end e raw_len s = Some s'"
  shows "\<not> hc_is_ok s' \<and> hc_block s' = hc_block s"
proof -
  obtain r out c' where f: "ec_final e c = (r, out, c')" by (cases "ec_final e c") auto
  have "case fst (snd (ec_final e c)) of None \<Rightarrow> \<not> fst (ec_final e c) | Some out \<Rightarrow> length out \<le> 16"
    using assms(1) unfolding evp_cbc_ok_def by blast
  then have o: "case out of None \<Rightarrow> \<not> r | Some out \<Rightarrow> length out \<le> 16" using f by (cases out) simp_all
  show ?thesis
  proof (cases out)
    case None
    then show ?thesis using assms(2,3) f o by (auto simp: hc_end_def hc_is_ok_def Let_def bind_eq_Some_conv)
  next
    case (Some bs)
    then have "\<not> (16 :: u64) < scast (of_nat (length bs) :: u32)" using o by (intro small_len) simp
    then show ?thesis using assms(2,3) f Some by (simp add: hc_end_def Let_def bind_eq_Some_conv)
  qed
qed

lemma memcmp_sign_zero: "length xs = length ys \<Longrightarrow> memcmp_sign xs ys = 0 \<longleftrightarrow> xs = ys"
  by (induction xs ys rule: memcmp_sign.induct) auto

text \<open>What \<open>get\<close> copies compares as equal, and nothing else does.\<close>

lemma hc_get_compare:
  assumes "length (hc_block s) = 16" "16 \<le> length mac"
  shows "\<exists>mac'. hc_get s mac = Some mac' \<and> hc_compare s mac' = Some 0 \<and>
    (\<forall>m. 16 \<le> length m \<longrightarrow> hc_compare s m = Some 0 \<longrightarrow> take 16 m = take 16 mac')"
  using assms by (auto simp: hc_get_def hc_compare_def mem_write_def mem_read_def memcmp_sign_zero)

lemma hc_adjust_size_zero: "hc_adjust_size n = n \<longleftrightarrow> n AND 15 = 0"
proof -
  have "n AND 15 \<le> 15" by (rule word_and_le1)
  then have "n AND 15 \<noteq> 16" by (auto simp: word_le_nat_alt)
  then show ?thesis by (auto simp: hc_adjust_size_def)
qed

text \<open>
  C39. The hash object of \<open>hash_openssl.h\<close>: whether a sequence of updates stays within the block depends on
  the lengths alone, in the way \<open>size_updates\<close> computes; when it does, \<open>end\<close> fails its assertion, which asks
  the last block to be longer than a block, or, when the final call refuses the encryption context and leaves the length
  uninitialised, passes it by chance with an object that is not valid and a block that is not a final one.
\<close>

theorem hash_cbc_never_ends:
  assumes "evp_cbc_ok e fill" "ec_new e = Some c0"
    and "\<And>k i. fst (ec_init e c0 k i) \<and> fill (snd (ec_init e c0 k i)) = 0"
    and "16 \<le> length key" "12 \<le> length iv" "\<forall>x \<in> set xs. length x < 2 ^ 64"
  shows "\<exists>s. hc_new e raw_key raw_iv key iv = Some s \<and> hc_is_ok s \<and>
    (hc_updates e s xs = None \<longleftrightarrow> size_updates (0, 0) (map length xs) = None) \<and>
    (\<forall>s' raw_len s''. hc_updates e s xs = Some s' \<longrightarrow> hc_end e raw_len s' = Some s'' \<longrightarrow>
       \<not> hc_is_ok s'' \<and> hc_block s'' = hc_block s')"
proof -
  let ?i = "take 12 iv @ take 4 (replicate 16 0)"
  obtain s where s: "hc_new e raw_key raw_iv key iv = Some s" "hc_is_ok s" "hc_sized fill s 0 0"
    using assms(2-5)
    by (auto simp: hc_new_def hc_init_def hc_raw_def mem_read_def Let_def hc_is_ok_def hc_sized_def)
  note run = hc_updates_sized [OF assms(1) s(3) assms(6)]
  have fin: "\<not> hc_is_ok s'' \<and> hc_block s'' = hc_block s'"
    if upd: "hc_updates e s xs = Some s'" and fin: "hc_end e raw_len s' = Some s''" for s' raw_len s''
  proof -
    obtain f off where "hc_sized fill s' f off" using run upd by (auto split: option.splits)
    then obtain c where "hc_ctx s' = Some c" by (auto simp: hc_sized_def)
    then show ?thesis using hc_end_fails [OF assms(1) _ fin] by blast
  qed
  have none: "hc_updates e s xs = None \<longleftrightarrow> size_updates (0, 0) (map length xs) = None"
    using run by (auto split: option.splits)
  have all: "\<forall>s' raw_len s''. hc_updates e s xs = Some s' \<longrightarrow> hc_end e raw_len s' = Some s'' \<longrightarrow>
      \<not> hc_is_ok s'' \<and> hc_block s'' = hc_block s'"
    using fin by (intro allI impI)
  show ?thesis by (rule exI [of _ s], intro conjI) (rule s(1), rule s(2), rule none, rule all)
qed

definition count_cbc :: "nat evp_cbc" where
  "count_cbc = \<lparr>ec_new = Some 0, ec_init = (\<lambda>c k i. (True, 0)), ec_copy = (\<lambda>c c'. 0),
     ec_update = (\<lambda>c bs. (True, replicate (16 * ((c mod 16 + length bs) div 16)) 0, (c mod 16 + length bs) mod 16)),
     ec_final = (\<lambda>c. (False, None, c))\<rparr>"

lemma count_cbc_ok: "evp_cbc_ok count_cbc (\<lambda>c. c mod 16)"
  by (simp add: evp_cbc_ok_def count_cbc_def)

theorem hash_cbc_never_ends_witness:
  "\<exists>s. hc_new count_cbc [] [] (replicate 16 0) (replicate 12 0) = Some s \<and>
     hc_updates count_cbc s (map (\<lambda>n. replicate n 1) [8, 24, 8, 8]) = None"
proof -
  have "size_updates (0, 0) (map length (map (\<lambda>n. replicate n (1 :: u8)) [8, 24, 8, 8])) = None"
    by (simp add: size_update_def)
  then show ?thesis
    using hash_cbc_never_ends [OF count_cbc_ok, of 0 "replicate 16 0" "replicate 12 0"
        "map (\<lambda>n. replicate n 1) [8, 24, 8, 8]" "[]" "[]"]
    by (auto simp: count_cbc_def)
qed

end
