(* ===== verification/Helpers.thy ===== *)
theory Helpers
  imports Packet Utility Lamport
begin

text \<open>
  The remaining helpers of the headers: the 16-byte load and the fetch-and-add of \<open>utils/utility.h\<close>, its
  bit operations, the time functions of \<open>stats/rdtsc.h\<close> and \<open>stats/rdtsc.cpp\<close>, the range \<open>enumerate\<close>,
  the guard \<open>final_act\<close>, and the pages that \<open>create_allocator.cpp\<close> and \<open>generate_traces.cpp\<close> map and unmap.

  Shown here: the fetch-and-add is right when it runs alone and loses the update of another thread
  otherwise; the load returns the bytes of its pointer; the bit operations return their operand;
  a range loop over \<open>enumerate\<close> visits every element with its index; however often a guard is moved, its
  action runs exactly once; an allocator and the trace give back the pages they mapped, the table of
  the key distribution does not.
\<close>

section \<open>Sixteen-byte operations\<close>

text \<open>
  \<open>atomic_load_128\<close>: the memory operand of \<open>cmpxchg16b\<close> is the variable \<open>src\<close> itself, its eight bytes and
  the eight bytes \<open>behind\<close> it.  The comparison value and the new value are zero, so the memory does not
  change; \<open>operand_aligned\<close> is the alignment the instruction asks for.
\<close>

definition cmpxchg16b :: "bytes \<Rightarrow> bytes \<Rightarrow> bytes \<Rightarrow> bytes \<times> bytes" where
  "cmpxchg16b mem expected new = (if mem = expected then (new, expected) else (mem, mem))"

definition atomic_load_128 :: "u64 \<Rightarrow> u64 \<Rightarrow> bytes \<Rightarrow> bool \<Rightarrow> (bytes \<times> bytes) option" where
  "atomic_load_128 dst_ptr src_ptr behind operand_aligned = do {
     _ \<leftarrow> assert_that (src_ptr AND 0xF = 0);
     _ \<leftarrow> assert_that (dst_ptr \<noteq> src_ptr);
     _ \<leftarrow> assert_that operand_aligned;
     Some (cmpxchg16b (le_enc 8 (unat src_ptr) @ behind) (replicate 16 0) (replicate 16 0))
   }"

text \<open>The result is the memory operand and the 16 bytes stored to \<open>dst\<close>: the pointer, not what it points to.\<close>

lemma atomic_load_128_pointer:
  assumes "length behind = 8" "src_ptr AND 0xF = 0" "dst_ptr \<noteq> src_ptr"
  shows "atomic_load_128 dst_ptr src_ptr behind True =
    Some (le_enc 8 (unat src_ptr) @ behind, le_enc 8 (unat src_ptr) @ behind)"
proof -
  have "length (le_enc 8 (unat src_ptr) @ behind) = 16" using assms(1) by simp
  then show ?thesis using assms(2,3) by (simp add: atomic_load_128_def cmpxchg16b_def)
qed

text \<open>
  \<open>fetch_and_add_128\<close>: as in \<open>KeyIV::get_packet_iv_aligned\<close>, the sum stands in a block before the loop, which
  therefore has an empty body.  The result is the shared integer and \<open>local\<close>.
\<close>

definition fetch_and_add_128 :: "bytes \<Rightarrow> bytes \<Rightarrow> nat \<Rightarrow> bytes option list \<Rightarrow> bytes \<times> bytes" where
  "fetch_and_add_128 orig local val others =
     (let new_value = le_enc 16 ((le_val local + val) mod 2 ^ 128)
      in iv_loop orig new_value local others)"

lemma fetch_and_add_alone:
  assumes "length orig = 16"
  shows "fetch_and_add_128 orig orig val [] = (le_enc 16 ((le_val orig + val) mod 2 ^ 128), orig)"
  by (simp add: fetch_and_add_128_def compare_exchange_128_def)

text \<open>Another thread's value \<open>x\<close> is stored before the first attempt: the sum does not contain it.\<close>

lemma fetch_and_add_lost:
  assumes "length local = 16" "x \<noteq> local"
  shows "fst (fetch_and_add_128 orig local val [Some x]) = le_enc 16 ((le_val local + val) mod 2 ^ 128)"
  using assms by (simp add: fetch_and_add_128_def compare_exchange_128_def)

section \<open>Bit operations\<close>

text \<open>
  In AT\&T syntax the first operand of \<open>BTR\<close> and \<open>BTS\<close> is the bit index and the second one the destination, so
  the instructions change the register of \<open>pos\<close>; what is returned is \<open>val\<close>.
\<close>

definition btr :: "u64 \<Rightarrow> u64 \<Rightarrow> u64" where
  "btr index dst = unset_bit (unat index mod 64) dst"

definition bts :: "u64 \<Rightarrow> u64 \<Rightarrow> u64" where
  "bts index dst = set_bit (unat index mod 64) dst"

definition reset_bit :: "u64 \<Rightarrow> u64 \<Rightarrow> u64" where
  "reset_bit val pos = fst (val, btr val pos)"

definition set_bit_asm :: "u64 \<Rightarrow> u64 \<Rightarrow> u64" where
  "set_bit_asm val pos = fst (val, bts val pos)"

definition test_bit_asm :: "u64 \<Rightarrow> u64 \<Rightarrow> bool" where
  "test_bit_asm val pos = False"

lemma bit_operations_do_nothing:
  "reset_bit val pos = val" "set_bit_asm val pos = val" "\<not> test_bit_asm val pos"
  by (simp_all add: reset_bit_def set_bit_asm_def test_bit_asm_def)

section \<open>Time\<close>

text \<open>\<open>get_time_in_s\<close>: \<open>of_u128\<close>, \<open>of_u64\<close> and \<open>fdiv\<close> are the conversions to and the division of \<open>long double\<close>.\<close>

definition get_time_in_s ::
  "(128 word \<Rightarrow> 'f) \<Rightarrow> (u64 \<Rightarrow> 'f) \<Rightarrow> ('f \<Rightarrow> 'f \<Rightarrow> 'f) \<Rightarrow> crystal_clock \<Rightarrow> u64 \<Rightarrow> 'f option" where
  "get_time_in_s of_u128 of_u64 fdiv ci tsc_value = do {
     _ \<leftarrow> assert_that (cc_numerator ci \<noteq> 0);
     let ART_Value = (ucast tsc_value * ucast (cc_denominator ci) :: 128 word) div ucast (cc_numerator ci);
     Some (fdiv (of_u128 ART_Value) (of_u64 (cc_ART_fq ci)))
   }"

definition get_time :: "crystal_clock \<Rightarrow> u64 \<Rightarrow> u64 option" where
  "get_time ci cpu_cycles = get_time_in_ms ci cpu_cycles"

text \<open>\<open>rdtsc\<close> reads the time stamp counter in the state \<open>'s\<close> of the machine.\<close>

definition take_time :: "('s \<Rightarrow> (u32 \<times> u32) \<times> 's) \<Rightarrow> ('s \<Rightarrow> 'r \<times> 's) \<Rightarrow> 's \<Rightarrow> (u64 \<times> u64 \<times> 'r) \<times> 's" where
  "take_time rdtsc f s =
     (let (t0, s) = rdtsc s;
          (res, s) = f s;
          (t1, s) = rdtsc s
      in ((get_tsc (fst t0) (snd t0), get_tsc (fst t1) (snd t1), res), s))"

definition take_time_diff :: "('s \<Rightarrow> (u32 \<times> u32) \<times> 's) \<Rightarrow> ('s \<Rightarrow> 'r \<times> 's) \<Rightarrow> 's \<Rightarrow> (u64 \<times> 'r) \<times> 's" where
  "take_time_diff rdtsc f s = (case take_time rdtsc f s of ((start, end', res), s) \<Rightarrow> ((end' - start, res), s))"

lemma get_tsc_value: "unat (get_tsc eax edx) = unat edx * 2 ^ 32 + unat eax"
proof -
  have disj: "push_bit 32 (ucast edx :: u64) AND ucast eax = 0"
    by (rule bit_word_eqI) (auto simp: bit_simps dest: bit_imp_le_length)
  have "get_tsc eax edx = push_bit 32 (ucast edx) + ucast eax"
    using disj by (simp add: get_tsc_def disjunctive_add_eq_or)
  moreover have "unat (push_bit 32 (ucast edx :: u64)) = unat edx * 2 ^ 32"
    using unat_u32_bound [of edx] by (simp add: push_bit_eq_mult unat_word_ariths unat_ucast_u32_u64)
  moreover have "unat edx * 2 ^ 32 + unat eax < 2 ^ 64"
    using unat_u32_bound [of edx] unat_u32_bound [of eax] by simp
  ultimately show ?thesis by (simp add: unat_word_ariths unat_ucast_u32_u64)
qed

section \<open>\<open>enumerate\<close>\<close>

text \<open>
  The range holds a container; its iterator pairs an iterator \<open>'i\<close> of the container with a counter.  The
  increment changes the iterator and returns a copy of it.
\<close>

record 'i enum_iter =
  ei_it :: 'i
  ei_counter :: u64

definition enum_begin :: "'i \<Rightarrow> 'i enum_iter" where
  "enum_begin b = \<lparr>ei_it = b, ei_counter = 0\<rparr>"

definition enum_end :: "'i \<Rightarrow> 'i enum_iter" where
  "enum_end e = \<lparr>ei_it = e, ei_counter = 0\<rparr>"

definition enum_inc :: "('i \<Rightarrow> 'i) \<Rightarrow> 'i enum_iter \<Rightarrow> 'i enum_iter" where
  "enum_inc inc e = \<lparr>ei_it = inc (ei_it e), ei_counter = ei_counter e + 1\<rparr>"

definition enum_neq :: "'i enum_iter \<Rightarrow> 'i enum_iter \<Rightarrow> bool" where
  "enum_neq a b \<longleftrightarrow> ei_it a \<noteq> ei_it b"

definition enum_deref :: "('i \<Rightarrow> 'a option) \<Rightarrow> 'i enum_iter \<Rightarrow> (u64 \<times> 'a) option" where
  "enum_deref deref e = map_option (\<lambda>x. (ei_counter e, x)) (deref (ei_it e))"

text \<open>A range-based \<open>for\<close> over \<open>enumerate(xs)\<close> for a vector, whose iterators are positions.\<close>

definition vector_deref :: "'a list \<Rightarrow> nat \<Rightarrow> 'a option" where
  "vector_deref xs i = (if i < length xs then Some (xs ! i) else None)"

partial_function (option) enum_for :: "'a list \<Rightarrow> nat enum_iter \<Rightarrow> (u64 \<times> 'a) list option" where
  "enum_for xs e =
     (if enum_neq e (enum_end (length xs))
      then Option.bind (enum_deref (vector_deref xs) e)
             (\<lambda>item. Option.bind (enum_for xs (enum_inc Suc e)) (\<lambda>items. Some (item # items)))
      else Some [])"

lemma enum_for_from:
  "i \<le> length xs \<Longrightarrow> enum_for xs \<lparr>ei_it = i, ei_counter = of_nat i\<rparr> =
    Some (map (\<lambda>j. (of_nat j, xs ! j)) [i..<length xs])"
proof (induction "length xs - i" arbitrary: i)
  case 0
  then show ?case by (simp add: enum_for.simps [of xs] enum_neq_def enum_end_def)
next
  case (Suc n)
  then have i: "i < length xs" "n = length xs - Suc i" by auto
  have "enum_inc Suc \<lparr>ei_it = i, ei_counter = of_nat i\<rparr> = \<lparr>ei_it = Suc i, ei_counter = of_nat (Suc i)\<rparr>"
    by (simp add: enum_inc_def add.commute)
  with Suc.hyps(1) [OF i(2)] i(1) show ?case
    by (subst enum_for.simps) (simp add: enum_neq_def enum_end_def enum_deref_def vector_deref_def upt_conv_Cons)
qed

text \<open>Every element is visited once, in order, with its position.\<close>

lemma enum_for_all: "enum_for xs (enum_begin 0) = Some (map (\<lambda>(j, x). (of_nat j, x)) (List.enumerate 0 xs))"
proof -
  have "map (\<lambda>j. (of_nat j :: u64, xs ! j)) [0..<length xs] = map (\<lambda>(j, x). (of_nat j, x)) (List.enumerate 0 xs)"
    by (rule nth_equalityI) (simp_all add: nth_enumerate_eq)
  then show ?thesis using enum_for_from [of 0 xs] by (simp add: enum_begin_def)
qed

section \<open>\<open>final_act\<close>\<close>

text \<open>The guard: \<open>invoke_\<close>; moving leaves a guard that does nothing; the destructor runs the action or not.\<close>

record final_act =
  fa_invoke :: bool

definition fa_new :: final_act where
  "fa_new = \<lparr>fa_invoke = True\<rparr>"

definition fa_move :: "final_act \<Rightarrow> final_act \<times> final_act" where
  "fa_move other = (\<lparr>fa_invoke = fa_invoke other\<rparr>, other\<lparr>fa_invoke := False\<rparr>)"

definition fa_destroy :: "(nat \<Rightarrow> nat) \<Rightarrow> final_act \<Rightarrow> nat \<Rightarrow> nat" where
  "fa_destroy f g s = (if fa_invoke g then f s else s)"

text \<open>All guards of a scope: each step moves guard \<open>i\<close> to a new one; at the end all are destroyed.\<close>

fun fa_moves :: "nat list \<Rightarrow> final_act list \<Rightarrow> final_act list" where
  "fa_moves [] gs = gs"
| "fa_moves (i # is) gs =
     (if i < length gs then (case fa_move (gs ! i) of (g, old) \<Rightarrow> fa_moves is (gs[i := old] @ [g])) else fa_moves is gs)"

lemma count_invoke_move:
  assumes "i < length gs"
  shows "length (filter fa_invoke (gs[i := snd (fa_move (gs ! i))] @ [fst (fa_move (gs ! i))])) = length (filter fa_invoke gs)"
  using assms
proof (induction gs arbitrary: i)
  case (Cons g gs)
  then show ?case by (cases i) (auto simp: fa_move_def)
qed simp

lemma fa_moves_count: "length (filter fa_invoke (fa_moves is gs)) = length (filter fa_invoke gs)"
proof (induction "is" gs rule: fa_moves.induct)
  case (2 i "is" gs)
  show ?case
  proof (cases "i < length gs")
    case True
    have "fa_moves (i # is) gs = fa_moves is (gs[i := snd (fa_move (gs ! i))] @ [fst (fa_move (gs ! i))])"
      using True by (simp add: case_prod_unfold)
    with "2.IH"(1) [OF True, of "fst (fa_move (gs ! i))" "snd (fa_move (gs ! i))"] count_invoke_move [OF True] show ?thesis by simp
  next
    case False
    with "2.IH"(2) show ?thesis by simp
  qed
qed simp

text \<open>However the guard is moved, destroying all guards runs the action once.\<close>

lemma final_act_once: "foldr (fa_destroy Suc) (fa_moves is [fa_new]) n = Suc n"
proof -
  have "foldr (fa_destroy Suc) gs n = n + length (filter fa_invoke gs)" for gs
    by (induction gs) (simp_all add: fa_destroy_def)
  moreover have "length (filter fa_invoke (fa_moves is [fa_new])) = 1"
    by (simp add: fa_moves_count fa_new_def)
  ultimately show ?thesis by simp
qed

section \<open>The pages of the allocator\<close>

text \<open>
  \<open>create_allocator\<close> once more, with the pages the process has mapped as its state, and the deleter of its result.
  The kernel is the argument: given a length and the mapped pages it refuses or returns an aligned
  address whose pages are free.  It maps and unmaps whole pages.  The first and the last address of the slab
  are those it was constructed with.
\<close>

definition pages_of :: "nat \<Rightarrow> u64 \<Rightarrow> u64 \<Rightarrow> nat set" where
  "pages_of pagesize a len = {unat a div pagesize..<(unat a + unat len + pagesize - 1) div pagesize}"

definition kernel_ok :: "nat \<Rightarrow> (u64 \<Rightarrow> nat set \<Rightarrow> u64 option) \<Rightarrow> bool" where
  "kernel_ok pagesize krn \<longleftrightarrow> (\<forall>len m a. krn len m = Some a \<longrightarrow> pages_of pagesize a len \<inter> m = {})"

definition mmap_helper :: "(u64 \<Rightarrow> nat set \<Rightarrow> u64 option) \<Rightarrow> nat \<Rightarrow> u64 \<Rightarrow> nat set \<Rightarrow> u64 option \<times> nat set" where
  "mmap_helper krn pagesize len m =
     (case krn len m of None \<Rightarrow> (None, m) | Some a \<Rightarrow> (Some a, m \<union> pages_of pagesize a len))"

definition munmap :: "nat \<Rightarrow> u64 \<Rightarrow> u64 \<Rightarrow> nat set \<Rightarrow> nat set" where
  "munmap pagesize a len m = m - pages_of pagesize a len"

record slab =
  sb_addr :: u64
  sb_region_start :: u64
  sb_region_end :: u64
  sb_element_size :: u64

definition create_allocator_in ::
  "(u64 \<Rightarrow> nat set \<Rightarrow> u64 option) \<Rightarrow> nat \<Rightarrow> u64 \<Rightarrow> u64 \<Rightarrow> nat set \<Rightarrow> (slab option \<times> nat set) option" where
  "create_allocator_in krn pagesize sz element_size m =
     (let sz = alloc_size (of_nat pagesize) sz
      in case mmap_helper krn pagesize sz m of
           (None, m) \<Rightarrow> Some (None, m)
         | (Some ptr, m) \<Rightarrow> (case mmap_helper krn pagesize (of_nat pagesize) m of
             (None, m) \<Rightarrow> None
           | (Some p, m) \<Rightarrow>
               Some (Some \<lparr>sb_addr = p, sb_region_start = ptr, sb_region_end = ptr + sz, sb_element_size = element_size\<rparr>, m)))"

definition allocator_delete :: "nat \<Rightarrow> slab \<Rightarrow> nat set \<Rightarrow> nat set" where
  "allocator_delete pagesize p m =
     munmap pagesize (sb_addr p) (of_nat pagesize)
       (munmap pagesize (sb_region_start p) (sb_region_end p - sb_region_start p) m)"

text \<open>Creating and deleting an allocator leaves the mapped pages as they were.\<close>

lemma allocator_returns_pages:
  assumes "kernel_ok pagesize krn" "create_allocator_in krn pagesize sz element_size m = Some (Some p, m')"
  shows "allocator_delete pagesize p m' = m"
proof -
  let ?sz = "alloc_size (of_nat pagesize) sz"
  obtain ptr q where k: "krn ?sz m = Some ptr" "krn (of_nat pagesize) (m \<union> pages_of pagesize ptr ?sz) = Some q"
    "p = \<lparr>sb_addr = q, sb_region_start = ptr, sb_region_end = ptr + ?sz, sb_element_size = element_size\<rparr>"
    "m' = m \<union> pages_of pagesize ptr ?sz \<union> pages_of pagesize q (of_nat pagesize)"
    using assms(2) by (auto simp: create_allocator_in_def mmap_helper_def Let_def split: option.splits)
  have free: "pages_of pagesize ptr ?sz \<inter> m = {}"
    "pages_of pagesize q (of_nat pagesize) \<inter> (m \<union> pages_of pagesize ptr ?sz) = {}"
    using assms(1) k(1,2) by (simp_all add: kernel_ok_def)
  show ?thesis unfolding allocator_delete_def munmap_def k(3,4) using free by auto
qed

text \<open>When the second \<open>mmap\<close> is refused, the region of the first stays mapped and nothing can delete it.\<close>

lemma second_mmap_unchecked:
  assumes "krn (alloc_size (of_nat pagesize) sz) m = Some ptr"
    and "krn (of_nat pagesize) (m \<union> pages_of pagesize ptr (alloc_size (of_nat pagesize) sz)) = None"
  shows "create_allocator_in krn pagesize sz element_size m = None"
  using assms by (simp add: create_allocator_in_def mmap_helper_def)

section \<open>The memory of the trace generator\<close>

text \<open>
  \<open>manufacture_trace_zipfian\<close> of \<open>src/generate_traces.cpp\<close> maps a table of \<open>n_keys + 1\<close> numbers of eight bytes, and the
  deleter \<open>del\<close> of the table unmaps \<open>n_keys\<close> plus eight bytes; \<open>unmap_trace\<close> unmaps the commands.
\<close>

definition zipf_table_map :: "(u64 \<Rightarrow> nat set \<Rightarrow> u64 option) \<Rightarrow> nat \<Rightarrow> u64 \<Rightarrow> nat set \<Rightarrow> u64 option \<times> nat set" where
  "zipf_table_map krn pagesize n_keys m = mmap_helper krn pagesize ((n_keys + 1) * 8) m"

definition zipf_table_delete :: "nat \<Rightarrow> u64 \<Rightarrow> u64 \<Rightarrow> nat set \<Rightarrow> nat set" where
  "zipf_table_delete pagesize n_keys ptr m = (if ptr \<noteq> 0 then munmap pagesize ptr (n_keys + 8) m else m)"

definition unmap_trace :: "nat \<Rightarrow> u64 \<Rightarrow> u64 \<Rightarrow> nat set \<Rightarrow> nat set" where
  "unmap_trace pagesize sz ptr m = munmap pagesize ptr sz m"

lemma trace_returns_pages:
  assumes "kernel_ok pagesize krn" "mmap_helper krn pagesize sz m = (Some ptr, m')"
  shows "unmap_trace pagesize sz ptr m' = m"
  using assms by (auto simp: mmap_helper_def unmap_trace_def munmap_def kernel_ok_def split: option.splits)

lemma pages_of_aligned:
  assumes "0 < pagesize" "unat a = q * pagesize"
  shows "pages_of pagesize a len = {q..<q + (unat len + pagesize - 1) div pagesize}"
proof -
  have "(q * pagesize + unat len + pagesize - 1) div pagesize = q + (unat len + pagesize - 1) div pagesize"
  proof -
    have "q * pagesize + unat len + pagesize - 1 = q * pagesize + (unat len + pagesize - 1)" using assms(1) by simp
    then show ?thesis using assms(1) by (simp only: div_mult_self3)
  qed
  then show ?thesis using assms by (simp add: pages_of_def)
qed

text \<open>Of the table only the pages of the first \<open>n_keys + 8\<close> bytes are given back.\<close>

lemma zipf_table_leaks:
  assumes "kernel_ok pagesize krn" "0 < pagesize" "8 * unat n_keys + 8 < 2 ^ 64" "ptr \<noteq> 0" "unat ptr = q * pagesize"
    and "zipf_table_map krn pagesize n_keys m = (Some ptr, m')"
  shows "zipf_table_delete pagesize n_keys ptr m' = m \<union>
    {q + (unat n_keys + 8 + pagesize - 1) div pagesize..<q + (8 * unat n_keys + 8 + pagesize - 1) div pagesize}"
proof -
  define L where "L = (n_keys + 1) * 8"
  have len: "unat L = 8 * unat n_keys + 8" "unat (n_keys + 8) = unat n_keys + 8"
    using assms(3) by (simp_all add: L_def unat_word_ariths)
  let ?A = "(unat n_keys + 8 + pagesize - 1) div pagesize" and ?B = "(8 * unat n_keys + 8 + pagesize - 1) div pagesize"
  have le: "?A \<le> ?B" by (rule div_le_mono) simp
  have pages: "pages_of pagesize ptr L = {q..<q + ?B}" using pages_of_aligned [OF assms(2,5), of L] by (simp only: len)
  have "krn L m = Some ptr" "m' = m \<union> pages_of pagesize ptr L"
    using assms(6) unfolding zipf_table_map_def mmap_helper_def L_def [symmetric] by (auto split: option.splits)
  then have m': "m' = m \<union> {q..<q + ?B}" and free: "{q..<q + ?B} \<inter> m = {}"
    using assms(1) unfolding pages [symmetric] kernel_ok_def by blast+
  have "zipf_table_delete pagesize n_keys ptr m' = m' - {q..<q + ?A}"
    using assms(4) pages_of_aligned [OF assms(2,5), of "n_keys + 8"] by (simp only: zipf_table_delete_def munmap_def len if_True not_False_eq_True)
  also have "\<dots> = m \<union> {q + ?A..<q + ?B}" unfolding m' using free le by fastforce
  finally show ?thesis .
qed

end
