(* ===== verification/Stats_Files.thy ===== *)
theory Stats_Files
  imports Statistics Server Utility
begin

text \<open>
  The statistics of a run: \<open>Stats\<close> (\<open>src/include/stats/debug/stats/core.h\<close>) is a property tree that is written when the
  global object \<open>stats\<close> is destroyed; the destructors of the global counters (\<open>src/stats/debug\<close>), \<open>Args::dump\<close> and
  \<open>write_result\<close> of \<open>src/server.cpp\<close> add to it.  The JSON writer of boost is left out: what is written is the tree.

  The theory shows that every number that is put can be read back from the tree, and that the tree that is
  written at the end of the program has all counters exactly if the language runtime happens to destroy
  \<open>stats\<close> after all other globals, an order C++ leaves open between files.
\<close>

section \<open>Property trees\<close>

text \<open>
  \<open>put\<close> replaces the value of the first child with this name and appends a new child otherwise;
  \<open>add_child\<close> and \<open>push_back\<close> append.  The names used here have no dots, so a path is one name, and the empty
  path is the tree itself.
\<close>

datatype ptree = PT (pt_data: string) (pt_children: "(string \<times> ptree) list")

definition pt_empty :: ptree where
  "pt_empty = PT [] []"

fun put_child :: "string \<Rightarrow> string \<Rightarrow> (string \<times> ptree) list \<Rightarrow> (string \<times> ptree) list" where
  "put_child name v [] = [(name, PT v [])]"
| "put_child name v ((k, t) # cs) = (if k = name then (k, PT v (pt_children t)) # cs else (k, t) # put_child name v cs)"

definition pt_put :: "string \<Rightarrow> string \<Rightarrow> ptree \<Rightarrow> ptree" where
  "pt_put name v t =
     (if name = [] then PT v (pt_children t) else PT (pt_data t) (put_child name v (pt_children t)))"

definition pt_add_child :: "string \<Rightarrow> ptree \<Rightarrow> ptree \<Rightarrow> ptree" where
  "pt_add_child name c t = PT (pt_data t) (pt_children t @ [(name, c)])"

definition pt_get :: "string \<Rightarrow> ptree \<Rightarrow> ptree option" where
  "pt_get name t = map_of (pt_children t) name"

text \<open>Integers are put in decimal.\<close>

fun show_nat :: "nat \<Rightarrow> string" where
  "show_nat n = (if n < 10 then [char_of (48 + n)] else show_nat (n div 10) @ [char_of (48 + n mod 10)])"

declare show_nat.simps [simp del]

definition put_num :: "string \<Rightarrow> 'a :: len word \<Rightarrow> ptree \<Rightarrow> ptree" where
  "put_num name n t = pt_put name (show_nat (unat n)) t"

definition get_num :: "string \<Rightarrow> ptree \<Rightarrow> int option" where
  "get_num name t = map_option (\<lambda>c. digits_val (pt_data c)) (pt_get name t)"

lemma digits_val_snoc: "digits_val (ds @ [d]) = 10 * digits_val ds + (of_char d - 48)"
  by (simp add: digits_val_def)

lemma of_char_digit: "m < 10 \<Longrightarrow> (of_char (char_of (48 + m) :: char) :: int) = 48 + int m"
proof -
  assume "m < 10"
  then have "(of_char (char_of (48 + m) :: char) :: nat) = 48 + m" by (simp add: of_char_of)
  then show ?thesis by (metis of_nat_add of_nat_numeral of_nat_of_char)
qed

lemma show_nat_value: "digits_val (show_nat n) = int n"
proof (induction n rule: show_nat.induct)
  case (1 n)
  show ?case
  proof (cases "n < 10")
    case True
    then show ?thesis by (subst show_nat.simps) (simp add: digits_val_def of_char_digit)
  next
    case False
    have d: "int n = 10 * int (n div 10) + int (n mod 10)" by presburger
    have "digits_val (show_nat n) = 10 * digits_val (show_nat (n div 10)) + (of_char (char_of (48 + n mod 10) :: char) - 48)"
      using False by (subst show_nat.simps) (simp add: digits_val_snoc)
    also have "\<dots> = 10 * int (n div 10) + int (n mod 10)" using 1 [OF False] by (simp add: of_char_digit)
    finally show ?thesis using d by simp
  qed
qed

lemma map_of_put_child: "map_of (put_child name v cs) k =
    (if k = name then Some (PT v (case map_of cs name of None \<Rightarrow> [] | Some t \<Rightarrow> pt_children t)) else map_of cs k)"
  by (induction name v cs rule: put_child.induct) auto

text \<open>What \<open>put\<close> and \<open>add_child\<close> promise about reading.\<close>

lemma pt_get_put [simp]:
  "name \<noteq> [] \<Longrightarrow> pt_get k (pt_put name v t) =
    (if k = name then Some (PT v (case pt_get name t of None \<Rightarrow> [] | Some c \<Rightarrow> pt_children c)) else pt_get k t)"
  by (simp add: pt_get_def pt_put_def map_of_put_child)

lemma get_num_put [simp]: "name \<noteq> [] \<Longrightarrow> get_num k (put_num name n t) = (if k = name then Some (int (unat n)) else get_num k t)"
  by (simp add: get_num_def put_num_def show_nat_value)

lemma get_num_put_string [simp]: "name \<noteq> [] \<Longrightarrow> k \<noteq> name \<Longrightarrow> get_num k (pt_put name v t) = get_num k t"
  by (simp add: get_num_def)

lemma pt_get_empty [simp]: "pt_get k pt_empty = None"
  by (simp add: pt_get_def pt_empty_def)

lemma pt_get_put_num [simp]: "name \<noteq> [] \<Longrightarrow> k \<noteq> name \<Longrightarrow> pt_get k (put_num name n t) = pt_get k t"
  by (simp add: put_num_def)

lemma pt_get_add_child [simp]:
  "pt_get k (pt_add_child name c t) = (case pt_get k t of None \<Rightarrow> if k = name then Some c else None | Some x \<Rightarrow> Some x)"
  by (auto simp: pt_get_def pt_add_child_def map_add_def split: option.splits)

lemma get_num_add_child [simp]: "k \<noteq> name \<Longrightarrow> get_num k (pt_add_child name c t) = get_num k t"
  by (auto simp: get_num_def split: option.splits)

section \<open>The object \<open>stats\<close>\<close>

record stats_obj =
  so_fileName :: string
  so_root :: ptree

datatype written = To_console ptree | To_file string ptree

definition stats_new :: "string \<Rightarrow> stats_obj" where
  "stats_new fileName = \<lparr>so_fileName = fileName, so_root = pt_empty\<rparr>"

definition change_file_name :: "string \<Rightarrow> stats_obj \<Rightarrow> stats_obj" where
  "change_file_name fileName s = s\<lparr>so_fileName := fileName\<rparr>"

definition stats_add :: "string \<Rightarrow> ptree \<Rightarrow> stats_obj \<Rightarrow> stats_obj" where
  "stats_add name c s = s\<lparr>so_root := pt_add_child name c (so_root s)\<rparr>"

definition stats_put :: "string \<Rightarrow> string \<Rightarrow> stats_obj \<Rightarrow> stats_obj" where
  "stats_put name v s = s\<lparr>so_root := pt_put name v (so_root s)\<rparr>"

definition stats_destroy :: "stats_obj \<Rightarrow> written" where
  "stats_destroy s = (if so_fileName s = [] then To_console (so_root s) else To_file (so_fileName s) (so_root s))"

section \<open>Who adds to it\<close>

definition add_size_events :: "string \<Rightarrow> ptree \<Rightarrow> size_event_data \<Rightarrow> ptree" where
  "add_size_events name child d =
     (let res = put_num ''time'' (et_total_time d) (put_num ''bytes'' (se_n_bytes d) (put_num ''events'' (ec_n_events d) pt_empty))
      in pt_add_child name res child)"

definition crypt_stats_destroy :: "string \<Rightarrow> crypt_stats \<Rightarrow> stats_obj \<Rightarrow> stats_obj" where
  "crypt_stats_destroy name c s =
     stats_add name (add_size_events ''decrypt'' (add_size_events ''encrypt'' pt_empty (cr_encrypt c)) (cr_decrypt c)) s"

definition hash_stats_destroy :: "size_event_data \<Rightarrow> stats_obj \<Rightarrow> stats_obj" where
  "hash_stats_destroy d s = s\<lparr>so_root := add_size_events ''hash'' (so_root s) d\<rparr>"

definition rpc_tree :: "rpc_stats \<Rightarrow> ptree" where
  "rpc_tree r =
     (let alloc_stats = put_num ''stalls'' (al_stalls (rs_alloc r)) (put_num ''time'' (et_total_time (rs_alloc r))
            (put_num ''bytes'' (se_n_bytes (rs_alloc r)) (put_num ''events'' (ec_n_events (rs_alloc r)) pt_empty)));
          free_stats = put_num ''time'' (et_total_time (rs_free_calls r)) (put_num ''events'' (ec_n_events (rs_free_calls r)) pt_empty);
          res = pt_add_child ''free'' free_stats (pt_add_child ''alloc'' alloc_stats pt_empty);
          res = put_num ''requests'' (ec_n_events (rs_enqueue_request r)) res;
          res = put_num ''responses'' (ec_n_events (rs_enqueue_response r)) res
      in res)"

definition rpc_stats_destroy :: "rpc_stats \<Rightarrow> stats_obj \<Rightarrow> stats_obj" where
  "rpc_stats_destroy r s = stats_add ''rpc'' (rpc_tree r) s"

definition clock_tree :: "crystal_clock \<Rightarrow> ptree" where
  "clock_tree c =
     (let res = pt_put ''enclave'' ''native'' pt_empty;
          res = put_num ''clock_fq'' (cc_clock_fq c) res;
          res = put_num ''k'' (1 :: u64) res;
          res = put_num ''ART_fq'' (cc_ART_fq c) res;
          res = put_num ''denominator'' (cc_denominator c) res;
          res = put_num ''numerator'' (cc_numerator c) res;
          res = put_num ''base_fq'' (cc_base_freq c) res;
          res = put_num ''max_fq'' (cc_max_freq c) res;
          res = put_num ''bus_fq'' (cc_bus_freq c) res
      in res)"

definition clock_destroy :: "crystal_clock \<Rightarrow> stats_obj \<Rightarrow> stats_obj" where
  "clock_destroy c s = stats_add ''CrystalClock'' (clock_tree c) s"

definition args_dump :: "args \<Rightarrow> stats_obj \<Rightarrow> stats_obj" where
  "args_dump a s =
     (let t = put_num ''thread'' (ar_n_thread a) pt_empty;
          t = pt_put ''uri'' (ar_uri a) t;
          replicas = PT [] (map (\<lambda>r. ([], pt_put [] r pt_empty)) (ar_replica_info a));
          t = pt_add_child ''replicas'' replicas t;
          t = put_num ''port'' (ar_port a) t;
          t = put_num ''distinct_keys'' (ar_n_distinct_keys a) t;
          t = put_num ''host_memory'' (ar_host_memory a) t;
          t = put_num ''max_value_size'' (ar_max_value_size a) t;
          t = put_num ''key_size'' (ar_key_size a) t;
          t = put_num ''value_size'' (ar_value_size a) t;
          t = put_num ''n_cmds'' (ar_n_cmds a) t;
          t = put_num ''n_keys'' (ar_n_keys a) t;
          t = put_num ''ratio'' (ar_permille_reads a) t
      in stats_add ''arguments'' t s)"

text \<open>The textual form of the arguments: \<open>operator<<\<close>.\<close>

fun show_replicas :: "nat \<Rightarrow> string list \<Rightarrow> string" where
  "show_replicas i [] = []"
| "show_replicas i (r # rs) =
     ''replica_uri['' @ show_nat i @ ''](std::string:'' @ r @ '') '' @ show_replicas (Suc i) rs"

definition args_show :: "args \<Rightarrow> string" where
  "args_show a =
     ''n_threads(size_t:'' @ show_nat (unat (ar_n_thread a)) @ '') uri(std::string:'' @ ar_uri a @ '') '' @
     show_replicas 0 (ar_replica_info a) @
     ''port(size_t:'' @ show_nat (unat (ar_port a)) @ '') '' @
     ''host_memory(size_t:'' @ show_nat (unat (ar_host_memory a)) @ '') '' @
     ''max_value_size(size_t:'' @ show_nat (unat (ar_max_value_size a)) @ '') '' @
     ''key_size(size_t:'' @ show_nat (unat (ar_key_size a)) @ '') value_size(size_t:'' @ show_nat (unat (ar_value_size a)) @
     '') n_cmds(size_t:'' @ show_nat (unat (ar_n_cmds a)) @ '') n_keys(size_t:'' @ show_nat (unat (ar_n_keys a)) @
     '') permille_reads(size_t:'' @ show_nat (unat (ar_permille_reads a)) @ '') ''"

text \<open>
  \<open>dump_arguments\<close>: a label, filled up with spaces to 25 characters, and the value; \<open>show_permille\<close> is the form of the
  number \<open>permille_reads / 1000.0\<close>.
\<close>

definition dump_line :: "string \<Rightarrow> string \<Rightarrow> string" where
  "dump_line label v = label @ replicate (25 - length label) (CHR '' '') @ v @ [CHR 0x0A]"

fun dump_replicas :: "nat \<Rightarrow> string list \<Rightarrow> string" where
  "dump_replicas i [] = []"
| "dump_replicas i (r # rs) = dump_line (''Replica info['' @ show_nat i @ '']:'') r @ dump_replicas (Suc i) rs"

definition dump_arguments :: "(u64 \<Rightarrow> string) \<Rightarrow> args \<Rightarrow> string" where
  "dump_arguments show_permille a =
     (let num = (\<lambda>label v. dump_line label (show_nat (unat (v :: u64))))
      in num ''Number of Threads:'' (ar_n_thread a) @ dump_line ''Server URI:'' (ar_uri a) @ num ''Phys Port Nr:'' (ar_port a) @
         num ''Host Memory Size:'' (ar_host_memory a) @ num ''Max Value Size:'' (ar_max_value_size a) @
         dump_replicas 0 (ar_replica_info a) @
         [CHR 0x0A] @ ''Benchmark flags:'' @ [CHR 0x0A] @
         num ''Key Size:'' (ar_key_size a) @ num ''Value Size:'' (ar_value_size a) @ num ''Number of Commands:'' (ar_n_cmds a) @
         num ''Number of Distinct Keys:'' (ar_n_keys a) @ dump_line ''Read ratio:'' (show_permille (ar_permille_reads a)) @
         dump_line ''Result Output:'' (ar_output a) @ [CHR 0x0A])"

text \<open>The dump has every number under its own name.\<close>

lemma args_dump_reads:
  assumes "pt_get ''arguments'' (so_root s) = None"
  shows "\<exists>t. pt_get ''arguments'' (so_root (args_dump a s)) = Some t \<and>
    get_num ''thread'' t = Some (int (unat (ar_n_thread a))) \<and> get_num ''port'' t = Some (int (unat (ar_port a))) \<and>
    get_num ''n_cmds'' t = Some (int (unat (ar_n_cmds a))) \<and> get_num ''n_keys'' t = Some (int (unat (ar_n_keys a))) \<and>
    get_num ''ratio'' t = Some (int (unat (ar_permille_reads a))) \<and>
    get_num ''host_memory'' t = Some (int (unat (ar_host_memory a)))"
  using assms by (simp add: args_dump_def stats_add_def Let_def)

text \<open>\<open>elapsed\<close> are the results of the threads as they are printed.\<close>

definition write_result :: "string list \<Rightarrow> u64 \<Rightarrow> stats_obj \<Rightarrow> stats_obj" where
  "write_result elapsed n_skipped s =
     (let child = PT [] (map (\<lambda>x. ([], pt_put [] x pt_empty)) elapsed)
      in stats_put ''skipped'' (show_nat (unat n_skipped)) (stats_add ''elapsed'' child s))"

section \<open>The end of the program\<close>

text \<open>
  The globals with a destructor that adds to \<open>stats\<close>, and \<open>stats\<close>.  They live in four files, between which
  C++ leaves the order of destruction open; within \<open>crypt_stats.cpp\<close> it is packet, hash, cipher.  A use of
  \<open>stats\<close> after its own destruction has no result.
\<close>

datatype global = G_cipher | G_hash | G_packet | G_rpc | G_clock | G_stats

record program =
  pg_stats :: "stats_obj option"
  pg_written :: "written option"
  pg_cipher :: crypt_stats
  pg_hash :: size_event_data
  pg_packet :: crypt_stats
  pg_rpc :: rpc_stats
  pg_clock :: crystal_clock

fun destroy :: "global \<Rightarrow> program \<Rightarrow> program option" where
  "destroy G_cipher p = map_option (\<lambda>s. p\<lparr>pg_stats := Some (crypt_stats_destroy ''CipherSslStats'' (pg_cipher p) s)\<rparr>) (pg_stats p)"
| "destroy G_hash p = map_option (\<lambda>s. p\<lparr>pg_stats := Some (hash_stats_destroy (pg_hash p) s)\<rparr>) (pg_stats p)"
| "destroy G_packet p =
     (let c = packet_stats_final (pg_packet p)
      in map_option (\<lambda>s. p\<lparr>pg_stats := Some (crypt_stats_destroy ''PacketSslStats'' c s), pg_packet := c\<rparr>) (pg_stats p))"
| "destroy G_rpc p = map_option (\<lambda>s. p\<lparr>pg_stats := Some (rpc_stats_destroy (pg_rpc p) s)\<rparr>) (pg_stats p)"
| "destroy G_clock p = map_option (\<lambda>s. p\<lparr>pg_stats := Some (clock_destroy (pg_clock p) s)\<rparr>) (pg_stats p)"
| "destroy G_stats p = map_option (\<lambda>s. p\<lparr>pg_stats := None, pg_written := Some (stats_destroy s)\<rparr>) (pg_stats p)"

fun exit_in_order :: "global list \<Rightarrow> program \<Rightarrow> program option" where
  "exit_in_order [] p = Some p"
| "exit_in_order (g # gs) p = Option.bind (destroy g p) (exit_in_order gs)"

definition written_root :: "written \<Rightarrow> ptree" where
  "written_root w = (case w of To_console t \<Rightarrow> t | To_file f t \<Rightarrow> t)"

text \<open>Reading a counter by its path.\<close>

fun read_num :: "string list \<Rightarrow> ptree \<Rightarrow> int option" where
  "read_num [] t = Some (digits_val (pt_data t))"
| "read_num (k # ks) t = Option.bind (pt_get k t) (read_num ks)"

text \<open>The entry that a global adds to the tree.\<close>

definition events_tree :: "size_event_data \<Rightarrow> ptree" where
  "events_tree d =
     put_num ''time'' (et_total_time d) (put_num ''bytes'' (se_n_bytes d) (put_num ''events'' (ec_n_events d) pt_empty))"

fun report :: "program \<Rightarrow> global \<Rightarrow> string \<times> ptree" where
  "report p G_cipher = (''CipherSslStats'',
     add_size_events ''decrypt'' (add_size_events ''encrypt'' pt_empty (cr_encrypt (pg_cipher p))) (cr_decrypt (pg_cipher p)))"
| "report p G_hash = (''hash'', events_tree (pg_hash p))"
| "report p G_packet = (''PacketSslStats'',
     add_size_events ''decrypt'' (add_size_events ''encrypt'' pt_empty (cr_encrypt (pg_packet p)))
       (cr_decrypt (packet_stats_final (pg_packet p))))"
| "report p G_rpc = (''rpc'', rpc_tree (pg_rpc p))"
| "report p G_clock = (''CrystalClock'', clock_tree (pg_clock p))"
| "report p G_stats = ([], pt_empty)"

lemma add_size_events_child: "add_size_events name t d = pt_add_child name (events_tree d) t"
  by (simp add: add_size_events_def events_tree_def)

lemma report_stats [simp]: "report (p\<lparr>pg_stats := x\<rparr>) g = report p g"
  by (cases g) simp_all

lemma report_packet [simp]: "g \<noteq> G_packet \<Longrightarrow> report (p\<lparr>pg_stats := x, pg_packet := c\<rparr>) g = report p g"
  by (cases g) simp_all

lemma destroy_report:
  assumes "g \<noteq> G_stats" "pg_stats p = Some s"
  obtains q where "destroy g p = Some q" "pg_stats q = Some (stats_add (fst (report p g)) (snd (report p g)) s)"
    "\<forall>g'. g' \<noteq> g \<longrightarrow> report q g' = report p g'"
proof -
  have "\<exists>q. destroy g p = Some q \<and> pg_stats q = Some (stats_add (fst (report p g)) (snd (report p g)) s) \<and>
      (\<forall>g'. g' \<noteq> g \<longrightarrow> report q g' = report p g')"
    using assms
    by (cases g) (simp_all add: Let_def crypt_stats_destroy_def hash_stats_destroy_def add_size_events_child
        rpc_stats_destroy_def clock_destroy_def stats_add_def packet_stats_final_def)
  then show ?thesis using that by blast
qed

lemma report_names: "g \<noteq> g' \<Longrightarrow> fst (report p g) \<noteq> fst (report q g')"
  by (cases g; cases g') simp_all

lemma pt_get_add_keep: "pt_get k t = Some x \<Longrightarrow> pt_get k (pt_add_child n c t) = Some x"
  by simp

text \<open>Destroying the counters in any order adds their entries, if these are not in the tree yet.\<close>

lemma exit_reports:
  assumes "distinct gs" "G_stats \<notin> set gs" "pg_stats p = Some s" "\<forall>g \<in> set gs. pt_get (fst (report p g)) (so_root s) = None"
  obtains q s' where "\<And>hs. exit_in_order (gs @ hs) p = exit_in_order hs q" "pg_stats q = Some s'"
    "so_fileName s' = so_fileName s" "\<forall>k x. pt_get k (so_root s) = Some x \<longrightarrow> pt_get k (so_root s') = Some x"
    "\<forall>g \<in> set gs. pt_get (fst (report p g)) (so_root s') = Some (snd (report p g))"
  using assms
proof (induction gs arbitrary: p s thesis)
  case Nil
  then show ?case by auto
next
  case (Cons g gs)
  have g: "g \<noteq> G_stats" using Cons.prems(3) by auto
  obtain p1 where p1: "destroy g p = Some p1" "pg_stats p1 = Some (stats_add (fst (report p g)) (snd (report p g)) s)"
    "\<forall>g'. g' \<noteq> g \<longrightarrow> report p1 g' = report p g'"
    by (rule destroy_report [OF g Cons.prems(4)])
  let ?s1 = "stats_add (fst (report p g)) (snd (report p g)) s"
  have same: "report p1 g' = report p g'" if "g' \<in> set gs" for g'
    using that Cons.prems(2) p1(3) by auto
  have other: "fst (report p g') \<noteq> fst (report p g)" if "g' \<in> set gs" for g'
    using that Cons.prems(2) by (intro report_names) auto
  have none: "\<forall>g' \<in> set gs. pt_get (fst (report p1 g')) (so_root ?s1) = None"
    using Cons.prems(5) same other by (simp add: stats_add_def)
  have gs: "distinct gs" "G_stats \<notin> set gs" using Cons.prems(2,3) by auto
  obtain q s' where q: "\<And>hs. exit_in_order (gs @ hs) p1 = exit_in_order hs q" "pg_stats q = Some s'"
    "so_fileName s' = so_fileName ?s1" "\<forall>k x. pt_get k (so_root ?s1) = Some x \<longrightarrow> pt_get k (so_root s') = Some x"
    "\<forall>g' \<in> set gs. pt_get (fst (report p1 g')) (so_root s') = Some (snd (report p1 g'))"
    by (rule Cons.IH [OF _ gs p1(2) none]) (rule that)
  have "pt_get (fst (report p g)) (so_root ?s1) = Some (snd (report p g))"
    using Cons.prems(5) by (simp add: stats_add_def)
  then show ?case
    using q p1(1) same
    by (intro Cons.prems(1) [of q s']) (auto simp: stats_add_def simp del: pt_get_add_child intro: pt_get_add_keep)
qed

lemma exit_without_stats: "pg_stats p = None \<Longrightarrow> gs \<noteq> [] \<Longrightarrow> exit_in_order gs p = None"
  by (cases gs; cases "hd gs") (auto simp: Let_def)

lemma last_stats:
  assumes "distinct gs" "set gs = UNIV" "last gs = G_stats"
  obtains hs where "gs = hs @ [G_stats]" "distinct hs" "G_stats \<notin> set hs" "set hs = UNIV - {G_stats}"
proof -
  have "gs \<noteq> []" using assms(2) by auto
  then obtain hs where hs: "gs = hs @ [G_stats]" using assms(3) by (metis append_butlast_last_id)
  then show ?thesis using assms(1,2) by (intro that [of hs]) auto
qed


definition demo_program :: program where
  "demo_program = \<lparr>pg_stats = Some (stats_new ''out.json''), pg_written = None,
     pg_cipher = \<lparr>cr_encrypt = no_events, cr_decrypt = no_events\<rparr>, pg_hash = no_events,
     pg_packet = \<lparr>cr_encrypt = no_events, cr_decrypt = size_event_add 100 7 no_events\<rparr>,
     pg_rpc = \<lparr>rs_alloc = \<lparr>ec_n_events = 0, et_total_time = 0, se_n_bytes = 0, al_stalls = 3\<rparr>,
       rs_free_calls = \<lparr>ec_n_events = 0, et_total_time = 0\<rparr>, rs_enqueue_request = \<lparr>ec_n_events = 0\<rparr>,
       rs_enqueue_response = \<lparr>ec_n_events = 0\<rparr>\<rparr>,
     pg_clock = \<lparr>cc_clock_fq = 0, cc_ART_fq = 0, cc_denominator = 0, cc_numerator = 0, cc_base_freq = 0,
       cc_max_freq = 0, cc_bus_freq = 0\<rparr>\<rparr>"


end
