(* ===== verification/Samples.thy ===== *)
theory Samples
  imports Stats_Files
begin

text \<open>
  The small programs beside the server: the eRPC sample \<open>src/client.cpp\<close> and \<open>src/hello-server.cpp\<close> with
  the arguments of \<open>src/common.cpp\<close>, the port operations of \<open>src/scone.cpp\<close> and the program that prints the size of
  the control block of a shared pointer, \<open>src/vars/shared_ptr_size.cpp\<close>.

  Shown here: the two halves of the sample fit together, the client prints the greeting of the server,
  whatever the response buffer held before.
\<close>

section \<open>Arguments\<close>

record sample_args =
  sa_SvrName :: string
  sa_ClnNames :: "string list"

fun parse_args_from :: "nat \<Rightarrow> string list \<Rightarrow> sample_args \<Rightarrow> sample_args" where
  "parse_args_from i [] s = s"
| "parse_args_from i (str # argv) s =
     parse_args_from (Suc i) argv
       (if i = 0 then s\<lparr>sa_SvrName := str\<rparr> else s\<lparr>sa_ClnNames := sa_ClnNames s @ [str]\<rparr>)"

definition parse_args :: "string list \<Rightarrow> sample_args" where
  "parse_args argv = parse_args_from 0 argv \<lparr>sa_SvrName = [], sa_ClnNames = []\<rparr>"

lemma parse_args_from_rest:
  "0 < i \<Longrightarrow> parse_args_from i argv s = s\<lparr>sa_ClnNames := sa_ClnNames s @ argv\<rparr>"
  by (induction i argv s rule: parse_args_from.induct) auto

lemma parse_args_result:
  "parse_args argv = (case argv of [] \<Rightarrow> \<lparr>sa_SvrName = [], sa_ClnNames = []\<rparr>
     | svr # clients \<Rightarrow> \<lparr>sa_SvrName = svr, sa_ClnNames = clients\<rparr>)"
  by (cases argv) (simp_all add: parse_args_def parse_args_from_rest)

section \<open>Client and server\<close>

definition UDP_port :: nat where
  "UDP_port = 31850"

definition Msg_size :: nat where
  "Msg_size = 16"

text \<open>The handler resizes the response buffer of its request and prints a string into it.\<close>

definition hello :: bytes where
  "hello = [104, 101, 108, 108, 111, 0]"

definition hello_req_handler :: "bytes \<Rightarrow> (bytes \<times> string) option" where
  "hello_req_handler pre_resp = do {
     _ \<leftarrow> assert_that (Msg_size \<le> length pre_resp);
     resp \<leftarrow> mem_write (take Msg_size pre_resp) 0 hello;
     Some (resp, ''here'' @ [CHR 0x0A, CHR 0x0A])
   }"

text \<open>A C string: the characters up to the first zero byte; without one there is no result.\<close>

definition c_string :: "bytes \<Rightarrow> string option" where
  "c_string buf = (if 0 \<in> set buf then Some (map (\<lambda>b. char_of (unat b)) (takeWhile (\<lambda>b. b \<noteq> 0) buf)) else None)"

definition client_cont_func :: "bytes \<Rightarrow> string option" where
  "client_cont_func resp = map_option (\<lambda>s. ''CLIENT: '' @ s @ [CHR 0x0A]) (c_string resp)"

text \<open>
  The program of the client: the two addresses, and the output, the number \<open>create_session\<close> returned and the text of
  the continuation when the response arrives while the event loop runs.  Without a client name
  \<open>ClnNames[0]\<close> is out of range.
\<close>

definition show_int :: "int \<Rightarrow> string" where
  "show_int n = (if n < 0 then ''-'' @ show_nat (nat (- n)) else show_nat (nat n))"

definition sample_client :: "string list \<Rightarrow> int \<Rightarrow> bytes option \<Rightarrow> (string \<times> string \<times> string) option" where
  "sample_client argv session_num resp = do {
     let a = parse_args (tl argv);
     let server_uri = sa_SvrName a @ '':'' @ show_nat UDP_port;
     _ \<leftarrow> assert_that (sa_ClnNames a \<noteq> []);
     let client_uri = hd (sa_ClnNames a) @ '':'' @ show_nat UDP_port;
     let out = show_int session_num @ [CHR 0x0A];
     (case resp of
        None \<Rightarrow> Some (server_uri, client_uri, out)
      | Some r \<Rightarrow> map_option (\<lambda>s. (server_uri, client_uri, out @ s)) (client_cont_func r))
   }"

definition sample_server_uri :: "string list \<Rightarrow> string" where
  "sample_server_uri argv = sa_SvrName (parse_args (tl argv)) @ '':'' @ show_nat UDP_port"

lemma c_string_hello: "c_string (hello @ rest) = Some ''hello''"
  by (simp add: c_string_def hello_def) code_simp

lemma sample_greets:
  assumes "16 \<le> length pre_resp"
  shows "\<exists>resp out. hello_req_handler pre_resp = Some (resp, out) \<and> length resp = 16 \<and>
    sample_client [prog, svr, cln] n (Some resp) = Some (sample_server_uri [prog', svr],
       cln @ '':31850'', show_int n @ [CHR 0x0A] @ ''CLIENT: hello'' @ [CHR 0x0A])"
proof -
  let ?resp = "hello @ drop 6 (take 16 pre_resp)"
  have resp: "hello_req_handler pre_resp = Some (?resp, ''here'' @ [CHR 0x0A, CHR 0x0A])"
    using assms by (simp add: hello_req_handler_def Msg_size_def mem_write_def hello_def eval_nat_numeral)
  have "show_nat UDP_port = ''31850''"
    by (simp add: UDP_port_def show_nat.simps) code_simp
  then have "sample_client [prog, svr, cln] n (Some ?resp) = Some (sample_server_uri [prog', svr],
       cln @ '':31850'', show_int n @ [CHR 0x0A] @ ''CLIENT: hello'' @ [CHR 0x0A])"
    by (simp add: sample_client_def parse_args_result client_cont_func_def sample_server_uri_def Let_def c_string_hello)
  with resp assms show ?thesis by (intro exI [of _ ?resp]) (simp add: hello_def)
qed

section \<open>Ports\<close>

text \<open>The writes to the input/output ports, in order; the second one is the delay on port \<open>0x80\<close>.\<close>

datatype port_write = Out_long u16 u32 | Out_word u16 u16 | Out_byte u16 u8

definition outl_p :: "u32 \<Rightarrow> u16 \<Rightarrow> port_write list" where
  "outl_p value port = [Out_long port value, Out_byte 0x80 (ucast value)]"

definition outw_p :: "u16 \<Rightarrow> u16 \<Rightarrow> port_write list" where
  "outw_p value port = [Out_word port value, Out_byte 0x80 (ucast value)]"

definition outb_p :: "u8 \<Rightarrow> u16 \<Rightarrow> port_write list" where
  "outb_p value port = [Out_byte port value, Out_byte 0x80 value]"

section \<open>The control block of a shared pointer\<close>

text \<open>
  The allocator records the last request; \<open>sizeof_block\<close> is the size of the object \<open>std::allocate_shared\<close> asks one of,
  which holds the control block and the 128 bytes of \<open>S\<close>.
\<close>

definition shared_allocate :: "u64 \<Rightarrow> u64 \<Rightarrow> u64 \<times> u64" where
  "shared_allocate sizeof_value n = (n, n * sizeof_value)"

definition shared_ptr_main :: "u64 \<Rightarrow> string" where
  "shared_ptr_main sizeof_block =
     (case shared_allocate sizeof_block 1 of (n_request, requested_size) \<Rightarrow>
        ''#pragma once'' @ [CHR 0x0A, CHR 0x0A] @
        ''static constexpr size_t shared_ptr_ctl_block_sz = '' @ show_nat (unat (requested_size - 128)) @ '';'' @ [CHR 0x0A])"

end
