(* ===== verification/Dispatch.thy ===== *)
theory Dispatch
  imports Protocol_Properties
begin

text \<open>
  How requests and responses find their code: \<open>register_functions\<close> of \<open>src/server.cpp\<close>, which registers the
  function \<open>request<CALL>\<close> for every request type, and \<open>request\<close>, \<open>cont\<close>, \<open>create_svr_context\<close>, \<open>begin_request\<close> and the functor
  \<open>True_if_time\<close> of \<open>src/include/protocol/abd/protocol.h\<close>.  The \<open>ABD\<close> objects live in a map from their addresses, as
  several threads of a process have one each; a server context holds the address of its parent.

  The theory shows that whatever a node does, each request it sends has a registered function, the
  continuation that belongs to its type and a context that exists, so no response runs into one of the
  two continuation types without code.
\<close>

section \<open>Registered functions\<close>

text \<open>The enumeration \<open>ReqType\<close>, and the recursion of the template over it.\<close>

fun req_num :: "req_type \<Rightarrow> nat" where
  "req_num Put = 0"
| "req_num Get = 1"
| "req_num GetTimeStamp = 2"
| "req_num PutReplica = 3"
| "req_num GetValueTimeStamp = 4"
| "req_num Cmd = 5"
| "req_num EndReq = 6"

definition req_of_num :: "nat \<Rightarrow> req_type" where
  "req_of_num n = [Put, Get, GetTimeStamp, PutReplica, GetValueTimeStamp, Cmd, EndReq] ! n"

function register_from :: "nat \<Rightarrow> (nat \<times> req_type) list" where
  "register_from call =
     (if req_num EndReq \<le> call then [] else (call, req_of_num call) # register_from (call + 1))"
  by auto
termination by (relation "measure (\<lambda>call. 6 - call)") auto

declare register_from.simps [simp del]

definition register_functions :: "(nat \<times> req_type) list" where
  "register_functions = register_from 0"

lemma register_functions_eval:
  "register_functions = [(0, Put), (1, Get), (2, GetTimeStamp), (3, PutReplica), (4, GetValueTimeStamp), (5, Cmd)]"
  by (simp add: register_functions_def register_from.simps req_of_num_def numeral_2_eq_2 numeral_3_eq_3)

lemma registered: "map_of register_functions (req_num rt) = (if rt = EndReq then None else Some rt)"
  by (cases rt) (simp_all add: register_functions_eval)

section \<open>Contexts\<close>

text \<open>\<open>addr\<close> is the address of the \<open>ABD\<close> object: the \<open>this\<close> pointer.\<close>

record svr_context =
  sx_parent :: nat
  sx_cipher :: key_iv

definition create_svr_context :: "(nat \<Rightarrow> 's abd option) \<Rightarrow> nat \<Rightarrow> svr_context option" where
  "create_svr_context abds addr =
     map_option (\<lambda>st. \<lparr>sx_parent = addr, sx_cipher = ab_cipher st\<rparr>) (abds addr)"

definition begin_request :: "nat \<Rightarrow> svr_context \<Rightarrow> nat \<times> svr_context" where
  "begin_request handle context = (handle, context)"

definition request_call ::
  "('s, 'p) penv \<Rightarrow> event \<Rightarrow> req_type \<Rightarrow> nat \<Rightarrow> bytes \<Rightarrow> svr_context \<Rightarrow> (nat \<Rightarrow> 's abd option) \<Rightarrow> (nat \<Rightarrow> 's abd option) option" where
  "request_call env ev call handle req tag abds = do {
     let (handle, context) = begin_request handle tag;
     st \<leftarrow> abds (sx_parent context);
     st \<leftarrow> abd_request env ev st call handle req;
     Some (abds(sx_parent context \<mapsto> st))
   }"

definition cont_call ::
  "('s, 'p) penv \<Rightarrow> event \<Rightarrow> cont_type \<Rightarrow> svr_context \<Rightarrow> nat \<Rightarrow> bytes \<Rightarrow> (nat \<Rightarrow> 's abd option) \<Rightarrow> (nat \<Rightarrow> 's abd option) option" where
  "cont_call env ev call handle cid resp abds = do {
     st \<leftarrow> abds (sx_parent handle);
     st \<leftarrow> req_conts env ev st call cid resp;
     Some (abds(sx_parent handle \<mapsto> st))
   }"

text \<open>A packet for request number \<open>n\<close> at the node: eRPC calls the registered function, or none.\<close>

definition dispatch ::
  "('s, 'p) penv \<Rightarrow> event \<Rightarrow> nat \<Rightarrow> nat \<Rightarrow> bytes \<Rightarrow> svr_context \<Rightarrow> (nat \<Rightarrow> 's abd option) \<Rightarrow> (nat \<Rightarrow> 's abd option) option" where
  "dispatch env ev n handle req tag abds =
     Option.bind (map_of register_functions n) (\<lambda>call. request_call env ev call handle req tag abds)"

text \<open>A request of any type reaches the handler of that type at the object its context belongs to, and only that object changes.\<close>

lemma dispatch_handler:
  assumes "abds a = Some st" "create_svr_context abds a = Some tag" "rt \<noteq> EndReq"
  shows "dispatch env ev (req_num rt) handle req tag abds = map_option (\<lambda>st'. abds(a \<mapsto> st')) (abd_request env ev st rt handle req)"
  using assms
  by (auto simp: dispatch_def registered request_call_def begin_request_def create_svr_context_def map_option_case split: option.split)

lemma cont_handler:
  assumes "abds a = Some st" "create_svr_context abds a = Some tag"
  shows "cont_call env ev call tag cid resp abds = map_option (\<lambda>st'. abds(a \<mapsto> st')) (req_conts env ev st call cid resp)"
  using assms by (auto simp: cont_call_def create_svr_context_def map_option_case split: option.split)

section \<open>The functor \<open>True_if_time\<close>\<close>

text \<open>
  The test whether a write with this clock is newer than an entry; the variant for a build with assertions, as the
  other one uses a member \<open>kv\<close> that the type does not have.
\<close>

record true_if_time =
  tt_size :: u64
  tt_clock :: lamport

definition tt_of_msg :: "msg \<Rightarrow> true_if_time option" where
  "tt_of_msg data = do {
     sz \<leftarrow> get_key_size data;
     key \<leftarrow> get_key data;
     clock \<leftarrow> get_lamport sz (span_buf key);
     Some \<lparr>tt_size = sz, tt_clock = clock\<rparr>
   }"

definition tt_call :: "true_if_time \<Rightarrow> ret_value \<Rightarrow> bool" where
  "tt_call t key \<longleftrightarrow> (if rv_size key = 0 then True else rv_lamport key < tt_clock t)"

text \<open>
  It predicts the result of an undisturbed put, except for an empty stored value: that passes with any
  clock, while the put compares the clocks.
\<close>

lemma tt_call_predicts:
  assumes "env_ok env cap" "kv_wf env st" "length k < 2 ^ 64" "length v \<le> cap"
  obtains st' b r where
    "kv_put_value env [] st (size_of k) (k @ krest) (size_of v) (Some (v @ vrest)) c = Some (st', b)"
    "kv_get_key env st (size_of k) (k @ krest) = Some r"
    "rv_size r \<noteq> 0 \<Longrightarrow> tt_call \<lparr>tt_size = sz, tt_clock = c\<rparr> r \<longleftrightarrow> b"
    "rv_size r = 0 \<Longrightarrow> tt_call \<lparr>tt_size = sz, tt_clock = c\<rparr> r"
proof -
  obtain st' where p: "kv_put_value env [] st (size_of k) (k @ krest) (size_of v) (Some (v @ vrest)) c =
      Some (st', kv_look env st k = None \<or> old_clock (kv_look env st k) < c)"
    by (rule kv_put_value_spec [OF assms, of "Some (v @ vrest)" vrest]) auto
  have g: "kv_get_key env st (size_of k) (k @ krest) = Some (case kv_look env st k of
        None \<Rightarrow> \<lparr>rv_lamport = lamport_min, rv_size = 0, rv_value = None\<rparr>
      | Some (c, v) \<Rightarrow> \<lparr>rv_lamport = c, rv_size = size_of v, rv_value = Some v\<rparr>)"
    using kv_get_key_spec [OF assms(1-3)] by simp
  show thesis
    by (rule that [OF p g]) (auto simp: tt_call_def split: option.splits)
qed

section \<open>What a node sends\<close>

text \<open>The pairs of request type and continuation that belong together.\<close>

definition wires :: "(req_type \<times> cont_type) set" where
  "wires = {(GetTimeStamp, GetTime), (GetValueTimeStamp, RetValue), (PutReplica, AckPutTime), (PutReplica, RetGetPutUpdate), (Cmd, CmdRet)}"

definition request_ok :: "nat \<Rightarrow> request \<Rightarrow> bool" where
  "request_ok n r \<longleftrightarrow> (rq_type r, rq_cont r) \<in> wires \<and> rq_ctx r < n"

text \<open>
  A change of a node that keeps its machine id, its key and its contexts and appends output whose requests
  are all right and of the kinds in \<open>W\<close>.
\<close>

definition grows :: "(req_type \<times> cont_type) set \<Rightarrow> 's abd \<Rightarrow> 's abd \<Rightarrow> bool" where
  "grows W st st' \<longleftrightarrow> ab_m_id st' = ab_m_id st \<and> ki_key (ab_cipher st') = ki_key (ab_cipher st) \<and>
     length (ab_ctxs st) \<le> length (ab_ctxs st') \<and>
     (\<exists>as. ab_out st' = ab_out st @ as \<and>
       (\<forall>r. Enqueue_request r \<in> set as \<longrightarrow> request_ok (length (ab_ctxs st')) r \<and> (rq_type r, rq_cont r) \<in> W))"

text \<open>Two kinds of changes are told apart: those that leave the store alone and send no write of a put, and all.\<close>

abbreviation no_write :: "(req_type \<times> cont_type) set" where
  "no_write \<equiv> wires - {(PutReplica, AckPutTime)}"

definition quiet :: "'s abd \<Rightarrow> 's abd \<Rightarrow> bool" where
  "quiet st st' \<longleftrightarrow> grows no_write st st' \<and> kv_skip (ab_kv st') = kv_skip (ab_kv st)"

lemma grows_refl [simp]: "grows W st st"
  by (simp add: grows_def)

lemma request_ok_mono: "request_ok n r \<Longrightarrow> n \<le> m \<Longrightarrow> request_ok m r"
  by (simp add: request_ok_def)

lemma grows_trans: "grows W a b \<Longrightarrow> grows W b c \<Longrightarrow> grows W a c"
  by (fastforce simp: grows_def intro: request_ok_mono)

lemma grows_mono: "grows W a b \<Longrightarrow> W \<subseteq> W' \<Longrightarrow> grows W' a b"
  by (fastforce simp: grows_def)

lemma quiet_grows: "quiet a b \<Longrightarrow> grows wires a b"
  by (auto simp: quiet_def intro: grows_mono)

lemma quiet_refl [simp]: "quiet st st"
  by (simp add: quiet_def)

lemma quiet_trans: "quiet a b \<Longrightarrow> quiet b c \<Longrightarrow> quiet a c"
  by (auto simp: quiet_def intro: grows_trans)

lemma quiet_back: "quiet b c \<Longrightarrow> quiet a b \<Longrightarrow> quiet a c"
  by (rule quiet_trans)

text \<open>The operations that change nothing but contexts and counters, and those that send or answer.\<close>

lemma grows_emit: "\<forall>r. a \<noteq> Enqueue_request r \<Longrightarrow> grows W st (emit a st)"
  by (auto simp: grows_def emit_def)

lemma quiet_emit: "\<forall>r. a \<noteq> Enqueue_request r \<Longrightarrow> quiet st (emit a st)"
  by (simp add: quiet_def grows_emit)

lemma kv_grows: "grows W st (st\<lparr>ab_kv := kv\<rparr>)"
  by (simp add: grows_def)

lemma quiet_updates:
  "quiet st (st\<lparr>ab_ctxs := ab_ctxs st @ [c]\<rparr>)" "quiet st ((increment_traces st)\<lparr>ab_ctxs := ab_ctxs st @ [c]\<rparr>)"
  "quiet st (set_ctx st cid c)" "quiet st (decrement_traces st)" "quiet st (increment_traces st)"
  by (simp_all add: quiet_def grows_def set_ctx_def decrement_traces_def increment_traces_def)

lemma set_ctx_data_quiet: "set_ctx_data st cid n = Some st' \<Longrightarrow> quiet st st'"
  by (auto simp: set_ctx_data_def quiet_updates)

lemma create_node_skip: "create_node env st ks key vs val c = Some (st', n) \<Longrightarrow> kv_skip st' = kv_skip st"
  by (auto simp: create_node_def bind_eq_Some_conv)

lemma create_ctx_node_quiet: "create_ctx_node env st cid key value = Some st' \<Longrightarrow> quiet st st'"
  by (auto simp: create_ctx_node_def bind_eq_Some_conv quiet_def kv_grows dest!: set_ctx_data_quiet create_node_skip
      elim!: grows_trans [rotated])

lemma fill_req_buffers_key: "fill_req_buffers e ki g bufs m sz = Some (ki', rs) \<Longrightarrow> ki_key ki' = ki_key ki"
  by (cases bufs) (auto simp: fill_req_buffers_def bind_eq_Some_conv dest: packet_encrypt_key)

lemma rc_send_msg_requests:
  assumes "rc_send_msg e fresh g ki cid c reps rt cont m = Some (ki', c', reqs)"
  shows "ki_key ki' = ki_key ki \<and> (\<forall>r \<in> set reqs. rq_type r = rt \<and> rq_cont r = cont \<and> rq_ctx r = cid)"
  using assms
  by (auto simp: rc_send_msg_def rc_send_and_encrypt_msg_def bind_eq_Some_conv Let_def dest: fill_req_buffers_key)

lemma abd_send_msg_grows:
  assumes "abd_send_msg env ev st cid key rt cont m = Some st'" "(rt, cont) \<in> wires \<inter> W"
  shows "grows W st st'"
  using assms
  by (auto simp: abd_send_msg_def bind_eq_Some_conv Let_def grows_def emit_def decrement_traces_def set_ctx_def request_ok_def ctx_at_def
      dest!: rc_send_msg_requests split: if_splits)

lemma abd_send_msg_kv: "abd_send_msg env ev st cid key rt cont m = Some st' \<Longrightarrow> ab_kv st' = ab_kv st"
  by (auto simp: abd_send_msg_def bind_eq_Some_conv Let_def split: if_splits)

lemma abd_send_msg_quiet:
  "abd_send_msg env ev st cid key rt cont m = Some st' \<Longrightarrow> (rt, cont) \<in> no_write \<Longrightarrow> quiet st st'"
  by (simp add: quiet_def abd_send_msg_grows abd_send_msg_kv)

lemma abd_respond_grows: "abd_respond env ev st h m = Some st' \<Longrightarrow> grows W st st'"
  and abd_respond_quiet: "abd_respond env ev st h m = Some st' \<Longrightarrow> quiet st st'"
  by (auto simp: abd_respond_def encrypt_resp_msg_def encrypt_resp_def bind_eq_Some_conv Let_def quiet_def grows_def emit_def
      dest: packet_encrypt_key)

lemma wires_simps [simp]:
  "(GetTimeStamp, GetTime) \<in> wires" "(GetValueTimeStamp, RetValue) \<in> wires" "(PutReplica, AckPutTime) \<in> wires"
  "(PutReplica, RetGetPutUpdate) \<in> wires" "(Cmd, CmdRet) \<in> wires"
  by (simp_all add: wires_def)

text \<open>All handlers and continuations but two are quiet.\<close>

lemma starts_quiet:
  "benchmark_put env ev st m = Some st' \<Longrightarrow> quiet st st'"
  "benchmark_get env ev st m = Some st' \<Longrightarrow> quiet st st'"
  "handle_put env ev st h req = Some st' \<Longrightarrow> quiet st st'"
  "handle_get env ev st h req = Some st' \<Longrightarrow> quiet st st'"
  by (auto simp: benchmark_put_def benchmark_get_def handle_put_def handle_get_def bind_eq_Some_conv Let_def case_prod_unfold
      dest!: create_ctx_node_quiet abd_send_msg_quiet
      elim!: quiet_back intro: quiet_updates)

lemma answers_quiet:
  "handle_get_time_stamp env ev st h req = Some st' \<Longrightarrow> quiet st st'"
  "handle_get_value_time_stamp env ev st h req = Some st' \<Longrightarrow> quiet st st'"
  "handle_cmd env ev st h req = Some st' \<Longrightarrow> quiet st st'"
  by (auto simp: handle_get_time_stamp_def handle_get_value_time_stamp_def handle_cmd_def bind_eq_Some_conv
      split: option.splits intro: abd_respond_quiet)

lemma handle_put_replica_grows: "handle_put_replica env ev st h req = Some st' \<Longrightarrow> grows W st st'"
  by (auto simp: handle_put_replica_def bind_eq_Some_conv Let_def intro: grows_trans [OF kv_grows] abd_respond_grows)

lemma abd_request_quiet: "abd_request env ev st rt h req = Some st' \<Longrightarrow> rt \<noteq> PutReplica \<Longrightarrow> quiet st st'"
  by (cases rt) (auto intro: starts_quiet answers_quiet)

lemma abd_request_grows: "abd_request env ev st rt h req = Some st' \<Longrightarrow> grows wires st st'"
  by (cases "rt = PutReplica") (auto intro: handle_put_replica_grows quiet_grows abd_request_quiet)

lemma cont_get_time_grows:
  assumes "cont_get_time env ev st cid = Some st'"
  shows "grows wires st st'"
proof -
  obtain st1 st2 n kv b where D: "cont_get_time_send env ev st cid = Some (st2, n)"
    "kv_put (pe_kv env) (ev_attempts ev) (ab_kv st2) n = Some (kv, b)" "st' = st2\<lparr>ab_kv := kv\<rparr>"
    using assms by (auto simp: cont_get_time_split bind_eq_Some_conv)
  obtain c put_cid key m st1 where S:
    "abd_send_msg env ev (st\<lparr>ab_ctxs := ab_ctxs st @ [c]\<rparr>) put_cid key PutReplica AckPutTime m = Some st1"
    "set_ctx_data st1 cid n = Some st2"
    using D(1) by (auto simp: cont_get_time_send_def bind_eq_Some_conv Let_def create_rep_context_def)
  have "grows wires (st\<lparr>ab_ctxs := ab_ctxs st @ [c]\<rparr>) st1" using abd_send_msg_grows [OF S(1)] by simp
  then have "grows wires st st2"
    by (rule grows_trans [OF grows_trans [OF quiet_grows [OF quiet_updates(1)]] quiet_grows [OF set_ctx_data_quiet [OF S(2)]]])
  then show ?thesis unfolding D(3) by (rule grows_trans [OF _ kv_grows])
qed

lemma cont_ret_value_quiet: "cont_ret_value env ev st cid = Some st' \<Longrightarrow> quiet st st'"
  by (auto simp: cont_ret_value_def bind_eq_Some_conv Let_def case_prod_unfold split: if_splits
      dest!: abd_send_msg_quiet intro!: quiet_back [OF quiet_emit] quiet_back [OF quiet_updates(4)]
      elim!: quiet_back intro: quiet_updates)

lemma req_conts_impl_quiet:
  "req_conts_impl env ev st call n cid = Some st' \<Longrightarrow> call \<noteq> GetTime \<Longrightarrow> quiet st st'"
  by (cases call)
    (auto intro: cont_ret_value_quiet quiet_trans [OF quiet_updates(4)] quiet_emit
      simp: cont_ack_put_time_def cont_cmd_ret_def bind_eq_Some_conv split: if_splits)

text \<open>A response changes its context, and then either that is all or the continuation runs.\<close>

lemma req_contsE:
  assumes "req_conts env ev st call cid resp = Some st'"
  obtains c where "st' = set_ctx st cid c"
  | c c' n where "ctx_at st cid = Some c" "rc_data c' = rc_data c" "req_conts_impl env ev (set_ctx st cid c') call n cid = Some st'"
proof -
  obtain c c1 where c: "ctx_at st cid = Some c" "add_to_cache c resp = Some c1"
    using assms by (auto simp: req_conts_def bind_eq_Some_conv)
  then have d: "rc_data (c1\<lparr>rc_n_resp := n, rc_done := b\<rparr>) = rc_data c" "rc_data (c1\<lparr>rc_n_resp := n\<rparr>) = rc_data c" for n b
    by (auto simp: add_to_cache_def bind_eq_Some_conv)
  show ?thesis
  proof (cases "call = CmdRet")
    case True
    with assms c have "req_conts_impl env ev (set_ctx st cid (c1\<lparr>rc_n_resp := rc_n_resp c1 + 1\<rparr>)) call (rc_n_resp c1 + 1) cid = Some st'"
      by (simp add: req_conts_def Let_def)
    then show ?thesis by (rule that(2) [OF c(1) d(2)])
  next
    case False
    with assms c show ?thesis
      by (auto simp: req_conts_def Let_def split: if_splits simp del: req_conts_impl.simps
        intro: that(1) dest: that(2) [OF c(1) d(1)])
  qed
qed

lemma req_conts_quiet: "req_conts env ev st call cid resp = Some st' \<Longrightarrow> call \<noteq> GetTime \<Longrightarrow> quiet st st'"
  by (erule req_contsE) (auto simp: quiet_updates dest: req_conts_impl_quiet intro: quiet_trans [OF quiet_updates(3)])

lemma req_conts_grows: "req_conts env ev st call cid resp = Some st' \<Longrightarrow> grows wires st st'"
proof (cases "call = GetTime")
  case True
  assume "req_conts env ev st call cid resp = Some st'"
  then show ?thesis
    using True
    by (auto elim!: req_contsE intro: quiet_grows [OF quiet_updates(3)] grows_trans [OF quiet_grows [OF quiet_updates(3)] cont_get_time_grows])
qed (simp add: quiet_grows req_conts_quiet)

lemma send_cmd_quiet: "send_cmd env ev st cmd = Some st' \<Longrightarrow> quiet st st'"
  by (auto simp: send_cmd_def bind_eq_Some_conv Let_def create_rep_context_def quiet_def grows_def set_ctx_def request_ok_def ctx_at_def
      dest!: rc_send_msg_requests)

lemma node_event_grows: "node_event env st st' \<Longrightarrow> grows wires st st'"
  by (erule node_eventE) (auto intro: abd_request_grows req_conts_grows quiet_grows starts_quiet send_cmd_quiet)

lemma cluster_run_grows: "(cluster_step env)\<^sup>*\<^sup>* s t \<Longrightarrow> grows wires (s i) (t i)"
proof (induction rule: rtranclp_induct)
  case (step t u)
  then have "grows wires (t i) (u i)" by (auto elim!: cluster_stepE dest: node_event_grows)
  with step.IH show ?case by (rule grows_trans)
qed simp

text \<open>
  C15. Nodes that have sent nothing yet run under an arbitrary network.  Whatever request a node then has sent:
  its type is one of the four between replicas, the continuation is the one written for that type, its context
  exists, and at a node that registered its functions the packet reaches the handler of the type, with the
  object of the server context as its state and no other object changed.
\<close>

theorem requests_have_handlers:
  assumes "\<forall>i. ab_out (s i) = []" "(cluster_step env)\<^sup>*\<^sup>* s t" "Enqueue_request r \<in> set (ab_out (t i))"
  shows "(rq_type r = GetTimeStamp \<and> rq_cont r = GetTime \<or> rq_type r = GetValueTimeStamp \<and> rq_cont r = RetValue \<or>
      rq_type r = PutReplica \<and> rq_cont r \<in> {AckPutTime, RetGetPutUpdate} \<or> rq_type r = Cmd \<and> rq_cont r = CmdRet) \<and>
    ctx_at (t i) (rq_ctx r) \<noteq> None \<and>
    (\<forall>abds a st tag ev h. abds a = Some st \<longrightarrow> create_svr_context abds a = Some tag \<longrightarrow>
       dispatch env ev (req_num (rq_type r)) h (rq_buf r) tag abds =
         map_option (\<lambda>st'. abds(a \<mapsto> st')) (abd_request env ev st (rq_type r) h (rq_buf r)))"
proof -
  have "grows wires (s i) (t i)" by (rule cluster_run_grows [OF assms(2)])
  then have "request_ok (length (ab_ctxs (t i))) r" using assms(1,3) by (auto simp: grows_def)
  then have w: "(rq_type r, rq_cont r) \<in> wires" and c: "rq_ctx r < length (ab_ctxs (t i))"
    by (simp_all add: request_ok_def)
  have "rq_type r \<noteq> EndReq" using w by (auto simp: wires_def)
  then show ?thesis using w c by (auto simp: wires_def ctx_at_def dispatch_handler)
qed

theorem requests_have_handlers_witness:
  "\<exists>t r. cluster_step demo_penv (\<lambda>_. demo_abd) t \<and> Enqueue_request r \<in> set (ab_out (t 0)) \<and> rq_type r = GetTimeStamp \<and>
    rq_cont r = GetTime \<and> ctx_at (t 0) (rq_ctx r) \<noteq> None"
proof -
  have rd: "[1] \<noteq> ([] :: bytes)" "length ([9] :: bytes) \<le> 32" "length ([1] :: bytes) + length ([9] :: bytes) + 44 < 2 ^ 64"
    "ab_replicas demo_abd \<noteq> []" "key_group demo_abd [1] \<noteq> []" by simp_all
  obtain st' n c where st: "benchmark_put demo_penv demo_event demo_abd (encoded [1] [9] []) = Some st'"
    "sends demo_penv (with_ctx (increment_traces demo_abd) None n) c (length (ab_ctxs demo_abd)) (key_group demo_abd [1])
      GetTimeStamp GetTime [1] [] st'"
    using benchmark_put_spec [OF demo_penv_ok demo_abd_inv(2) demo_event_ok(1) rd] by metis
  then obtain r where r: "Enqueue_request r \<in> set (ab_out st')" "rq_type r = GetTimeStamp"
    using rd(5) by (fastforce simp: sends_def)
  let ?t = "(\<lambda>_. demo_abd)(0 := st')"
  have step: "cluster_step demo_penv (\<lambda>_. demo_abd) ?t"
    by (intro cluster_step.at_node node_event.start_put [OF demo_event_ok(1) st(1)])
  have none: "\<forall>i :: nat. ab_out demo_abd = []" by (simp add: demo_abd_def abd_new_def)
  show ?thesis
    using requests_have_handlers [OF none r_into_rtranclp [where r = "cluster_step demo_penv", OF step], of r 0] step r
    by (intro exI [of _ ?t] exI [of _ r]) auto
qed

end
