(* ===== verification/Test_Programs.thy ===== *)
theory Test_Programs
  imports Ordered_List Packet Traces Samples
begin

text \<open>
  The repository's own tests of the packet cipher and of the memtable, as programs on the model:
  \<open>src/tests/package_test.cpp\<close> and \<open>src/tests/memtable_test.cpp\<close>.  Uninitialised memory of \<open>n\<close> bytes is the argument
  \<open>raw n\<close>.

  Shown here: the packet test passes its assertions and prints its message; the threads of the memtable test
  divide all commands among them, and every read finds the test value exactly if a write of its key came
  before.  The memtable test itself reads one byte behind its key, which has 15 bytes.
\<close>

section \<open>The packet test\<close>

definition c_bytes :: "string \<Rightarrow> bytes" where
  "c_bytes s = map (\<lambda>c. of_nat (of_char c)) s @ [0]"

definition test_key :: bytes where
  "test_key = [0, 1, 2, 3, 4, 5, 6, 7, 8, 9, 10, 11, 12, 13, 14, 15]"

definition test_msg :: bytes where
  "test_msg = c_bytes ''Hello World! How are you?''"

definition package_test :: "evp \<Rightarrow> iv_garbage \<Rightarrow> (nat \<Rightarrow> bytes) \<Rightarrow> (bytes \<times> string) option" where
  "package_test e g raw = do {
     cipher \<leftarrow> packet_create test_key test_key (raw 4);
     let buf_size = get_buffer_size (size_of test_msg);
     let buf = raw (unat buf_size);
     (ok, cipher, buf) \<leftarrow> packet_encrypt e cipher g buf test_msg (size_of test_msg);
     _ \<leftarrow> assert_that ok;
     n \<leftarrow> get_message_size buf_size;
     (ok, de_msg) \<leftarrow> packet_decrypt e cipher (raw (unat n)) buf buf_size;
     _ \<leftarrow> assert_that ok;
     out \<leftarrow> c_string de_msg;
     Some (buf, out)
   }"

lemma test_msg_props: "length test_msg = 26" "c_string test_msg = Some ''Hello World! How are you?''"
  by code_simp+

lemma package_test_passes:
  assumes "evp_ok e" "ig_ok g" "\<And>n. length (raw n) = n"
  shows "\<exists>buf. package_test e g raw = Some (buf, ''Hello World! How are you?'')"
proof -
  let ?ki = "\<lparr>ki_key = test_key, ki_iv = take 12 test_key @ raw 4\<rparr>"
  have new: "packet_create test_key test_key (raw 4) = Some ?ki" by (simp add: packet_create_def key_iv_new_def mem_read_def test_key_def)
  have wf: "key_iv_wf ?ki" using assms(3) by (simp add: key_iv_wf_def test_key_def)
  have buf: "length test_msg + 28 < 2 ^ 64" "length (raw 54) = 28 + length test_msg + length ([] :: bytes)"
    "drop (28 + length test_msg) (raw 54) = []" using assms(3) by (simp_all add: test_msg_props)
  obtain ki' buf where r: "packet_encrypt e ?ki g (raw 54) (test_msg @ []) (size_of test_msg) = Some (True, ki', buf)"
    "key_iv_wf ki'" "ki_key ki' = ki_key ?ki" "sealed e (ki_key ?ki) test_msg buf []"
    by (rule packet_encrypt_sealed [OF assms(1) wf assms(2) buf])
  have "packet_decrypt e ki' (raw 26) buf (of_nat (28 + length test_msg)) = Some (True, test_msg @ drop (length test_msg) (raw 26))"
    using r(2-4) assms(1,3) by (intro packet_decrypt_sealed) (simp_all add: key_iv_wf_def test_msg_props)
  moreover have "get_message_size (get_buffer_size (size_of test_msg)) = Some (size_of test_msg)"
    by (intro message_size_of_buffer) (simp_all add: test_msg_props)
  moreover have sz: "get_buffer_size (size_of test_msg) = 54"
    by (simp add: test_msg_props get_buffer_size_def MetaDataSize_def)
  ultimately show ?thesis
    using new r(1) assms(3) by (simp add: package_test_def Let_def test_msg_props)
qed

section \<open>The memtable test\<close>

definition kNumThreads :: nat where
  "kNumThreads = 8"

definition kValueSize :: u64 where
  "kValueSize = 16"

definition kValue :: bytes where
  "kValue = c_bytes ''generateFormula''"

definition memtable_test_key :: bytes where
  "memtable_test_key = [0x1,0x2,0x3,0x4,0x5,0x6,0x7,0x8,0x9,0xa,0xb,0xc,0xd,0xe,0xf]"

lemma memtable_test_key_short: "cipher_new memtable_test_key memtable_test_key = None"
  by (simp add: cipher_new_def mem_read_def memtable_test_key_def)

text \<open>The part of the trace of each thread.\<close>

definition memtable_threads :: "trace_cmd list \<Rightarrow> trace_cmd list list" where
  "memtable_threads trace =
     (let step_size = 1000 div kNumThreads
      in map (\<lambda>i. take step_size (drop (i * step_size) trace)) [0..<kNumThreads])"

lemma concat_parts: "concat (map (\<lambda>i. take n (drop (i * n) xs)) [0..<k]) = take (k * n) xs"
  proof (induction k)
  case (Suc k)
  have "take (k * n + n) xs = take (k * n) xs @ take n (drop (k * n) xs)" by (rule take_add)
  with Suc show ?case by (simp add: add.commute)
qed simp

lemma memtable_threads_all: "length trace = 1000 \<Longrightarrow> concat (memtable_threads trace) = trace"
  by (simp add: memtable_threads_def kNumThreads_def concat_parts)

text \<open>A thread; the results are what it prints.\<close>

fun thread_func ::
  "('s, 'p) kv_env \<Rightarrow> lamport \<Rightarrow> 's kv_store \<Rightarrow> trace_cmd list \<Rightarrow> ('s kv_store \<times> ret_value list) option" where
  "thread_func env clock st [] = Some (st, [])"
| "thread_func env clock st (c # cs) =
     (case tc_op c of
        Trace_Put \<Rightarrow> do {
          (st, ok) \<leftarrow> kv_put_value env [] st 8 (tc_key_hash c) kValueSize (Some kValue) clock;
          thread_func env clock st cs
        }
      | Trace_Get \<Rightarrow> do {
          ret \<leftarrow> kv_get_key env st 8 (tc_key_hash c);
          (st, rs) \<leftarrow> thread_func env clock st cs;
          Some (st, ret # rs)
        })"

text \<open>What the reads of a sequence of commands should see, after writes of the keys in \<open>seen\<close>.\<close>

fun expected_reads :: "lamport \<Rightarrow> bytes set \<Rightarrow> trace_cmd list \<Rightarrow> ret_value list" where
  "expected_reads clock seen [] = []"
| "expected_reads clock seen (c # cs) =
     (case tc_op c of
        Trace_Put \<Rightarrow> expected_reads clock (insert (tc_key_hash c) seen) cs
      | Trace_Get \<Rightarrow>
          (if tc_key_hash c \<in> seen then \<lparr>rv_lamport = clock, rv_size = kValueSize, rv_value = Some kValue\<rparr>
           else \<lparr>rv_lamport = lamport_min, rv_size = 0, rv_value = None\<rparr>) # expected_reads clock seen cs)"

lemma kValue_size: "length kValue = 16"
  by code_simp

text \<open>The commands of all threads in any interleaving \<open>cs\<close>, one command at a time.\<close>

lemma memtable_test_reads:
  assumes "env_ok env cap" "16 \<le> cap" "kv_wf env st" "\<forall>c \<in> set cs. length (tc_key_hash c) = 8"
    and "kv_look env st = (\<lambda>k. if k \<in> seen then Some (clock, kValue) else None)"
  shows "\<exists>st'. thread_func env clock st cs = Some (st', expected_reads clock seen cs) \<and> kv_wf env st'"
  using assms(3-5)
proof (induction cs arbitrary: st seen)
  case (Cons c cs)
  let ?k = "tc_key_hash c"
  have k: "(8 :: u64) = size_of ?k" "length ?k < 2 ^ 64" using Cons.prems(2) by simp_all
  have v: "kValueSize = size_of kValue" "length kValue \<le> cap" using assms(2) by (simp_all add: kValue_size kValueSize_def)
  show ?case
  proof (cases "tc_op c")
    case Trace_Put
    obtain st' where st': "kv_put_value env [] st (size_of ?k) (?k @ []) (size_of kValue) (Some (kValue @ [])) clock =
        Some (st', kv_look env st ?k = None \<or> old_clock (kv_look env st ?k) < clock)" "kv_wf env st'"
      "kv_look env st' = (kv_look env st)(?k \<mapsto> newer (kv_look env st ?k) (clock, kValue))"
      using kv_put_value_spec [OF assms(1) Cons.prems(1) k(2) v(2), of "Some (kValue @ [])" "[]" "[]" clock] by auto
    have keys: "\<forall>c \<in> set cs. length (tc_key_hash c) = 8" using Cons.prems(2) by simp
    have "kv_look env st' = (\<lambda>k. if k \<in> insert ?k seen then Some (clock, kValue) else None)"
      by (auto simp: st'(3) Cons.prems(3) fun_eq_iff)
    from Cons.IH [OF st'(2) keys this]
    obtain st'' where "thread_func env clock st' cs = Some (st'', expected_reads clock (insert ?k seen) cs)" "kv_wf env st''"
      by blast
    then show ?thesis using st'(1) Trace_Put by (simp add: k(1) v(1) del: of_nat_add)
  next
    case Trace_Get
    obtain st' where "thread_func env clock st cs = Some (st', expected_reads clock seen cs)" "kv_wf env st'"
      using Cons.IH [OF Cons.prems(1) _ Cons.prems(3)] Cons.prems(2) by auto
    then show ?thesis
      using kv_get_key_spec [OF assms(1) Cons.prems(1) k(2), of "[]"] Trace_Get Cons.prems(3) by (simp add: k(1) v(1))
  qed
qed simp

end
