(* ===== verification/Unique_Writes.thy ===== *)
theory Unique_Writes
  imports Dispatch End_To_End
begin

text \<open>
  What a clock tells about a value.  A cluster of nodes with different machine ids runs under a network that may
  lose, repeat, reorder and forge anything but replicated writes: those it delivers were sent as such by some
  node.  As long as no counter wraps around and gets write back only what the own store has, all entries and all writes on their
  way with the same key and clock have the same value, and the clock is one that the node of its machine
  id has taken for this key (the invariant \<open>writes_inv\<close>).

  Both restrictions on the network are needed: \<open>read_spoils_replica\<close> of \<open>End_To_End\<close> is a write-back that breaks the claim, and
  the last section shows that the request of a get, delivered as a replicated write, makes the replica store
  a pair of clock and value that the client chose.
\<close>

section \<open>Packets and messages determine each other\<close>

lemma carries_unique:
  assumes "evp_ok e" "key_iv_wf ki" "carries e ki r m" "carries e ki r m'"
  shows "m = m'"
proof -
  have "length m = length m'" using assms(3,4) by (simp add: carries_def)
  then show ?thesis
    using packet_decrypt_carries [OF assms(1-3), of "replicate (length m) 0"]
      packet_decrypt_carries [OF assms(1,2,4), of "replicate (length m) 0"] by simp
qed

lemma encoded_inject:
  assumes "encoded k v [] = encoded k' v' []" "fits k v" "fits k' v'"
  shows "k = k' \<and> v = v'"
proof -
  have "get_key_size (encoded k v []) = get_key_size (encoded k' v' [])" using assms(1) by (rule arg_cong)
  then have "Some (size_of k) = Some (size_of k')"
    unfolding read_key_size_encoded [OF assms(2)] read_key_size_encoded [OF assms(3)] .
  then have "unat (size_of k) = unat (size_of k')" by (rule arg_cong [OF option.inject [THEN iffD1]])
  moreover have "unat (size_of k) = length k" by (rule unat_size_of) (use assms(2) in simp)
  moreover have "unat (size_of k') = length k'" by (rule unat_size_of) (use assms(3) in simp)
  ultimately have "length k = length k'" by (simp only:)
  moreover have "drop 16 (encoded k v []) = drop 16 (encoded k' v' [])" using assms(1) by (rule arg_cong)
  ultimately show ?thesis by (simp add: drop_header_encoded)
qed

lemma packet_of_unique:
  assumes "penv_ok env cap" "abd_wf env st" "packet_of env st r k v" "packet_of env st r k' v'"
  shows "k = k' \<and> v = v'"
  using carries_unique [OF penv_okD(3) [OF assms(1)] _ assms(3,4)] assms(2) carries_fits [OF assms(3)] carries_fits [OF assms(4)]
  by (intro encoded_inject) (simp_all add: abd_wf_def)

lemma key_clock_inject: "k @ lamport_bytes c = k' @ lamport_bytes c' \<longleftrightarrow> k = k' \<and> c = c'"
  by (auto simp: append_eq_append_conv) (metis lamport_bytes_roundtrip)

section \<open>The step that takes a clock\<close>

lemma reduce_loop_mono:
  fixes x y :: "'a :: order"
  assumes "\<And>x m y. f x m = Some y \<Longrightarrow> x \<le> y"
  shows "reduce_loop e ki f x m cs = Some y \<Longrightarrow> x \<le> y"
  using assms by (induction cs arbitrary: x m) (force simp: bind_eq_Some_conv intro: order_trans)+

lemma max_count_ge: "max_count n m = Some n' \<Longrightarrow> n \<le> n'"
  by (auto simp: max_count_def bind_eq_Some_conv Let_def split: if_splits)

lemma reduce_max_count_ge: "reduce_resp e ki c max_count n = Some n' \<Longrightarrow> n \<le> n'"
  unfolding reduce_resp_def by (rule reduce_loop_mono [OF max_count_ge])

text \<open>A message of a bounded size that was sent is in every new request.\<close>

lemma get_idx_empty: "get_idx st \<lparr>span_size = 0, span_buf = Some []\<rparr> = None"
  by (simp add: get_idx_def get_idx_at_def mem_read_def)

lemma abd_send_msg_requests:
  assumes ok: "penv_ok env cap" "abd_wf env st" "ev_ok env ev"
    and ctx: "ctx_at st cid = Some c" and fit: "length key < 2 ^ 64" "length k + length v + 44 < 2 ^ 64"
    and send: "abd_send_msg env ev st cid \<lparr>span_size = size_of key, span_buf = Some key\<rparr> rt cont (encoded k v []) = Some st'"
    and r: "Enqueue_request r \<in> set (ab_out st')"
  shows "Enqueue_request r \<in> set (ab_out st) \<or> rq_type r = rt \<and> packet_of env st (rq_buf r) k v"
proof -
  have key: "key \<noteq> []" using send by (cases key) (auto simp: abd_send_msg_def get_idx_empty)
  have reps: "ab_replicas st \<noteq> []"
    using send by (auto simp: abd_send_msg_def get_idx_def get_idx_at_def bind_eq_Some_conv Let_def split: if_splits)
  show ?thesis
  proof (cases "key_group st key = []")
    case True
    then have "st' = emit Skip_ret (decrement_traces st)"
      using send abd_send_msg_skip [OF key fit(1) reps True, where rest = "[]" and env = env and ev = ev] by simp
    then show ?thesis using r by simp
  next
    case False
    obtain st1 where "abd_send_msg env ev st cid \<lparr>span_size = size_of key, span_buf = Some (key @ [])\<rparr> rt cont (encoded k v []) = Some st1"
      "sends env st c cid (key_group st key) rt cont k v st1"
      by (rule abd_send_msg_spec [OF ok key fit(1) reps False ctx fit(2)]) (rule that)
    then show ?thesis using send r by (auto simp: sends_def)
  qed
qed

text \<open>The message of a pending write fits the address space.\<close>

definition pending_fits :: "replica_context \<Rightarrow> bool" where
  "pending_fits c \<longleftrightarrow> (\<forall>m. nd_meta (rc_data c) = Some m \<longrightarrow>
     length (nd_key (rc_data c)) + unat (md_data_size m) + 52 < 2 ^ 64)"

text \<open>
  Whatever the responses are, the continuation makes one write: to the local store and in the requests, with a
  clock of this node that is above the one in the store or has wrapped around to zero.
\<close>

lemma cont_get_time_send_write:
  assumes ok: "penv_ok env cap" "abd_inv env st" "ev_ok env ev"
    and ctx: "ctx_at st cid = Some c" "pending_fits c"
    and run: "cont_get_time_send env ev st cid = Some (st2, n)"
  obtains k v clock m where "n = \<lparr>nd_key = k, nd_meta = Some m\<rparr>" "meta_value (pe_kv env) m = Some v" "meta_ok (pe_kv env) m"
    "md_clock m = clock" "get_machine_id clock = ab_m_id st" "get_count (clock_of env st k) < get_count clock \<or> get_count clock = 0"
    "ab_kv st2 = ab_kv st"
    "\<And>r. Enqueue_request r \<in> set (ab_out st2) \<Longrightarrow> Enqueue_request r \<in> set (ab_out st) \<or>
       rq_type r = PutReplica \<and> packet_of env st (rq_buf r) (k @ lamport_bytes clock) v"
proof -
  let ?st = "fst (create_rep_context st (rc_handle c))" and ?cid = "length (ab_ctxs st)"
  define k where "k = nd_key (rc_data c)"
  have wf: "abd_wf env st" "abd_wf env ?st" using ok(2) by (simp_all add: abd_inv_def abd_wf_def)
  obtain m mx res local_resp b1 b2 b3 b4 st1 where D: "nd_meta (rc_data c) = Some m"
    "kv_get (pe_kv env) (ab_kv st) (rc_data c) = Some local_resp"
    "reduce_resp (pe_evp env) (ab_cipher st) c max_count (get_count (rv_lamport local_resp)) = Some mx"
    "decrypt_node (pe_kv env) (rc_data c) = Some res"
    "builder_new (add_meta_size (size_of k) + md_data_size m) = Some b1" "add_key 1 b1 k (size_of k) = Some b2"
    "add_key 8 b2 (lamport_bytes (Lamport (mx + 1) (ab_m_id st))) 1 = Some b3"
    "add_value 1 b3 (deref (rv_value res)) (rv_size res) = Some b4"
    "abd_send_msg env ev ?st ?cid \<lparr>span_size = size_of k, span_buf = Some k\<rparr> PutReplica AckPutTime b4 = Some st1"
    "set_ctx_data st1 cid ((rc_data c)\<lparr>nd_meta := Some (m\<lparr>md_clock := Lamport (mx + 1) (ab_m_id st)\<rparr>)\<rparr>) = Some st2"
    "n = (rc_data c)\<lparr>nd_meta := Some (m\<lparr>md_clock := Lamport (mx + 1) (ab_m_id st)\<rparr>)\<rparr>"
    using run ctx(1)
    by (auto simp: cont_get_time_send_def bind_eq_Some_conv Let_def create_rep_context_def node_span_def builder_finish_def k_def)
  have m: "meta_ok (pe_kv env) m" by (rule ctx_at_meta_ok [OF ok(2) ctx(1) D(1)])
  then obtain v where v: "meta_value (pe_kv env) m = Some v" "length v = unat (md_data_size m)" by (auto simp: meta_ok_def)
  have size: "md_data_size m = size_of v" using v(2) by simp
  have fit: "length k + length v + 52 < 2 ^ 64" using ctx(2) D(1) v(2) by (simp add: pending_fits_def k_def)
  define clock where "clock = Lamport (mx + 1) (ab_m_id st)"
  have res: "res = \<lparr>rv_lamport = md_clock m, rv_size = size_of v, rv_value = Some v\<rparr>"
    using D(4) decrypt_node_ok [OF D(1) v(1)] size by simp
  have b4: "b4 = encoded (k @ lamport_bytes clock) v []"
    using D(5-8) build_key_clock_value [of k v "[]" clock "[]"] fit size by (simp add: res deref_def clock_def)
  obtain res' where "kv_get (pe_kv env) (ab_kv st) (rc_data c) = Some res'" "rv_lamport res' = clock_of env st k"
    by (rule kv_get_ret_span [OF ok(1) wf(1), of "rc_data c"]) (auto simp: clock_of_def k_def intro: that)
  then have mx: "get_count (clock_of env st k) \<le> mx" using D(2,3) reduce_max_count_ge by fastforce
  have count: "get_count (clock_of env st k) < get_count clock \<or> get_count clock = 0"
  proof (cases "mx = - 1")
    case False
    then show ?thesis using u32_suc_greater [OF le_neq_trans [OF word_n1_ge] mx] by (simp add: clock_def)
  qed (simp add: clock_def)
  have len: "length k < 2 ^ 64" "length (k @ lamport_bytes clock) + length v + 44 < 2 ^ 64" using fit by simp_all
  note reqs = abd_send_msg_requests [OF ok(1) wf(2) ok(3) ctx_at_new len D(9) [unfolded b4]]
  have st2: "ab_kv st2 = ab_kv st" "ab_out st2 = ab_out st1"
    using D(10) abd_send_msg_kv [OF D(9)] by (auto simp: set_ctx_data_def)
  show ?thesis
  proof (rule that)
    show "n = \<lparr>nd_key = k, nd_meta = Some (m\<lparr>md_clock := clock\<rparr>)\<rparr>" using D(11) by (simp add: k_def clock_def)
    show "meta_value (pe_kv env) (m\<lparr>md_clock := clock\<rparr>) = Some v" "meta_ok (pe_kv env) (m\<lparr>md_clock := clock\<rparr>)"
      using v(1) m by (simp_all add: meta_value_def meta_ok_def)
    show "Enqueue_request r \<in> set (ab_out st2) \<Longrightarrow> Enqueue_request r \<in> set (ab_out st) \<or>
       rq_type r = PutReplica \<and> packet_of env st (rq_buf r) (k @ lamport_bytes clock) v" for r
      using reqs [of r] st2(2) by simp
  qed (use count st2 in \<open>simp_all add: clock_def\<close>)
qed

lemma cont_get_time_write:
  assumes ok: "penv_ok env cap" "abd_inv env st" "ev_ok env ev" "ev_attempts ev = []"
    and ctx: "ctx_at st cid = Some c" "pending_fits c" and run: "cont_get_time env ev st cid = Some st'"
  obtains k v clock where "get_machine_id clock = ab_m_id st"
    "get_count (clock_of env st k) < get_count clock \<or> get_count clock = 0"
    "look env st' = (look env st)(k \<mapsto> newer (look env st k) (clock, v))"
    "\<And>r. Enqueue_request r \<in> set (ab_out st') \<Longrightarrow> Enqueue_request r \<in> set (ab_out st) \<or>
       rq_type r = PutReplica \<and> packet_of env st (rq_buf r) (k @ lamport_bytes clock) v"
proof -
  obtain st2 n kv b where D: "cont_get_time_send env ev st cid = Some (st2, n)"
    "kv_put (pe_kv env) [] (ab_kv st2) n = Some (kv, b)" "st' = st2\<lparr>ab_kv := kv\<rparr>"
    using run ok(4) by (auto simp: cont_get_time_split bind_eq_Some_conv)
  obtain k v clock m where W: "n = \<lparr>nd_key = k, nd_meta = Some m\<rparr>" "meta_value (pe_kv env) m = Some v" "meta_ok (pe_kv env) m"
    "md_clock m = clock" "get_machine_id clock = ab_m_id st" "get_count (clock_of env st k) < get_count clock \<or> get_count clock = 0"
    "ab_kv st2 = ab_kv st"
    "\<And>r. Enqueue_request r \<in> set (ab_out st2) \<Longrightarrow> Enqueue_request r \<in> set (ab_out st) \<or>
       rq_type r = PutReplica \<and> packet_of env st (rq_buf r) (k @ lamport_bytes clock) v"
    by (rule cont_get_time_send_write [OF ok(1-3) ctx D(1)]) (rule that)
  have "kv_wf (pe_kv env) (ab_kv st)" using ok(2) by (simp add: abd_inv_def abd_wf_def)
  then obtain kv' b' where "kv_put (pe_kv env) [] (ab_kv st) n = Some (kv', b')"
    "kv_look (pe_kv env) kv' = (look env st)(k \<mapsto> newer (look env st k) (clock, v))"
    unfolding W(1) W(4) [symmetric] by (elim kv_put_alone [OF penv_okD(1) [OF ok(1)] _ W(2,3), of "ab_kv st" k]) (auto intro: that)
  then show ?thesis using D(2,3) W(5-8) by (intro that [of clock k v]) simp_all
qed

text \<open>A value that does not fit the slab element ends a replicated put.\<close>

lemma handle_put_replica_too_large:
  assumes "penv_ok env cap" "abd_wf env st" "packet_of env st req (k @ lamport_bytes c) v" "cap < length v"
  shows "handle_put_replica env ev st h req = None"
proof -
  have fit: "length k + length v + 52 < 2 ^ 64" using carries_fits [OF assms(3)] by simp
  have v: "v \<noteq> []" "length v < 2 ^ 64" using assms(4) fit by auto
  have "get_lamport (size_of (k @ lamport_bytes c)) (Some (k @ lamport_bytes c @ v)) = Some c"
    using fit by (intro get_lamport_appended) simp_all
  moreover have "meta_new (pe_kv env) (kv_next (ab_kv st)) (size_of v) (Some v) c = None"
    using meta_new_too_large [OF penv_okD(1) [OF assms(1)] assms(4) v(2), of _ "[]" c] by simp
  ultimately show ?thesis
    using v carries_fits [OF assms(3)]
    by (auto simp: handle_put_replica_def get_data_carries [OF assms(1-3)] mem_simps kv_put_value_def create_node_def
        bind_eq_Some_conv simp del: length_append)
qed

lemma handle_put_replica_write:
  assumes ok: "penv_ok env cap" "abd_wf env st" "ev_ok env ev" "ev_attempts ev = []"
    and req: "packet_of env st req (k @ lamport_bytes c) v" and run: "handle_put_replica env ev st h req = Some st'"
  shows "look env st' = (look env st)(k \<mapsto> newer (look env st k) (c, v))"
proof -
  have "length v \<le> cap" using handle_put_replica_too_large [OF ok(1,2) req] run by fastforce
  then obtain kv st1 where "handle_put_replica env ev st h req = Some st1" "answers env (st\<lparr>ab_kv := kv\<rparr>) (Some h) [65] [] st1"
    "kv_look (pe_kv env) kv = (look env st)(k \<mapsto> newer (look env st k) (c, v))"
    by (rule handle_put_replica_spec [OF ok(1-3) req _ ok(4)]) (rule that)
  then show ?thesis using run answersD(2) by fastforce
qed

section \<open>The cluster\<close>

text \<open>An entry of a store, or a replicated write that was sent.\<close>

definition written :: "('s, 'p) penv \<Rightarrow> (nat \<Rightarrow> 's abd) \<Rightarrow> bytes \<Rightarrow> lamport \<Rightarrow> bytes \<Rightarrow> bool" where
  "written env s k c v \<longleftrightarrow> (\<exists>i. look env (s i) k = Some (c, v) \<or>
     (\<exists>r. Enqueue_request r \<in> set (ab_out (s i)) \<and> rq_type r = PutReplica \<and> packet_of env (s i) (rq_buf r) (k @ lamport_bytes c) v))"

text \<open>No counter has wrapped around, and the messages of pending writes fit.\<close>

definition regular :: "('s, 'p) penv \<Rightarrow> (nat \<Rightarrow> 's abd) \<Rightarrow> bool" where
  "regular env s \<longleftrightarrow> (\<forall>k c v. written env s k c v \<longrightarrow> get_count c \<noteq> 0) \<and> (\<forall>i. \<forall>c \<in> set (ab_ctxs (s i)). pending_fits c)"

text \<open>The write-backs a step sends have the entry of the own store, as for a get that finds no newer clock.\<close>

definition local_write_backs :: "('s, 'p) penv \<Rightarrow> (nat \<Rightarrow> 's abd) \<Rightarrow> (nat \<Rightarrow> 's abd) \<Rightarrow> bool" where
  "local_write_backs env s t \<longleftrightarrow> (\<forall>i r. Enqueue_request r \<in> set (ab_out (t i)) - set (ab_out (s i)) \<longrightarrow> rq_cont r = RetGetPutUpdate \<longrightarrow>
     (\<exists>k c v. look env (s i) k = Some (c, v) \<and> packet_of env (s i) (rq_buf r) (k @ lamport_bytes c) v))"

text \<open>
  An event at one of the nodes \<open>N\<close>: as \<open>node_event\<close>, but a replicated write that arrives was sent, by any node at any
  time before.
\<close>

inductive sealed_step :: "('s, 'p) penv \<Rightarrow> nat set \<Rightarrow> (nat \<Rightarrow> 's abd) \<Rightarrow> (nat \<Rightarrow> 's abd) \<Rightarrow> bool" for env N where
  replica: "i \<in> N \<Longrightarrow> ev_ok env ev \<Longrightarrow> ev_attempts ev = [] \<Longrightarrow> Enqueue_request r \<in> set (ab_out (s j)) \<Longrightarrow> rq_type r = PutReplica \<Longrightarrow>
    abd_request env ev (s i) PutReplica h (rq_buf r) = Some st \<Longrightarrow> sealed_step env N s (s(i := st))"
| request: "i \<in> N \<Longrightarrow> ev_ok env ev \<Longrightarrow> ev_attempts ev = [] \<Longrightarrow> rt \<noteq> PutReplica \<Longrightarrow>
    abd_request env ev (s i) rt h req = Some st \<Longrightarrow> sealed_step env N s (s(i := st))"
| response: "i \<in> N \<Longrightarrow> ev_ok env ev \<Longrightarrow> ev_attempts ev = [] \<Longrightarrow>
    req_conts env ev (s i) call cid resp = Some st \<Longrightarrow> sealed_step env N s (s(i := st))"
| start_put: "i \<in> N \<Longrightarrow> ev_ok env ev \<Longrightarrow> benchmark_put env ev (s i) m = Some st \<Longrightarrow> sealed_step env N s (s(i := st))"
| start_get: "i \<in> N \<Longrightarrow> ev_ok env ev \<Longrightarrow> benchmark_get env ev (s i) m = Some st \<Longrightarrow> sealed_step env N s (s(i := st))"
| command: "i \<in> N \<Longrightarrow> ev_ok env ev \<Longrightarrow> send_cmd env ev (s i) cmd = Some st \<Longrightarrow> sealed_step env N s (s(i := st))"

definition regular_step :: "('s, 'p) penv \<Rightarrow> nat set \<Rightarrow> (nat \<Rightarrow> 's abd) \<Rightarrow> (nat \<Rightarrow> 's abd) \<Rightarrow> bool" where
  "regular_step env N s t \<longleftrightarrow> sealed_step env N s t \<and> regular env t \<and> local_write_backs env s t"

text \<open>
  Every sealed step is a step of the cluster, and is quiet, the delivery of a replicated write, or takes
  a clock.
\<close>

lemma sealed_step_cases:
  assumes "sealed_step env N s t"
  obtains (quiet) i st where "i \<in> N" "t = s(i := st)" "node_event env (s i) st" "quiet (s i) st"
  | (deliver) i st ev j r h where "i \<in> N" "t = s(i := st)" "node_event env (s i) st" "ev_ok env ev" "ev_attempts ev = []"
      "Enqueue_request r \<in> set (ab_out (s j))" "rq_type r = PutReplica" "handle_put_replica env ev (s i) h (rq_buf r) = Some st"
  | (take) i st ev cid c c' where "i \<in> N" "t = s(i := st)" "node_event env (s i) st" "ev_ok env ev" "ev_attempts ev = []"
      "ctx_at (s i) cid = Some c" "rc_data c' = rc_data c" "cont_get_time env ev (set_ctx (s i) cid c') cid = Some st"
  using assms
proof (cases rule: sealed_step.cases)
  case (replica i ev r j h st)
  then show ?thesis by (intro deliver [OF replica(2,1) node_event.request [OF replica(3,4,7)] replica(3-6)]) simp
next
  case (request i ev rt h req st)
  then show ?thesis by (intro quiet [of i st]) (auto intro: node_event.request abd_request_quiet)
next
  case (response i ev call cid resp st)
  have ev: "node_event env (s i) st" using response by (intro node_event.response)
  show ?thesis
  proof (cases "call = GetTime")
    case True
    from response(5) show ?thesis
    proof (cases rule: req_contsE)
      case (1 c)
      then show ?thesis using response ev by (intro quiet [of i st]) (auto simp: quiet_updates)
    next
      case (2 c c' n)
      then show ?thesis using response ev True by (intro take [of i st ev cid c c']) auto
    qed
  next
    case False
    show ?thesis by (rule quiet [OF response(2,1) ev req_conts_quiet [OF response(5) False]])
  qed
next
  case (start_put i ev m st)
  then show ?thesis by (intro quiet [of i st]) (auto intro: node_event.start_put starts_quiet)
next
  case (start_get i ev m st)
  then show ?thesis by (intro quiet [of i st]) (auto intro: node_event.start_get starts_quiet)
next
  case (command i ev cmd st)
  then show ?thesis by (intro quiet [of i st]) (auto intro: node_event.command send_cmd_quiet)
qed

text \<open>
  The invariant: every write has a clock that the node of its machine id has reached for the key, and no
  two writes of a key share a clock.
\<close>

definition writes_inv :: "('s, 'p) penv \<Rightarrow> nat set \<Rightarrow> (nat \<Rightarrow> 's abd) \<Rightarrow> bool" where
  "writes_inv env N s \<longleftrightarrow> (\<forall>i. abd_inv env (s i)) \<and> (\<forall>i j. same_key (s i) (s j)) \<and> inj_on (\<lambda>i. ab_m_id (s i)) N \<and> regular env s \<and>
     (\<forall>i r. Enqueue_request r \<in> set (ab_out (s i)) \<longrightarrow> rq_type r = PutReplica \<longrightarrow>
        (\<exists>k c v. packet_of env (s i) (rq_buf r) (k @ lamport_bytes c) v)) \<and>
     (\<forall>k c v. written env s k c v \<longrightarrow> (\<exists>i \<in> N. get_machine_id c = ab_m_id (s i) \<and> c \<le> clock_of env (s i) k)) \<and>
     (\<forall>k c v w. written env s k c v \<longrightarrow> written env s k c w \<longrightarrow> v = w)"

lemma writes_invD:
  assumes "writes_inv env N s"
  shows "abd_inv env (s i)" "abd_wf env (s i)" "same_key (s i) (s j)" "inj_on (\<lambda>i. ab_m_id (s i)) N" "regular env s"
    "Enqueue_request r \<in> set (ab_out (s i)) \<Longrightarrow> rq_type r = PutReplica \<Longrightarrow> \<exists>k c v. packet_of env (s i) (rq_buf r) (k @ lamport_bytes c) v"
    "written env s k c v \<Longrightarrow> \<exists>i \<in> N. get_machine_id c = ab_m_id (s i) \<and> c \<le> clock_of env (s i) k"
    "written env s k c v \<Longrightarrow> written env s k c w \<Longrightarrow> v = w"
  using assms unfolding writes_inv_def by (blast | simp add: abd_inv_def)+

lemma look_written: "look env (s i) k = Some (c, v) \<Longrightarrow> written env s k c v"
  by (auto simp: written_def)

text \<open>A step at node \<open>i\<close> whose new writes are \<open>E\<close>: at most one, with a clock the node has just taken.\<close>

lemma writes_inv_step:
  assumes ok: "penv_ok env cap" and inv: "writes_inv env N s" and reg: "regular env (s(i := st))" and i: "i \<in> N"
    and keeps: "keeps env (s i) st" and grows: "grows wires (s i) st"
    and new: "\<And>k c v. look env st k = Some (c, v) \<Longrightarrow> written env s k c v \<or> (k, c, v) \<in> E"
    and sent: "\<And>r. Enqueue_request r \<in> set (ab_out st) \<Longrightarrow> rq_type r = PutReplica \<Longrightarrow> Enqueue_request r \<in> set (ab_out (s i)) \<or>
       (\<exists>k c v. packet_of env (s i) (rq_buf r) (k @ lamport_bytes c) v \<and> (written env s k c v \<or> (k, c, v) \<in> E))"
    and E: "\<And>k c v. (k, c, v) \<in> E \<Longrightarrow> get_machine_id c = ab_m_id (s i) \<and> clock_of env (s i) k < c \<and> c \<le> clock_of env st k \<and> E = {(k, c, v)}"
  shows "writes_inv env N (s(i := st))"
proof -
  let ?t = "s(i := st)"
  note I = writes_invD [OF inv]
  have id: "ab_m_id (?t j) = ab_m_id (s j)" and key: "same_key (?t j) (s j)" for j using grows by (auto simp: grows_def)
  have pk: "packet_of env (?t j) r K V = packet_of env (s j) r K V" for j r K V by (rule packet_of_same_key [OF key])
  have mono: "clock_of env (s j) k \<le> clock_of env (?t j) k" for j k using keeps_clock [OF keeps I(1)] by simp
  have W: "written env s k c v \<or> (k, c, v) \<in> E" if w: "written env ?t k c v" for k c v
  proof -
    obtain j where "look env (?t j) k = Some (c, v) \<or> (\<exists>r. Enqueue_request r \<in> set (ab_out (?t j)) \<and> rq_type r = PutReplica \<and>
        packet_of env (s j) (rq_buf r) (k @ lamport_bytes c) v)"
      using w unfolding written_def pk by blast
    then show ?thesis
    proof
      assume "look env (?t j) k = Some (c, v)"
      then show ?thesis using new [of k c v] look_written [of env s j] by (cases "j = i") auto
    next
      assume "\<exists>r. Enqueue_request r \<in> set (ab_out (?t j)) \<and> rq_type r = PutReplica \<and> packet_of env (s j) (rq_buf r) (k @ lamport_bytes c) v"
      then obtain r where r: "Enqueue_request r \<in> set (ab_out (?t j))" "rq_type r = PutReplica"
        "packet_of env (s j) (rq_buf r) (k @ lamport_bytes c) v" by blast
      show ?thesis
      proof (cases "Enqueue_request r \<in> set (ab_out (s j))")
        case True
        then show ?thesis using r by (auto simp: written_def)
      next
        case False
        then have j: "j = i" using r(1) by (cases "j = i") auto
        then have q: "Enqueue_request r \<in> set (ab_out st)" "Enqueue_request r \<notin> set (ab_out (s i))" using r(1) False by simp_all
        obtain k' c' v' where n: "packet_of env (s i) (rq_buf r) (k' @ lamport_bytes c') v'" "written env s k' c' v' \<or> (k', c', v') \<in> E"
          using sent [OF q(1) r(2)] q(2) by blast
        have "k @ lamport_bytes c = k' @ lamport_bytes c' \<and> v = v'" by (rule packet_of_unique [OF ok I(2) r(3) [unfolded j] n(1)])
        then show ?thesis using n(2) unfolding key_clock_inject by (elim conjE) (simp only:)
      qed
    qed
  qed
  have J: "\<exists>j \<in> N. get_machine_id c = ab_m_id (s j) \<and> c \<le> clock_of env (?t j) k" if "written env ?t k c v" for k c v
    using W [OF that]
  proof
    assume "written env s k c v"
    then show ?thesis using I(7) mono order_trans by blast
  next
    assume "(k, c, v) \<in> E"
    then show ?thesis using E i by auto
  qed
  have fresh: "\<not> written env s k c w" if "(k, c, v) \<in> E" for k c v w
  proof
    assume "written env s k c w"
    then obtain j where j: "j \<in> N" "get_machine_id c = ab_m_id (s j)" "c \<le> clock_of env (s j) k" using I(7) by blast
    then have "j = i" using E [OF that] i inj_onD [OF I(4), of j i] by simp
    then show False using j(3) E [OF that] leD by blast
  qed
  have U: "v = w" if "written env ?t k c v" "written env ?t k c w" for k c v w
    using W [OF that(1)] W [OF that(2)] fresh I(8) E by blast
  have P: "\<exists>k c v. packet_of env (?t j) (rq_buf r) (k @ lamport_bytes c) v"
    if "Enqueue_request r \<in> set (ab_out (?t j))" "rq_type r = PutReplica" for j r
    unfolding pk using that sent [of r] I(6) by (cases "j = i") auto
  show ?thesis
    unfolding writes_inv_def id
    using reg I(4) J U P keeps I(1,3) key by (auto simp: keeps_def)
qed

lemma newer_cases:
  "f k' = Some e \<Longrightarrow> f = g(k \<mapsto> newer (g k) x) \<Longrightarrow> g k' = Some e \<or> k' = k \<and> e = x"
  by (cases "g k"; cases x) (auto split: if_splits)

lemma quiet_writes:
  assumes "quiet (s i) st" "local_write_backs env s (s(i := st))"
  shows "look env st = look env (s i)"
    "Enqueue_request r \<in> set (ab_out st) \<Longrightarrow> rq_type r = PutReplica \<Longrightarrow> Enqueue_request r \<in> set (ab_out (s i)) \<or>
       (\<exists>k c v. packet_of env (s i) (rq_buf r) (k @ lamport_bytes c) v \<and> written env s k c v)"
proof -
  show "look env st = look env (s i)" using assms(1) by (simp add: quiet_def kv_look_def fun_eq_iff)
  assume r: "Enqueue_request r \<in> set (ab_out st)" "rq_type r = PutReplica"
  show "Enqueue_request r \<in> set (ab_out (s i)) \<or> (\<exists>k c v. packet_of env (s i) (rq_buf r) (k @ lamport_bytes c) v \<and> written env s k c v)"
  proof (cases "Enqueue_request r \<in> set (ab_out (s i))")
    case False
    then have "rq_cont r = RetGetPutUpdate" using assms(1) r by (auto simp: quiet_def grows_def wires_def)
    then obtain k c v where "look env (s i) k = Some (c, v)" "packet_of env (s i) (rq_buf r) (k @ lamport_bytes c) v"
      using assms(2) r(1) False unfolding local_write_backs_def by (metis DiffI fun_upd_same)
    then show ?thesis using look_written by blast
  qed simp
qed

lemma regular_step_inv:
  assumes ok: "penv_ok env cap" and inv: "writes_inv env N s" and step: "regular_step env N s t"
  shows "writes_inv env N t"
proof -
  note I = writes_invD [OF inv]
  have reg: "regular env t" and st: "sealed_step env N s t" and wb: "local_write_backs env s t"
    using step by (simp_all add: regular_step_def)
  from st show ?thesis
  proof (cases rule: sealed_step_cases)
    case (quiet i st)
    note old = quiet_writes [OF quiet(4) wb [unfolded quiet(2)]]
    show ?thesis unfolding quiet(2)
      by (rule writes_inv_step [OF ok inv _ quiet(1), where E = "{}"])
        (use reg quiet node_event_keeps [OF ok quiet(3)] node_event_grows [OF quiet(3)] old in \<open>auto simp: written_def\<close>)
  next
    case (deliver i st ev j r h)
    obtain k c v where pk: "packet_of env (s j) (rq_buf r) (k @ lamport_bytes c) v" using I(6) [OF deliver(6,7)] by blast
    have w: "written env s k c v" using deliver(6,7) pk by (auto simp: written_def)
    have look: "look env st = (look env (s i))(k \<mapsto> newer (look env (s i) k) (c, v))"
      by (rule handle_put_replica_write [OF ok I(2) deliver(4,5) _ deliver(8)]) (use pk I(3) [of i j] in \<open>simp add: carries_def\<close>)
    have new: "written env s k' c' v'" if "look env st k' = Some (c', v')" for k' c' v'
      using newer_cases [OF that look] w look_written by blast
    have "grows {} (s i) st" by (rule handle_put_replica_grows [OF deliver(8)])
    then have sent: "Enqueue_request q \<in> set (ab_out st) \<Longrightarrow> Enqueue_request q \<in> set (ab_out (s i))" for q
      by (auto simp: grows_def)
    show ?thesis unfolding deliver(2)
      by (rule writes_inv_step [OF ok inv _ deliver(1), where E = "{}"])
        (use reg deliver node_event_keeps [OF ok deliver(3)] node_event_grows [OF deliver(3)] new sent in auto)
  next
    case (take i st ev cid c c')
    let ?s = "set_ctx (s i) cid c'"
    have c: "cid < length (ab_ctxs (s i))" "c \<in> set (ab_ctxs (s i))" using ctx_atD [OF take(6)] by auto
    have "keeps env (s i) ?s" using c(2) take(7) by (intro keeps_set_ctx) auto
    then have inv_s: "abd_inv env ?s" using I(1) by (simp add: keeps_def)
    have fits: "pending_fits c'" using I(5) c(2) take(7) by (auto simp: regular_def pending_fits_def)
    have ctx: "ctx_at ?s cid = Some c'" using c(1) by (simp add: ctx_at_def)
    obtain k v clock where W: "get_machine_id clock = ab_m_id ?s"
      "get_count (clock_of env ?s k) < get_count clock \<or> get_count clock = 0"
      "look env st = (look env ?s)(k \<mapsto> newer (look env ?s k) (clock, v))"
      "\<And>r. Enqueue_request r \<in> set (ab_out st) \<Longrightarrow> Enqueue_request r \<in> set (ab_out ?s) \<or>
         rq_type r = PutReplica \<and> packet_of env ?s (rq_buf r) (k @ lamport_bytes clock) v"
      by (rule cont_get_time_write [OF ok inv_s take(4,5) ctx fits take(8)]) (rule that)
    show ?thesis
    proof (cases "get_count clock = 0")
      case False
      have less: "clock_of env (s i) k < clock" using W(2) False by (intro lamport_less_if_count_less) (simp add: clock_of_def)
      then have newer: "newer (look env (s i) k) (clock, v) = (clock, v)"
        by (cases "look env (s i) k") (auto simp: clock_of_def)
      have sent: "Enqueue_request r \<in> set (ab_out (s i)) \<or> packet_of env (s i) (rq_buf r) (k @ lamport_bytes clock) v"
        if "Enqueue_request r \<in> set (ab_out st)" for r
        using W(4) [OF that] by (auto simp: set_ctx_def)
      show ?thesis unfolding take(2)
        by (rule writes_inv_step [OF ok inv _ take(1), where E = "{(k, clock, v)}"])
          (use reg take node_event_keeps [OF ok take(3)] node_event_grows [OF take(3)] sent W(1,3) less newer in
            \<open>auto simp: written_def clock_of_def split: if_splits\<close>)
    next
      case True
      have zero: "\<not> written env t k' clock v'" for k' v' using reg True unfolding regular_def by blast
      have new: "written env s k' c' v'" if "look env st k' = Some (c', v')" for k' c' v'
      proof -
        have "written env t k' c' v'" using that unfolding take(2) by (auto simp: written_def)
        then show ?thesis using newer_cases [OF that W(3)] zero look_written [of env s i] by auto
      qed
      have sent: "Enqueue_request r \<in> set (ab_out (s i))" if r: "Enqueue_request r \<in> set (ab_out st)" for r
      proof (rule ccontr)
        assume "\<not> ?thesis"
        then have "rq_type r = PutReplica \<and> packet_of env (s i) (rq_buf r) (k @ lamport_bytes clock) v"
          using W(4) [OF r] by simp
        moreover have "same_key st (s i)" using node_event_grows [OF take(3)] by (simp add: grows_def)
        ultimately have "written env t k clock v" using r unfolding take(2) written_def by (intro exI [of _ i]) (auto simp: carries_def)
        then show False using zero by simp
      qed
      show ?thesis unfolding take(2)
        by (rule writes_inv_step [OF ok inv _ take(1), where E = "{}"])
          (use reg take node_event_keeps [OF ok take(3)] node_event_grows [OF take(3)] new sent in auto)
    qed
  qed
qed

text \<open>A node that has not done anything yet.\<close>

definition fresh_node :: "('s, 'p) penv \<Rightarrow> 's abd \<Rightarrow> bool" where
  "fresh_node env st \<longleftrightarrow> abd_inv env st \<and> look env st = Map.empty \<and> ab_out st = [] \<and> ab_ctxs st = []"

lemma fresh_inv:
  assumes "\<forall>i. fresh_node env (s i)" "\<forall>i j. same_key (s i) (s j)" "inj_on (\<lambda>i. ab_m_id (s i)) N"
  shows "writes_inv env N s"
proof -
  have "\<not> written env s k c v" for k c v using assms(1) by (simp add: written_def fresh_node_def)
  then show ?thesis using assms by (simp add: writes_inv_def regular_def fresh_node_def)
qed

lemma regular_run_inv:
  assumes "penv_ok env cap" "(regular_step env N)\<^sup>*\<^sup>* s t"
  shows "writes_inv env N s \<Longrightarrow> writes_inv env N t"
  using assms(2) by (induction rule: rtranclp_induct) (auto intro: regular_step_inv [OF assms(1)])

lemma regular_run_id: "(regular_step env N)\<^sup>*\<^sup>* s t \<Longrightarrow> ab_m_id (t i) = ab_m_id (s i)"
proof (induction rule: rtranclp_induct)
  case (step t u)
  then have "sealed_step env N t u" by (simp add: regular_step_def)
  then have "ab_m_id (u i) = ab_m_id (t i)"
    by (rule sealed_step_cases) (auto dest!: node_event_grows simp: grows_def)
  with step.IH show ?case by simp
qed simp

text \<open>
  C3. Nodes with different machine ids that share a key start empty and run under a network that may lose,
  repeat, reorder and forge everything but replicated writes.  No counter wraps around, and gets write back no
  other entry than that of their own store.  Then a key and a clock determine the value: all entries of all stores and all replicated
  writes ever sent that have this key and clock have the same value.  Moreover the clock is one that
  the node of its machine id has reached.
\<close>

theorem clock_determines_value:
  assumes "penv_ok env cap" "\<forall>i. fresh_node env (s i)" "\<forall>i j. same_key (s i) (s j)" "inj_on (\<lambda>i. ab_m_id (s i)) N"
    and "(regular_step env N)\<^sup>*\<^sup>* s t" "written env t k c v"
  shows "(\<forall>w. written env t k c w \<longrightarrow> w = v) \<and> (\<exists>i \<in> N. get_machine_id c = ab_m_id (s i) \<and> c \<le> clock_of env (t i) k)"
proof -
  have inv: "writes_inv env N t" by (rule regular_run_inv [OF assms(1,5) fresh_inv [OF assms(2-4)]])
  show ?thesis using writes_invD(7,8) [OF inv] assms(6) regular_run_id [OF assms(5)] by metis
qed

text \<open>A run of two nodes: node 0 puts a value, its continuation takes a clock, and node 1 gets the replicated write.\<close>

definition demo_nodes :: "nat \<Rightarrow> node list abd" where
  "demo_nodes i = (if i = 0 then demo_abd else demo_abd\<lparr>ab_m_id := 8\<rparr>)"

lemma regular_upd:
  assumes "regular env s" and "\<And>c. c \<in> set (ab_ctxs st) \<Longrightarrow> pending_fits c" "\<And>k c v. look env st k = Some (c, v) \<Longrightarrow> get_count c \<noteq> 0"
    and "\<And>r k c v. Enqueue_request r \<in> set (ab_out st) \<Longrightarrow> rq_type r = PutReplica \<Longrightarrow>
      packet_of env st (rq_buf r) (k @ lamport_bytes c) v \<Longrightarrow> get_count c \<noteq> 0"
  shows "regular env (s(i := st))"
proof -
  have "get_count c \<noteq> 0" if w: "written env (s(i := st)) k c v" for k c v
  proof -
    obtain j where j: "look env ((s(i := st)) j) k = Some (c, v) \<or> (\<exists>r. Enqueue_request r \<in> set (ab_out ((s(i := st)) j)) \<and>
        rq_type r = PutReplica \<and> packet_of env ((s(i := st)) j) (rq_buf r) (k @ lamport_bytes c) v)"
      using w unfolding written_def by blast
    show ?thesis
    proof (cases "j = i")
      case True
      then show ?thesis using j assms(3,4) by auto
    next
      case False
      then have "written env s k c v" using j by (auto simp: written_def)
      then show ?thesis using assms(1) unfolding regular_def by blast
    qed
  qed
  then show ?thesis using assms(1,2) by (auto simp: regular_def)
qed

lemma demo_put_started:
  obtains A1 c where "benchmark_put demo_penv demo_event demo_abd (encoded [1] [9] []) = Some A1"
    "abd_wf demo_penv A1" "look demo_penv A1 = Map.empty" "same_key A1 demo_abd" "ab_replicas A1 = [[1, 2]]" "ab_m_id A1 = 7"
    "ab_ctxs A1 = [c]" "waits c" "holds demo_penv c [1] [9] lamport_min"
    "\<And>r. Enqueue_request r \<in> set (ab_out A1) \<Longrightarrow> rq_type r = GetTimeStamp \<and> rq_cont r = GetTime"
proof -
  have rd: "[1] \<noteq> ([] :: bytes)" "length ([9] :: bytes) \<le> 32" "length ([1] :: bytes) + length ([9] :: bytes) + 44 < 2 ^ 64"
    "ab_replicas demo_abd \<noteq> []" "key_group demo_abd [1] \<noteq> []" by simp_all
  obtain n A1 c where A1: "benchmark_put demo_penv demo_event demo_abd (encoded [1] [9] []) = Some A1"
    "c = (rc_create (ab_max_package_size demo_abd) None)\<lparr>rc_data := n\<rparr>" "holds demo_penv c [1] [9] lamport_min"
    "sends demo_penv (with_ctx (increment_traces demo_abd) None n) c (length (ab_ctxs demo_abd)) (key_group demo_abd [1])
      GetTimeStamp GetTime [1] [] A1"
    by (rule benchmark_put_spec [OF demo_penv_ok demo_abd_inv(2) demo_event_ok(1) rd]) (rule that)
  have two: "length (key_group demo_abd [1]) = 2" and none: "ab_ctxs demo_abd = []" "ab_out demo_abd = []" "ab_m_id demo_abd = 7"
    by simp (simp_all add: demo_abd_def abd_new_def)
  note st = started [OF A1(4,2) demo_abd_inv(2) two]
  have "ab_ctxs A1 = [c\<lparr>rc_n_msgs := 2\<rparr>]" using sendsD(3) [OF A1(4)] two none by (simp add: with_ctx_def)
  moreover have "rq_type r = GetTimeStamp \<and> rq_cont r = GetTime" if "Enqueue_request r \<in> set (ab_out A1)" for r
    using A1(4) that none by (auto simp: sends_def with_ctx_def)
  ultimately show ?thesis
    using A1(1,3) st none by (intro that [of A1 "c\<lparr>rc_n_msgs := 2\<rparr>"]) (simp_all add: fun_eq_iff)
qed

lemma sends_buffer:
  assumes "sends env st c cid reps rt cont k v st'"
  obtains buf where "ab_out st' = ab_out st @ map (\<lambda>i. Enqueue_request \<lparr>rq_session = reps ! i, rq_type = rt,
      rq_buf = buf, rq_cont = cont, rq_ctx = cid, rq_node = i\<rparr>) [0..<length reps]" "packet_of env st buf k v"
proof -
  let ?reqs = "\<lambda>buf. map (\<lambda>i. Enqueue_request \<lparr>rq_session = reps ! i, rq_type = rt, rq_buf = buf, rq_cont = cont,
    rq_ctx = cid, rq_node = i\<rparr>) [0..<length reps]"
  obtain ki buf where "st' = (set_ctx st cid (c\<lparr>rc_n_msgs := length reps\<rparr>))\<lparr>ab_cipher := ki, ab_out := ab_out st @ ?reqs buf\<rparr>"
    "packet_of env st buf k v"
    using assms unfolding sends_def by blast
  then show ?thesis by (intro that [of buf]) simp_all
qed

lemma holds_fits: "holds env c k v l \<Longrightarrow> length k + length v + 52 < 2 ^ 64 \<Longrightarrow> pending_fits c"
  by (auto simp: holds_def pending_fits_def unat_size_of)

lemma demo_clock_taken:
  assumes A1: "abd_wf demo_penv A1" "look demo_penv A1 = Map.empty" "same_key A1 demo_abd" "ab_replicas A1 = [[1, 2]]" "ab_m_id A1 = 7"
    and c: "ab_ctxs A1 = [c]" "waits c" "holds demo_penv c [1] [9] lamport_min"
    and out: "\<And>r. Enqueue_request r \<in> set (ab_out A1) \<Longrightarrow> rq_type r = GetTimeStamp \<and> rq_cont r = GetTime"
  obtains A2 r q where "req_conts demo_penv demo_event A1 GetTime 0 r = Some A2"
    "look demo_penv A2 = [[1] \<mapsto> (Lamport 1 7, [9])]" "same_key A2 demo_abd" "\<And>c. c \<in> set (ab_ctxs A2) \<Longrightarrow> pending_fits c"
    "Enqueue_request q \<in> set (ab_out A2)" "rq_type q = PutReplica"
    "\<And>q. Enqueue_request q \<in> set (ab_out A2) \<Longrightarrow> rq_cont q \<noteq> RetGetPutUpdate \<and>
       (rq_type q = PutReplica \<longrightarrow> packet_of demo_penv A2 (rq_buf q) ([1] @ lamport_bytes (Lamport 1 7)) [9])"
proof -
  let ?r = "demo_packet (encoded (lamport_bytes lamport_min) [] [])"
  have pk: "packet_of demo_penv A1 ?r (lamport_bytes lamport_min) []" by (rule demo_packet_carries) simp
  have ctx: "ctx_at A1 0 = Some c" using c(1) by (simp add: ctx_at_def)
  obtain c' where c': "req_conts demo_penv demo_event A1 GetTime 0 ?r = req_conts_impl demo_penv demo_event (set_ctx A1 0 c') GetTime 1 0"
    "ctx_at (set_ctx A1 0 c') 0 = Some c'" "rc_wf c'" "rc_cache c' = [?r]" "rc_data c' = rc_data c"
    by (rule first_response [OF ctx c(2) _ pk, of GetTime demo_event]) (simp, rule that)
  let ?A = "set_ctx A1 0 c'"
  have h: "holds demo_penv c' [1] [9] lamport_min" using c(3) c'(5) by (simp add: holds_def)
  have rs: "clock_responses demo_penv ?A c' [lamport_min]" using c'(4) pk by (simp add: clock_responses_def)
  have wf: "abd_wf demo_penv ?A" using A1(1) by (simp add: abd_wf_def)
  have key: "[1] \<noteq> ([] :: bytes)" "length ([1] :: bytes) + length ([9] :: bytes) + 52 < 2 ^ 64" "ab_replicas ?A \<noteq> []" "key_group ?A [1] \<noteq> []"
    using A1(4) by simp_all
  have clock: "Lamport 1 7 = Lamport (top_count (get_count (old_clock (look demo_penv ?A [1]))) [lamport_min] + 1) (ab_m_id ?A)"
    using A1(2,5) by simp
  obtain st1 st2 m where S: "cont_get_time_send demo_penv demo_event ?A 0 = Some (st2, \<lparr>nd_key = [1], nd_meta = Some m\<rparr>)"
    "meta_value (pe_kv demo_penv) m = Some [9]" "md_clock m = Lamport 1 7" "meta_ok (pe_kv demo_penv) m"
    "sends demo_penv (fst (create_rep_context ?A (rc_handle c'))) (rc_create (ab_max_package_size ?A) (rc_handle c'))
       (length (ab_ctxs ?A)) (key_group ?A [1]) PutReplica AckPutTime ([1] @ lamport_bytes (Lamport 1 7)) [9] st1"
    "st2 = set_ctx st1 0 (c'\<lparr>rc_data := \<lparr>nd_key = [1], nd_meta = Some m\<rparr>\<rparr>)" "ab_kv st1 = ab_kv ?A" "abd_wf demo_penv st1"
    by (rule cont_get_time_send_spec [OF demo_penv_ok wf demo_event_ok(1) c'(2) h c'(3) rs key clock]) (rule that)
  have kw: "kv_wf (pe_kv demo_penv) (ab_kv st2)" using S(6,8) by (simp add: abd_wf_def)
  have lk: "look demo_penv st2 = Map.empty" using S(6,7) A1(2) by simp
  obtain kv b where kv: "kv_put (pe_kv demo_penv) [] (ab_kv st2) \<lparr>nd_key = [1], nd_meta = Some m\<rparr> = Some (kv, b)"
    "kv_look (pe_kv demo_penv) kv = [[1] \<mapsto> (Lamport 1 7, [9])]"
    by (rule kv_put_alone [OF penv_okD(1) [OF demo_penv_ok] kw S(2,4), of "[1]"]) (use lk S(3) in \<open>auto intro: that\<close>)
  let ?A2 = "st2\<lparr>ab_kv := kv\<rparr>"
  have "unat (md_data_size m) = 1" using S(2,4) by (auto simp: meta_ok_def)
  then have f1: "pending_fits (c'\<lparr>rc_data := \<lparr>nd_key = [1], nd_meta = Some m\<rparr>\<rparr>)" by (simp add: pending_fits_def)
  have f2: "pending_fits ((rc_create n x)\<lparr>rc_n_msgs := y\<rparr>)" for n x y by (simp add: pending_fits_def rc_create_def)
  have ctxs: "pending_fits d" if "d \<in> set (ab_ctxs ?A2)" for d
    using that S(6) sendsD(3) [OF S(5)] c(1) f1 f2 by auto
  have grp: "length (key_group ?A [1]) = 2" using A1(4) by simp
  obtain buf where P: "ab_out st1 = ab_out A1 @ map (\<lambda>i. Enqueue_request \<lparr>rq_session = key_group ?A [1] ! i, rq_type = PutReplica,
      rq_buf = buf, rq_cont = AckPutTime, rq_ctx = length (ab_ctxs ?A), rq_node = i\<rparr>) [0..<2]"
    "packet_of demo_penv A1 buf ([1] @ lamport_bytes (Lamport 1 7)) [9]"
    by (rule sends_buffer [OF S(5)]) (use grp in \<open>auto simp: carries_def intro: that\<close>)
  have key1: "same_key st1 A1" using sendsD(4) [OF S(5)] by simp
  show ?thesis
  proof (rule that)
    show "req_conts demo_penv demo_event A1 GetTime 0 ?r = Some ?A2"
      using c'(1) S(1) kv(1) by (simp add: cont_get_time_split)
    show "Enqueue_request \<lparr>rq_session = key_group ?A [1] ! 0, rq_type = PutReplica,
      rq_buf = buf, rq_cont = AckPutTime, rq_ctx = length (ab_ctxs ?A), rq_node = 0\<rparr> \<in> set (ab_out ?A2)"
      using P(1) S(6) by (simp add: upt_rec)
    show "rq_cont q \<noteq> RetGetPutUpdate \<and> (rq_type q = PutReplica \<longrightarrow>
        packet_of demo_penv ?A2 (rq_buf q) ([1] @ lamport_bytes (Lamport 1 7)) [9])" if "Enqueue_request q \<in> set (ab_out ?A2)" for q
      using that P S(6) out key1 by (fastforce simp: carries_def)
  qed (use kv(2) ctxs key1 S(6) A1(3) in simp_all)
qed

lemma demo_nodes_fresh: "fresh_node demo_penv (demo_nodes i)" "same_key (demo_nodes i) (demo_nodes j)" "inj_on (\<lambda>i. ab_m_id (demo_nodes i)) {0, 1}"
  by (simp_all add: demo_nodes_def fresh_node_def fun_eq_iff abd_inv_def abd_wf_def inj_on_def)
    (simp_all add: demo_abd_def abd_new_def kv_look_def demo_penv_def key_iv_wf_def demo_key_def ordered_list_def)

lemma demo_regular_run:
  obtains t where "(regular_step demo_penv {0, 1})\<^sup>*\<^sup>* demo_nodes t"
    "look demo_penv (t 0) = [[1] \<mapsto> (Lamport 1 7, [9])]" "look demo_penv (t 1) = [[1] \<mapsto> (Lamport 1 7, [9])]"
proof -
  obtain A1 c where A1: "benchmark_put demo_penv demo_event demo_abd (encoded [1] [9] []) = Some A1"
    "abd_wf demo_penv A1" "look demo_penv A1 = Map.empty" "same_key A1 demo_abd" "ab_replicas A1 = [[1, 2]]" "ab_m_id A1 = 7"
    "ab_ctxs A1 = [c]" "waits c" "holds demo_penv c [1] [9] lamport_min"
    "\<And>r. Enqueue_request r \<in> set (ab_out A1) \<Longrightarrow> rq_type r = GetTimeStamp \<and> rq_cont r = GetTime"
    by (rule demo_put_started) (rule that)
  obtain A2 r q where A2: "req_conts demo_penv demo_event A1 GetTime 0 r = Some A2"
    "look demo_penv A2 = [[1] \<mapsto> (Lamport 1 7, [9])]" "same_key A2 demo_abd" "\<And>c. c \<in> set (ab_ctxs A2) \<Longrightarrow> pending_fits c"
    "Enqueue_request q \<in> set (ab_out A2)" "rq_type q = PutReplica"
    "\<And>q. Enqueue_request q \<in> set (ab_out A2) \<Longrightarrow> rq_cont q \<noteq> RetGetPutUpdate \<and>
       (rq_type q = PutReplica \<longrightarrow> packet_of demo_penv A2 (rq_buf q) ([1] @ lamport_bytes (Lamport 1 7)) [9])"
    by (rule demo_clock_taken [OF A1(2-10)]) (assumption, rule that)
  let ?B = "demo_nodes 1" and ?s1 = "demo_nodes(0 := A1)" and ?s2 = "demo_nodes(0 := A1, 0 := A2)"
  have B: "abd_wf demo_penv ?B" "look demo_penv ?B = Map.empty" "ab_out ?B = []" "ab_ctxs ?B = []" "same_key ?B demo_abd"
    using demo_nodes_fresh(1) [of 1] by (simp_all add: fresh_node_def abd_inv_def) (simp add: demo_nodes_def)
  have pk: "packet_of demo_penv ?B (rq_buf q) ([1] @ lamport_bytes (Lamport 1 7)) [9]"
    using A2(3,5-7) B(5) by (simp add: carries_def)
  obtain kv B2 where B2: "handle_put_replica demo_penv demo_event ?B 0 (rq_buf q) = Some B2"
    "answers demo_penv (?B\<lparr>ab_kv := kv\<rparr>) (Some 0) [65] [] B2"
    "kv_look (pe_kv demo_penv) kv = (look demo_penv ?B)([1] \<mapsto> newer (look demo_penv ?B [1]) (Lamport 1 7, [9]))"
    by (rule handle_put_replica_spec [OF demo_penv_ok B(1) demo_event_ok(1) pk _ demo_event_ok(2), of 0]) (simp, rule that)
  have out: "Enqueue_request x \<notin> set (ab_out B2)" for x using B2(2) B(3) by (auto simp: answers_def)
  let ?s3 = "?s2(1 := B2)"
  have reg0: "regular demo_penv demo_nodes"
    by (rule writes_invD(5) [OF fresh_inv [OF _ _ demo_nodes_fresh(3)]]) (simp_all only: demo_nodes_fresh(1,2) simp_thms)
  have reg1: "regular demo_penv ?s1"
    by (rule regular_upd [OF reg0]) (use A1 holds_fits [OF A1(9)] in fastforce)+
  have "keeps demo_penv demo_abd A1" "keeps demo_penv A1 A2"
    by (rule benchmark_keeps(1) [OF demo_penv_ok demo_event_ok(1) A1(1)], rule req_conts_keeps [OF demo_penv_ok demo_event_ok A2(1)])
  then have "abd_inv demo_penv A2" using demo_abd_inv(1) unfolding keeps_def by blast
  then have wf2: "abd_wf demo_penv A2" by (simp only: abd_inv_def)
  have reg2: "regular demo_penv ?s2"
  proof (rule regular_upd [OF reg1])
    fix r k c v assume r: "Enqueue_request r \<in> set (ab_out A2)" "rq_type r = PutReplica" "packet_of demo_penv A2 (rq_buf r) (k @ lamport_bytes c) v"
    then have "k @ lamport_bytes c = [1] @ lamport_bytes (Lamport 1 7)"
      using packet_of_unique [OF demo_penv_ok wf2 r(3)] A2(7) by blast
    then show "get_count c \<noteq> 0" unfolding key_clock_inject by simp
  qed (use A2(2,4) in \<open>auto split: if_splits\<close>)
  have reg3: "regular demo_penv ?s3"
    by (rule regular_upd [OF reg2]) (use out answersD(2,3) [OF B2(2)] B(2,4) B2(3) in \<open>auto split: if_splits\<close>)
  have s0: "demo_nodes 0 = demo_abd" by (simp add: demo_nodes_def)
  have wb: "local_write_backs demo_penv s0 (s0(j := st))"
    if "\<And>r. Enqueue_request r \<in> set (ab_out st) \<Longrightarrow> rq_cont r \<noteq> RetGetPutUpdate" for st j s0
    using that unfolding local_write_backs_def by auto
  have 1: "regular_step demo_penv {0, 1} demo_nodes ?s1"
    unfolding regular_step_def
    by (intro conjI reg1 wb sealed_step.start_put [of 0 _ _ demo_event _ "encoded [1] [9] []"]) (use A1(1,10) s0 in auto)
  have 2: "regular_step demo_penv {0, 1} ?s1 ?s2"
    unfolding regular_step_def
    by (intro conjI reg2 wb sealed_step.response [of 0 _ _ demo_event ?s1 GetTime 0 r A2]) (use A2(1,7) in simp_all)
  have 3: "regular_step demo_penv {0, 1} ?s2 ?s3"
    unfolding regular_step_def
    by (intro conjI reg3 wb sealed_step.replica [of 1 _ _ demo_event q _ 0 0]) (use A2(5,6) B2(1) out in simp_all)
  note ext = rtranclp.rtrancl_into_rtrancl [where r = "regular_step demo_penv {0, 1}"]
  have "(regular_step demo_penv {0, 1})\<^sup>*\<^sup>* demo_nodes ?s3"
    by (rule ext [OF ext [OF ext [OF rtranclp.rtrancl_refl 1] 2] 3])
  then show ?thesis
    using A2(2) B2(2,3) B(2) answersD(2) [OF B2(2)] by (intro that [of ?s3]) simp_all
qed

theorem clock_determines_value_witness:
  "\<exists>t. (regular_step demo_penv {0, 1})\<^sup>*\<^sup>* demo_nodes t \<and> look demo_penv (t 0) [1] = Some (Lamport 1 7, [9]) \<and>
    look demo_penv (t 1) [1] = Some (Lamport 1 7, [9]) \<and> {w. written demo_penv t [1] (Lamport 1 7) w} = {[9]}"
proof -
  obtain t where t: "(regular_step demo_penv {0, 1})\<^sup>*\<^sup>* demo_nodes t"
    "look demo_penv (t 0) = [[1] \<mapsto> (Lamport 1 7, [9])]" "look demo_penv (t 1) = [[1] \<mapsto> (Lamport 1 7, [9])]"
    by (rule demo_regular_run)
  have w: "written demo_penv t [1] (Lamport 1 7) [9]" by (rule look_written [of _ _ 0]) (simp add: t(2))
  have "\<forall>x. written demo_penv t [1] (Lamport 1 7) x \<longrightarrow> x = [9]"
    by (rule conjunct1 [OF clock_determines_value [OF demo_penv_ok _ _ demo_nodes_fresh(3) t(1) w]])
      (simp_all only: demo_nodes_fresh(1,2) simp_thms)
  then have "{x. written demo_penv t [1] (Lamport 1 7) x} = {[9]}" using w by blast
  then show ?thesis using t by (intro exI [of _ t]) simp
qed

section \<open>A get that is taken for a write\<close>

text \<open>
  C6. The seal of a packet covers key and value but not the type of the request, which eRPC transmits in its own
  header.  So whoever controls the network can hand the request of a get to the handler of replicated
  writes: the replica opens it, takes the last eight bytes of the key of the get as a clock, and stores the
  value of the message under the rest of the key if this clock is larger than its own.  The client of the get has
  chosen both, and its key was never written by anyone.
\<close>

theorem get_request_stored_as_write:
  assumes "penv_ok env cap" "abd_wf env A" "abd_wf env B" "ev_ok env ea" "ev_ok env eb" "ev_attempts eb = []"
    and "length k + length v + 52 < 2 ^ 64" "length v \<le> cap"
    and "ab_replicas A \<noteq> []" "key_group A (k @ lamport_bytes c) \<noteq> []" "same_key A B"
  shows "\<exists>A' q B'. benchmark_get env ea A (encoded (k @ lamport_bytes c) v []) = Some A' \<and>
    Enqueue_request q \<in> set (ab_out A') \<and> rq_type q = GetValueTimeStamp \<and>
    abd_request env eb B PutReplica h (rq_buf q) = Some B' \<and>
    look env B' = (look env B)(k \<mapsto> newer (look env B k) (c, v))"
proof -
  let ?k = "k @ lamport_bytes c"
  have key: "?k \<noteq> []" "length ?k + length v + 44 < 2 ^ 64" using assms(7) by (simp_all add: lamport_bytes_def le_enc_def)
  obtain A' n x where A': "benchmark_get env ea A (encoded ?k v []) = Some A'"
    "sends env (with_ctx (increment_traces A) None n) x (length (ab_ctxs A)) (key_group A ?k) GetValueTimeStamp RetValue ?k v A'"
    by (rule benchmark_get_spec [OF assms(1,2,4) key assms(9,10)]) (rule that)
  obtain buf where buf: "ab_out A' = ab_out (with_ctx (increment_traces A) None n) @ map (\<lambda>i. Enqueue_request
      \<lparr>rq_session = key_group A ?k ! i, rq_type = GetValueTimeStamp, rq_buf = buf, rq_cont = RetValue,
       rq_ctx = length (ab_ctxs A), rq_node = i\<rparr>) [0..<length (key_group A ?k)]"
    "packet_of env (with_ctx (increment_traces A) None n) buf ?k v"
    by (rule sends_buffer [OF A'(2)])
  have pk: "packet_of env B buf ?k v" using buf(2) assms(11) by (simp add: carries_def with_ctx_def)
  obtain kv B' where B': "handle_put_replica env eb B h buf = Some B'" "answers env (B\<lparr>ab_kv := kv\<rparr>) (Some h) [65] [] B'"
    "kv_look (pe_kv env) kv = (look env B)(k \<mapsto> newer (look env B k) (c, v))"
    by (rule handle_put_replica_spec [OF assms(1,3,5) pk assms(8,6)]) (rule that)
  let ?q = "\<lparr>rq_session = key_group A ?k ! 0, rq_type = GetValueTimeStamp, rq_buf = buf, rq_cont = RetValue,
    rq_ctx = length (ab_ctxs A), rq_node = 0\<rparr>"
  have "Enqueue_request ?q \<in> set (ab_out A')"
    unfolding buf(1) using assms(10) by (auto intro!: image_eqI [where x = 0])
  then show ?thesis
    using A'(1) B' answersD(2) [OF B'(2)] by (intro exI [of _ A'] exI [of _ ?q] exI [of _ B']) simp
qed

theorem get_request_stored_as_write_witness:
  "\<exists>A' q B'. benchmark_get demo_penv demo_event demo_abd (encoded ([1] @ lamport_bytes (Lamport 9 7)) [5] []) = Some A' \<and>
    Enqueue_request q \<in> set (ab_out A') \<and> rq_type q = GetValueTimeStamp \<and>
    abd_request demo_penv demo_event demo_abd PutReplica 0 (rq_buf q) = Some B' \<and>
    look demo_penv B' [1] = Some (Lamport 9 7, [5])"
proof -
  have "ab_replicas demo_abd \<noteq> []" "key_group demo_abd ([1] @ lamport_bytes (Lamport 9 7)) \<noteq> []" by simp_all
  then show ?thesis
    using get_request_stored_as_write [OF demo_penv_ok demo_abd_inv(2,2) demo_event_ok(1,1,2), of "[1]" "[5]" "Lamport 9 7" 0] by fastforce
qed

end
