(* ===== verification/Spec2Isabelle.thy ===== *)
theory Spec2Isabelle
  imports Protocol_Properties Hash_Store Server_Run Checksum Buffer_Lifetime Statistics End_To_End Process
    Hash_Cbc Helpers Stats_Files Samples Dispatch Test_Programs Unique_Writes
begin

text \<open>
  A verification of Avocado, a replicated key-value store for trusted execution environments.

  \<^bold>\<open>The program.\<close>  A server process (\<open>src/server.cpp\<close>) runs several threads.  Each thread is a node of the
  replication protocol \<open>ABD\<close> (\<open>src/include/protocol/abd/protocol.h\<close>): a put asks a group of replicas for their
  clocks, takes a larger one and sends key, clock and value; a get asks for clocks and values and returns the
  newest.  Requests and responses are encrypted packets (\<open>crypt/release/encrypt_package.h\<close>) around messages
  (\<open>msg.h\<close>) and go through eRPC; the bookkeeping of one fan-out is a \<open>ReplicaContext\<close>.  Every node keeps its
  data in a memtable (\<open>src/memtables\<close>, \<open>include/memtable\<close>), whose values are encrypted in untrusted memory.
  \<open>include/store.h\<close> has an older store, a hash table with encrypted buckets over the list of \<open>include/list.h\<close>
  and the streaming hash of \<open>crypt/release/encrypt_openssl.h\<close>.  In the benchmark configuration, which is
  the one modelled, the threads take their commands from a generated trace and limit the operations in flight.

  \<^bold>\<open>Theories and sources.\<close>
  \<^item> \<open>Avocado_Prelude\<close>: machine integers, byte buffers with bounds-checked access, little-endian layout,
    collections of simplification rules.
  \<^item> \<open>Lamport\<close> (\<open>lamport.h\<close>), \<open>Key_Access\<close> (\<open>key_access.h\<close>), \<open>Message\<close> (\<open>msg.h\<close>, \<open>span.h\<close>): clocks, keys that carry
    clocks, the message format and its builder.
  \<^item> \<open>Cipher\<close>, \<open>Hash_Ssl\<close> (\<open>encrypt_openssl.h\<close>, \<open>constexpr_math.h\<close>), \<open>Packet\<close> (\<open>encrypt_package.h\<close>, \<open>utility.h\<close>): the one-shot
    cipher, the streaming ciphers and the hash, the packets.
  \<^item> \<open>Memtable\<close>, \<open>Ordered_List\<close> (\<open>memtable.cpp\<close>, \<open>memtable.h\<close>, \<open>meta_data.h\<close>): the memtable over an abstract skip list,
    the compare-and-exchange loop of a put under interference, and a concrete ordered list.
  \<^item> \<open>Replica_Context\<close> (\<open>replica_context.h\<close>, \<open>rpc_context.h\<close>), \<open>Protocol\<close> (\<open>protocol.h\<close>, \<open>replica.h\<close>): the state \<open>abd\<close> of a
    node, one function per request handler and continuation; \<open>Protocol_Spec\<close>, \<open>Protocol_Fanout\<close> and
    \<open>Protocol_Conts\<close>: what they do; \<open>Registers\<close>: the abstract specification, registers with atomic writes;
    \<open>Cluster\<close>: all nodes under an arbitrary network, a refinement of it; \<open>Protocol_Properties\<close>: the properties of the
    protocol; \<open>End_To_End\<close>: whole operations with their messages carried between nodes; \<open>Process\<close>: the threads of one
    process on their common store; \<open>Dispatch\<close> (also \<open>svr_context.h\<close>): the registered functions and what reaches them;
    \<open>Unique_Writes\<close>: what a clock tells about its value.
  \<^item> \<open>Buffer_Lifetime\<close> (\<open>replica_context.h\<close>, \<open>rpc_context.h\<close>): who releases the message buffers of a fan-out.
  \<^item> \<open>Statistics\<close> (\<open>stats/debug/stats\<close>): the counting variants of ciphers, packets, hash and eRPC calls; \<open>Stats_Files\<close>
    (\<open>src/stats/debug\<close>, \<open>server.cpp\<close>): the property tree of results and counters, printing the arguments.
  \<^item> \<open>Hash_Cbc\<close> (\<open>hash_openssl.h\<close>): the second class \<open>HashSsl\<close>, on AES-CBC.
  \<^item> \<open>Linked_List\<close> (\<open>list.h\<close>), \<open>Hash_Store\<close> (\<open>store.h\<close>): the list on an explicit heap, the encrypted hash table.
  \<^item> \<open>Rate_Limit\<close>, \<open>Replica_Groups\<close>, \<open>Server\<close>, \<open>Server_Run\<close> (\<open>server.cpp\<close>), \<open>Traces\<close> (\<open>generate_traces.cpp\<close>): the limiter, the
    addresses and groups of replicas, the commands of a benchmark thread, threads and \<open>main\<close>, the traces.
  \<^item> \<open>Utility\<close>, \<open>Helpers\<close> (\<open>utility.h\<close>, \<open>copy_utility.c\<close>, \<open>create_allocator.cpp\<close>, \<open>rdtsc.h\<close>, \<open>rdtsc.cpp\<close>, \<open>crystal_clock.h\<close>,
    \<open>enumerate.h\<close>, \<open>final_act.h\<close>; also the pages that the allocator and the trace generator map), \<open>Checksum\<close> (\<open>crc32.h\<close>).
  \<^item> \<open>Samples\<close> (\<open>client.cpp\<close>, \<open>hello-server.cpp\<close>, \<open>common.cpp\<close>, \<open>scone.cpp\<close>, \<open>vars\<close>), \<open>Test_Programs\<close> (\<open>src/tests\<close>): the small programs
    and two of the repository's tests.

  \<^bold>\<open>How code is modelled.\<close>  Structures are records, enumerations are datatypes, integers are words of their
  width.  A buffer is the list of its bytes and a pointer the readable bytes behind it; an access outside, a
  failed \<open>assert\<close>, a division by zero and a loop that does not end are the result \<open>None\<close>.  Calls that leave a node
  are appended to its list of actions.  Uninitialised memory and the interference of other threads are
  arguments.  Atomic accesses of the limiter and the compare-and-exchange of the memtable are steps of their own;
  a handler of the protocol, which eRPC runs to its end in one thread, is one step.

  \<^bold>\<open>Parameters.\<close>  OpenSSL (\<open>evp_ok\<close>, \<open>evp_stream_mode\<close>: decryption inverts encryption, only the tag that was computed
  verifies), folly's skip list (\<open>skiplist_ok\<close>: lookup after insertion; \<open>Ordered_List\<close> satisfies it), the slab
  allocator, eRPC's buffers and sessions, docopt's values, CityHash, the random numbers and the floating-point
  arithmetic of the traces, the kernel's \<open>mmap\<close>, the tables of the checksum (\<open>table_ok\<close>).  Every hypothesis on them has
  a concrete instance in a witness.

  \<^bold>\<open>What is shown.\<close>
  \<^item> Protocol: clocks never go back under any network; a clock that reached a quorum is found in every later
    quorum; a fan-out acts once; the quorums of two operations on a key have a common node, from the command
    lines of the nodes on; what each phase, request and answer is; that requests with wrong tags are processed
    and that a newer remote value is not what a get returns; every buffer of a fan-out is released exactly once,
    in any order of the continuations; the cluster refines one atomic register per node and key; a put and a get carried
    between nodes, the write-back of a get that spoils an entry, and two threads of a process that take the same
    clock; every request sent has a registered handler, its own continuation and a context; in runs whose
    write-backs are local entries a key and a clock determine the value everywhere, while the request of a get
    can be stored as a write.
  \<^item> Memtable: put and get, convergence of replicas whatever the order of the writes, puts under interference.
  \<^item> Wire and storage formats: round trips, sizes and bounds of messages, packets and encrypted values.
  \<^item> Hash table and list: the list refines a sequence (locale \<open>sequence\<close>); put and get of the hash table
    outside of the first position of a bucket, and the loss of a bucket there; the hash is constant.
  \<^item> Server: the limiter is an invariant of all interleavings and lets waiting threads in; nodes agree on the
    groups; the trace is split without overlap; the key search of the trace is right; a thread whose
    peers answer gets through its run with the right sessions in every group; the final exchange.
  \<^item> Statistics: the counting variants return what the plain ones do, and the counters are sums over the calls
    in any interleaving; the tree of results is complete exactly if its object is destroyed last.
  \<^item> Utilities: the checksum is the one of a single pass; substring replacement ends and is right; bounds of the
    string copies; the allocator gives back the pages it maps; a guard runs its action once; the CBC hash cannot be
    ended.  The packet test passes, and the memtable test reads what its threads wrote.

  \<^bold>\<open>Bounds.\<close>  No function has fuel: recursive functions have termination proofs, and the loops that may not
  end are partial functions in the option monad or read a list of answers.  Sizes are assumed to be below
  \<open>2 ^ 64\<close> where the code adds them.

  \<^bold>\<open>Not modelled.\<close>  The text form of JSON and the progress messages on the console (output only); \<open>Hashtable\<close> of \<open>store.h\<close>,
  the parser of trace files and the configurations without \<open>BENCHMARKING\<close> or \<open>SCALA\<close> or with \<open>PUSH_FRONT\<close>, which are
  compiled out or do not compile; \<open>finalize\<close> of the counting stream ciphers, which does not compile; class members that are
  declared and not defined; the other tests, the scripts and the build.
\<close>

section \<open>From the command line to the quorums\<close>




text \<open>A concrete run: three nodes, one put and one get, peers that answer at once.\<close>

abbreviation (input) demo_trace :: "trace_cmd list" where
  "demo_trace \<equiv> [\<lparr>tc_op = Trace_Put, tc_key_hash = [1, 2, 3, 4, 5, 6, 7, 8]\<rparr>, \<lparr>tc_op = Trace_Get, tc_key_hash = [1, 2, 3, 4, 5, 6, 7, 8]\<rparr>]"

abbreviation (input) demo_rpc :: rpc_env where
  "demo_rpc \<equiv> \<lparr>rp_create_session = (\<lambda>uri _. int (length uri)), rp_is_connected = (\<lambda>_. [False, True]), rp_connected = [1, 2], rp_progress = [(0, 1), (2, 2)]\<rparr>"

abbreviation (input) demo_infos :: "string list" where
  "demo_infos \<equiv> [''h.2:1:1'', ''h.3:1:1'']"


end
